(* ===== verification/Sky_Prelude.thy ===== *)
theory Sky_Prelude
  imports Main
begin

text \<open>
  Shared vocabulary of the development: Go errors as values, 64-bit counters,
  Go's truncating integer division, decimal printing, and the generic facts on
  lists, options and maps that the component theories use.  Durations and
  instants are integers (nanoseconds unless a theory says milliseconds);
  pointers are natural numbers that index an explicit store.
\<close>

subsection \<open>Errors\<close>

text \<open>The two values of \<open>context.Context.Err\<close>.\<close>

datatype ctx_error = Canceled | DeadlineExceeded

text \<open>
  The sentinel errors of \<open>actor/system.go\<close> and \<open>actor/drain.go\<close>.
  \<open>Wrap e msg\<close> is \<open>fmt.Errorf("%w: msg", e)\<close>; \<open>ErrText\<close> is an anonymous
  \<open>errors.New\<close> value, such as the ones a handler returns.
\<close>

datatype go_error =
    ErrServiceNotFound
  | ErrActorNotFound
  | ErrServiceNotReady
  | ErrServiceStopping
  | ErrStaleRef
  | ErrProtocolNotFound
  | ErrProtocolExists
  | ErrProtocolTypeMismatch
  | ErrInvalidArgs
  | ErrCodec
  | ErrMailboxTimeout
  | ErrMailboxFull
  | ErrCallTimeout
  | ErrCallCycle
  | ErrSuspendLimit
  | ErrYieldForbidden
  | ErrRuntimeInvariant
  | ErrRemoteUnavailable
  | ErrTransportBackpressure
  | ErrMaintenance
  | ErrCtx ctx_error
  | ErrText string
  | Wrap go_error string

type_synonym 'a result = "go_error + 'a"

text \<open>\<open>errors.Is\<close>: the error itself or anything it wraps.\<close>

primrec errors_Is :: "go_error \<Rightarrow> go_error \<Rightarrow> bool" where
  "errors_Is ErrServiceNotFound t = (t = ErrServiceNotFound)"
| "errors_Is ErrActorNotFound t = (t = ErrActorNotFound)"
| "errors_Is ErrServiceNotReady t = (t = ErrServiceNotReady)"
| "errors_Is ErrServiceStopping t = (t = ErrServiceStopping)"
| "errors_Is ErrStaleRef t = (t = ErrStaleRef)"
| "errors_Is ErrProtocolNotFound t = (t = ErrProtocolNotFound)"
| "errors_Is ErrProtocolExists t = (t = ErrProtocolExists)"
| "errors_Is ErrProtocolTypeMismatch t = (t = ErrProtocolTypeMismatch)"
| "errors_Is ErrInvalidArgs t = (t = ErrInvalidArgs)"
| "errors_Is ErrCodec t = (t = ErrCodec)"
| "errors_Is ErrMailboxTimeout t = (t = ErrMailboxTimeout)"
| "errors_Is ErrMailboxFull t = (t = ErrMailboxFull)"
| "errors_Is ErrCallTimeout t = (t = ErrCallTimeout)"
| "errors_Is ErrCallCycle t = (t = ErrCallCycle)"
| "errors_Is ErrSuspendLimit t = (t = ErrSuspendLimit)"
| "errors_Is ErrYieldForbidden t = (t = ErrYieldForbidden)"
| "errors_Is ErrRuntimeInvariant t = (t = ErrRuntimeInvariant)"
| "errors_Is ErrRemoteUnavailable t = (t = ErrRemoteUnavailable)"
| "errors_Is ErrTransportBackpressure t = (t = ErrTransportBackpressure)"
| "errors_Is ErrMaintenance t = (t = ErrMaintenance)"
| "errors_Is (ErrCtx c) t = (t = ErrCtx c)"
| "errors_Is (ErrText m) t = (t = ErrText m)"
| "errors_Is (Wrap e m) t = (t = Wrap e m \<or> errors_Is e t)"

subsection \<open>Machine arithmetic\<close>

text \<open>
  Counters of type \<open>uint64\<close> are natural numbers; where the code subtracts, the
  wrap-around is written out, so that an underflow would be visible.
\<close>

definition dec64 :: "nat \<Rightarrow> nat" where
  "dec64 n = (if n = 0 then 2 ^ 64 - 1 else n - 1)"

definition sub64 :: "nat \<Rightarrow> nat \<Rightarrow> nat" where
  "sub64 a b = (if b \<le> a then a - b else a + 2 ^ 64 - b)"

text \<open>Go's integer division truncates towards zero.\<close>

definition go_div :: "int \<Rightarrow> int \<Rightarrow> int" where
  "go_div a b = sgn a * sgn b * (\<bar>a\<bar> div \<bar>b\<bar>)"

subsection \<open>Decimal printing\<close>

text \<open>\<open>strconv.FormatUint(n, 10)\<close> and the verb \<open>%d\<close> on an unsigned value.\<close>

definition digit_char :: "nat \<Rightarrow> char" where
  "digit_char d = char_of (48 + d)"

fun show_nat :: "nat \<Rightarrow> string" where
  "show_nat n = (if n < 10 then [digit_char n] else show_nat (n div 10) @ [digit_char (n mod 10)])"

declare show_nat.simps [simp del]

text \<open>The verb \<open>%d\<close> on a signed value.\<close>

definition show_int :: "int \<Rightarrow> string" where
  "show_int i = (if i < 0 then CHR 0x2D # show_nat (nat (- i)) else show_nat (nat i))"

subsection \<open>Generic facts\<close>

named_theorems counter_simps \<open>arithmetic of 64-bit counters away from the wrap-around\<close>

lemma dec64_pos [counter_simps]: "0 < n \<Longrightarrow> dec64 n = n - 1"
  by (simp add: dec64_def)

lemma dec64_Suc [simp]: "dec64 (Suc n) = n"
  by (simp add: dec64_def)

lemma sub64_le [counter_simps]: "b \<le> a \<Longrightarrow> sub64 a b = a - b"
  by (simp add: sub64_def)

lemma go_div_nonneg: "0 \<le> a \<Longrightarrow> 0 < b \<Longrightarrow> go_div a b = a div b"
  by (cases "a = 0") (simp_all add: go_div_def)

lemma errors_Is_refl [simp]: "errors_Is e e"
  by (cases e) simp_all

lemma digit_char_inj: "a < 10 \<Longrightarrow> b < 10 \<Longrightarrow> digit_char a = digit_char b \<Longrightarrow> a = b"
proof -
  assume a: "a < 10" and b: "b < 10" and eq: "digit_char a = digit_char b"
  have "of_char (char_of (48 + a) :: char) = (of_char (char_of (48 + b) :: char) :: nat)"
    using eq by (simp add: digit_char_def)
  with a b show "a = b" by simp
qed

lemma show_nat_nonempty: "show_nat n \<noteq> []"
  by (subst show_nat.simps) simp

text \<open>Two numbers with the same decimal form are equal.\<close>

lemma show_nat_inj: "show_nat m = show_nat n \<Longrightarrow> m = n"
proof (induction m arbitrary: n rule: show_nat.induct)
  case (1 m)
  show ?case
  proof (cases "m < 10")
    case True
    show ?thesis
    proof (cases "n < 10")
      case True
      with \<open>m < 10\<close> "1.prems" show ?thesis
        by (auto simp: show_nat.simps [of m] show_nat.simps [of n] intro: digit_char_inj)
    next
      case False
      with \<open>m < 10\<close> "1.prems" show ?thesis
        using show_nat_nonempty [of "n div 10"]
        by (auto simp: show_nat.simps [of m] show_nat.simps [of n])
    qed
  next
    case False
    show ?thesis
    proof (cases "n < 10")
      case True
      with False "1.prems" show ?thesis
        using show_nat_nonempty [of "m div 10"]
        by (auto simp: show_nat.simps [of m] show_nat.simps [of n])
    next
      case n: False
      from False n "1.prems" have "show_nat (m div 10) = show_nat (n div 10)"
        and d: "digit_char (m mod 10) = digit_char (n mod 10)"
        by (auto simp: show_nat.simps [of m] show_nat.simps [of n])
      then have "m div 10 = n div 10" using False "1.IH" by blast
      moreover have "m mod 10 = n mod 10" using d by (intro digit_char_inj) auto
      ultimately show ?thesis by (metis div_mult_mod_eq)
    qed
  qed
qed

lemma show_nat_eq_iff [simp]: "show_nat m = show_nat n \<longleftrightarrow> m = n"
  by (auto dest: show_nat_inj)

lemma nth_update_at: "p < length xs \<Longrightarrow> xs[i := v] ! p = (if i = p then v else xs ! p)"
  by (cases "i = p") simp_all

end
