(* ===== verification/Actor_Types.thy ===== *)
theory Actor_Types
  imports Sky_Prelude
begin

text \<open>
  The data of the actor runtime (package \<open>actor\<close>): contexts and call paths,
  messages and codecs, mailbox envelopes and activations.  The type variable
  \<open>'v\<close> stands for Go's \<open>any\<close>: payload values are opaque to the runtime.
\<close>

subsection \<open>Contexts and call paths\<close>

text \<open>One active handler of a synchronous call chain (\<open>CallFrame\<close>).\<close>

record CallFrame =
  frame_Node :: string
  frame_Service :: string
  frame_Protocol :: string

text \<open>
  The private carrier that the runtime stores in a context.  An activation is a
  pointer into the store of activations.
\<close>

record actorContextState =
  acs_activation :: "nat option"
  acs_callPath :: "CallFrame list"

text \<open>
  A \<open>context.Context\<close>: the actor carrier, the drain permit (owning system and
  permit pointer), application values, and the cancellation state.  A nil
  context is \<open>None\<close> of the option type.
\<close>

record go_context =
  ctx_actor :: "actorContextState option"
  ctx_permit :: "(nat \<times> nat) option"
  ctx_values :: "string \<rightharpoonup> string"
  ctx_err :: "ctx_error option"
  ctx_deadline :: "int option"

definition background :: go_context where
  "background = \<lparr>ctx_actor = None, ctx_permit = None, ctx_values = Map.empty,
     ctx_err = None, ctx_deadline = None\<rparr>"

text \<open>\<open>context.WithoutCancel\<close>: keeps every value, drops cancellation and deadline.\<close>

definition WithoutCancel :: "go_context \<Rightarrow> go_context" where
  "WithoutCancel c = c\<lparr>ctx_err := None, ctx_deadline := None\<rparr>"

text \<open>The type assertion on \<open>ctx.Value\<close>: the zero state when the key is absent.\<close>

definition actorState :: "go_context \<Rightarrow> actorContextState" where
  "actorState c = (case ctx_actor c of
       None \<Rightarrow> \<lparr>acs_activation = None, acs_callPath = []\<rparr>
     | Some st \<Rightarrow> st)"

definition CallPath :: "go_context option \<Rightarrow> CallFrame list" where
  "CallPath c = (case c of None \<Rightarrow> [] | Some ctx \<Rightarrow> acs_callPath (actorState ctx))"

definition WithCallPath :: "go_context option \<Rightarrow> CallFrame list \<Rightarrow> go_context" where
  "WithCallPath c path =
     (let ctx = (case c of None \<Rightarrow> background | Some ctx \<Rightarrow> ctx)
      in ctx\<lparr>ctx_actor := Some ((actorState ctx)\<lparr>acs_callPath := path\<rparr>)\<rparr>)"

definition callPathContains :: "go_context option \<Rightarrow> string \<Rightarrow> string \<Rightarrow> bool" where
  "callPathContains c node service =
     list_ex (\<lambda>f. frame_Node f = node \<and> frame_Service f = service) (CallPath c)"

text \<open>\<open>formatCallCycle\<close>: the path closed by the rejected call, printed.\<close>

definition frameName :: "CallFrame \<Rightarrow> string" where
  "frameName f =
     (let name = frame_Service f;
          name = (if frame_Node f \<noteq> '''' then frame_Node f @ ''/'' @ name else name);
          name = (if frame_Protocol f \<noteq> '''' then name @ ''.'' @ frame_Protocol f else name)
      in name)"

fun join :: "string \<Rightarrow> string list \<Rightarrow> string" where
  "join sep [] = ''''"
| "join sep [x] = x"
| "join sep (x # y # ys) = x @ sep @ join sep (y # ys)"

definition formatCallCycle :: "go_context option \<Rightarrow> string \<Rightarrow> string \<Rightarrow> string \<Rightarrow> string" where
  "formatCallCycle c node service protocol =
     ''chain='' @ join '' -> '' (map frameName (CallPath c @
       [\<lparr>frame_Node = node, frame_Service = service, frame_Protocol = protocol\<rparr>]))"

definition activationFromContext :: "go_context option \<Rightarrow> nat option" where
  "activationFromContext c =
     (case c of None \<Rightarrow> None | Some ctx \<Rightarrow> acs_activation (actorState ctx))"

text \<open>
  \<open>handlerContext\<close>: the handler's own activation replaces the caller's, only
  the call path is inherited.
\<close>

definition handlerContext :: "go_context \<Rightarrow> nat \<Rightarrow> CallFrame \<Rightarrow> go_context" where
  "handlerContext base act frame =
     base\<lparr>ctx_actor := Some \<lparr>acs_activation = Some act,
            acs_callPath = CallPath (Some base) @ [frame]\<rparr>\<rparr>"

subsection \<open>Messages, codecs and handlers\<close>

record 'v Message =
  msg_payload :: "'v option"

record 'v Codec =
  PackRequest :: "'v list \<Rightarrow> 'v Message result"
  UnpackRequest :: "'v Message \<Rightarrow> 'v list result"
  PackResponse :: "'v \<Rightarrow> 'v Message result"
  UnpackResponse :: "'v Message \<Rightarrow> 'v result"

text \<open>
  A registered handler.  The handler function itself is application code: what
  it returns is an input of the model (\<open>outcome\<close> below).  The descriptor is the
  identity of the typed method's token, absent for dynamic handlers.
\<close>

record 'v handlerEntry =
  h_codec :: "'v Codec"
  h_descriptor :: "nat option"

text \<open>How a handler invocation ends: a value, an error, or a panic.\<close>

datatype 'v outcome = Returned 'v | Failed go_error | Panicked string

record 'v callResult =
  res_message :: "'v Message"
  res_err :: "go_error option"

definition zeroMessage :: "'v Message" where
  "zeroMessage = \<lparr>msg_payload = None\<rparr>"

definition errResult :: "go_error \<Rightarrow> 'v callResult" where
  "errResult e = \<lparr>res_message = zeroMessage, res_err = Some e\<rparr>"

subsection \<open>Envelopes and activations\<close>

record 'v serviceEnvelope =
  env_drainTracked :: bool
  env_ctx :: "go_context option"
  env_session :: nat
  env_protocol :: string
  env_handler :: "'v handlerEntry"
  env_request :: "'v Message"
  env_expectsResponse :: bool
  env_slotHeld :: bool

text \<open>
  What an activation can see of the service behind its runtime pointer; all of it
  is fixed when the service is reserved.
\<close>

record service_info =
  si_system :: nat
  si_name :: string
  si_noInterleave :: bool

text \<open>
  One activation.  \<open>act_owner\<close> is \<open>act.runtime.service\<close>, absent for the throw-away
  activation that wraps a refused envelope.  \<open>act_grant\<close> counts the tokens in the
  one-slot grant channel.  The field \<open>startedAt\<close> of the source is written and
  never read.
\<close>

record 'v serviceActivation =
  act_maintenanceFinished :: bool
  act_owner :: "service_info option"
  act_envelope :: "'v serviceEnvelope"
  act_grant :: nat
  act_started :: bool
  act_yieldAtSegment :: nat
  act_interleaveVersion :: nat
  act_noYield :: int
  act_label :: string

subsection \<open>Facts on contexts\<close>

lemma CallPath_handlerContext [simp]:
  "CallPath (Some (handlerContext base act frame)) = CallPath (Some base) @ [frame]"
  by (simp add: handlerContext_def CallPath_def actorState_def)

lemma activationFromContext_handlerContext [simp]:
  "activationFromContext (Some (handlerContext base act frame)) = Some act"
  by (simp add: handlerContext_def activationFromContext_def actorState_def)

lemma CallPath_WithoutCancel [simp]: "CallPath (Some (WithoutCancel c)) = CallPath (Some c)"
  by (simp add: CallPath_def WithoutCancel_def actorState_def)

lemma CallPath_WithCallPath [simp]: "CallPath (Some (WithCallPath c path)) = path"
  by (simp add: WithCallPath_def CallPath_def actorState_def Let_def)

lemma activation_WithCallPath [simp]:
  "activationFromContext (Some (WithCallPath c path)) = activationFromContext c"
  by (cases c) (simp_all add: WithCallPath_def activationFromContext_def actorState_def
      background_def Let_def split: option.splits)

lemma values_handlerContext [simp]:
  "ctx_values (handlerContext (WithoutCancel c) act frame) = ctx_values c"
  by (simp add: handlerContext_def WithoutCancel_def)

lemma callPathContains_iff:
  "callPathContains c node service \<longleftrightarrow>
     (\<exists>f \<in> set (CallPath c). frame_Node f = node \<and> frame_Service f = service)"
  by (simp add: callPathContains_def list_ex_iff)

end
