(* ===== verification/Actor_Drain.thy ===== *)
theory Actor_Drain
  imports Actor_Types
begin

text \<open>
  Maintenance draining (\<open>actor/drain.go\<close>): the tracker that counts admitted work,
  closes admission, hands out permits for trusted background work and lets
  \<open>Drain\<close> wait until nothing is in flight.  The tracker's mutex makes every
  operation atomic, so each is one function on the tracker.  Channels are
  pointers with a set of closed ones; closing a closed channel would panic, and
  that is recorded in \<open>dt_panic\<close>.
\<close>

subsection \<open>State\<close>

record drainTracker =
  dt_closed :: bool
  dt_pending :: nat
  dt_failures :: nat
  dt_durableFailures :: nat
  dt_baseline :: nat
  dt_zero :: nat
  dt_nextChan :: nat
  dt_closedChans :: "nat set"
  dt_permits :: "bool list"
  dt_panic :: bool

record DrainState =
  ds_AdmissionClosed :: bool
  ds_InFlight :: nat
  ds_Failures :: nat

text \<open>A reservation: its permit (none when draining is disabled) and its \<open>sync.Once\<close>.\<close>

record WorkReservation =
  wr_permit :: "nat option"
  wr_once :: bool

subsection \<open>Operations\<close>

definition newDrainTracker :: drainTracker where
  "newDrainTracker = \<lparr>dt_closed = False, dt_pending = 0, dt_failures = 0,
     dt_durableFailures = 0, dt_baseline = 0, dt_zero = 0, dt_nextChan = 1,
     dt_closedChans = {0}, dt_permits = [], dt_panic = False\<rparr>"

text \<open>The block that each admission repeats: a fresh channel when idle, then count.\<close>

definition beginPending :: "drainTracker \<Rightarrow> drainTracker" where
  "beginPending d =
     (let d = (if dt_pending d = 0
               then d\<lparr>dt_zero := dt_nextChan d, dt_nextChan := Suc (dt_nextChan d)\<rparr> else d)
      in d\<lparr>dt_pending := dt_pending d + 1\<rparr>)"

text \<open>The block that each completion repeats: uncount, close the channel at zero.\<close>

definition endPending :: "drainTracker \<Rightarrow> drainTracker" where
  "endPending d =
     (let d = d\<lparr>dt_pending := dec64 (dt_pending d)\<rparr>
      in if dt_pending d = 0
         then (if dt_zero d \<in> dt_closedChans d then d\<lparr>dt_panic := True\<rparr>
               else d\<lparr>dt_closedChans := insert (dt_zero d) (dt_closedChans d)\<rparr>)
         else d)"

definition permitActive :: "drainTracker \<Rightarrow> nat \<Rightarrow> bool" where
  "permitActive d p \<longleftrightarrow> p < length (dt_permits d) \<and> dt_permits d ! p"

text \<open>
  \<open>trackAdmission\<close> of system \<open>s\<close>; \<open>acts\<close> is the store of activations that the
  context's activation pointer refers to.
\<close>

definition trackAdmission ::
  "nat \<Rightarrow> (nat \<Rightarrow> 'v serviceActivation) \<Rightarrow> drainTracker option \<Rightarrow> go_context option \<Rightarrow>
     'v serviceEnvelope \<Rightarrow> (drainTracker option \<times> 'v serviceEnvelope) result" where
  "trackAdmission s acts drain ctx env =
     (case drain of
        None \<Rightarrow> Inr (None, env)
      | Some d \<Rightarrow>
          let internal = (case activationFromContext ctx of
                  None \<Rightarrow> False
                | Some a \<Rightarrow> map_option si_system (act_owner (acts a)) = Some s
                    \<and> \<not> act_maintenanceFinished (acts a));
              permitted = (case ctx of
                  None \<Rightarrow> False
                | Some c \<Rightarrow> (case ctx_permit c of
                      None \<Rightarrow> False
                    | Some (owner, p) \<Rightarrow> owner = s \<and> permitActive d p))
          in if dt_closed d \<and> \<not> internal \<and> \<not> permitted then Inl ErrMaintenance
             else Inr (Some (beginPending d), env\<lparr>env_drainTracked := True\<rparr>))"

definition finishTracked ::
  "drainTracker option \<Rightarrow> 'v serviceEnvelope \<Rightarrow> 'v serviceActivation option \<Rightarrow> bool \<Rightarrow>
     drainTracker option \<times> 'v serviceEnvelope \<times> 'v serviceActivation option" where
  "finishTracked drain env act failed =
     (case drain of
        None \<Rightarrow> (None, env, act)
      | Some d \<Rightarrow>
          let act' = map_option (\<lambda>a. a\<lparr>act_maintenanceFinished := True\<rparr>) act
          in if \<not> env_drainTracked env then (Some d, env, act')
             else let d = (if failed then d\<lparr>dt_failures := dt_failures d + 1\<rparr> else d)
                  in (Some (endPending d), env\<lparr>env_drainTracked := False\<rparr>, act'))"

definition ReserveWork :: "drainTracker option \<Rightarrow> (WorkReservation \<times> drainTracker option) result" where
  "ReserveWork drain =
     (case drain of
        None \<Rightarrow> Inr (\<lparr>wr_permit = None, wr_once = False\<rparr>, None)
      | Some d \<Rightarrow>
          if dt_closed d \<and> dt_pending d = 0 then Inl ErrMaintenance
          else let d = beginPending d
               in Inr (\<lparr>wr_permit = Some (length (dt_permits d)), wr_once = False\<rparr>,
                       Some (d\<lparr>dt_permits := dt_permits d @ [True]\<rparr>)))"

definition reservationContext ::
  "nat \<Rightarrow> WorkReservation option \<Rightarrow> go_context option \<Rightarrow> go_context" where
  "reservationContext s w base =
     (let base = (case base of None \<Rightarrow> background | Some c \<Rightarrow> c)
      in case w of
           None \<Rightarrow> base
         | Some w \<Rightarrow> (case wr_permit w of
               None \<Rightarrow> base
             | Some p \<Rightarrow> base\<lparr>ctx_actor := Some \<lparr>acs_activation = None, acs_callPath = []\<rparr>,
                              ctx_permit := Some (s, p)\<rparr>))"

definition Finish ::
  "WorkReservation \<Rightarrow> go_error option \<Rightarrow> drainTracker \<Rightarrow> WorkReservation \<times> drainTracker" where
  "Finish w err d =
     (case wr_permit w of
        None \<Rightarrow> (w, d)
      | Some p \<Rightarrow>
          if wr_once w then (w, d)
          else let d = d\<lparr>dt_permits := (dt_permits d)[p := False]\<rparr>;
                   d = (if err \<noteq> None then d\<lparr>dt_durableFailures := dt_durableFailures d + 1\<rparr> else d)
               in (w\<lparr>wr_once := True\<rparr>, endPending d))"

definition DrainStateOf :: "drainTracker \<Rightarrow> DrainState" where
  "DrainStateOf d = \<lparr>ds_AdmissionClosed = dt_closed d, ds_InFlight = dt_pending d,
     ds_Failures = sub64 (dt_failures d) (dt_baseline d) + dt_durableFailures d\<rparr>"

text \<open>
  \<open>Drain\<close> closes admission and captures the channel to wait on (\<open>Drain_close\<close>),
  then returns when that channel is closed (\<open>None\<close>) or its context ends
  (\<open>Some e\<close>); a returned error is the second component.
\<close>

definition Drain_close :: "drainTracker \<Rightarrow> nat \<times> drainTracker" where
  "Drain_close d =
     (let d = (if \<not> dt_closed d then d\<lparr>dt_closed := True, dt_baseline := dt_failures d\<rparr> else d)
      in (dt_zero d, d))"

definition Drain_return ::
  "drainTracker \<Rightarrow> ctx_error option \<Rightarrow> DrainState \<times> go_error option" where
  "Drain_return d ended =
     (case ended of
        Some e \<Rightarrow> (DrainStateOf d, Some (ErrCtx e))
      | None \<Rightarrow>
          (let state = DrainStateOf d
           in if ds_Failures state \<noteq> 0
              then (state, Some (ErrText ''actor: admitted work failed during drain''))
              else (state, None)))"

text \<open>\<open>MaintenanceWork\<close> around its callback: the permit it installs, and its release.\<close>

definition MaintenanceWork_begin :: "drainTracker \<Rightarrow> nat \<times> drainTracker" where
  "MaintenanceWork_begin d =
     (let p = length (dt_permits d)
      in (p, beginPending (d\<lparr>dt_permits := dt_permits d @ [True]\<rparr>)))"

definition MaintenanceWork_end :: "nat \<Rightarrow> drainTracker \<Rightarrow> drainTracker" where
  "MaintenanceWork_end p d = endPending (d\<lparr>dt_permits := (dt_permits d)[p := False]\<rparr>)"

definition ResumeAdmission :: "drainTracker \<Rightarrow> drainTracker" where
  "ResumeAdmission d = d\<lparr>dt_closed := False, dt_baseline := dt_failures d\<rparr>"

text \<open>
  The tracker among its users: envelopes that were admitted and not finished,
  reservations handed out, and maintenance callbacks in progress.  A step is one
  tracker operation by any of them; payloads play no part, so they are of type unit.
\<close>

record drain_world =
  dw_drain :: drainTracker
  dw_envs :: nat
  dw_res :: "WorkReservation list"
  dw_maint :: "nat list"

definition drain_init :: drain_world where
  "drain_init = \<lparr>dw_drain = newDrainTracker, dw_envs = 0, dw_res = [], dw_maint = []\<rparr>"

definition openReservation :: "WorkReservation \<Rightarrow> bool" where
  "openReservation w \<longleftrightarrow> wr_permit w \<noteq> None \<and> \<not> wr_once w"

text \<open>All work that has begun and not ended.\<close>

definition outstanding :: "drain_world \<Rightarrow> nat" where
  "outstanding w = dw_envs w + length (filter openReservation (dw_res w)) + length (dw_maint w)"

inductive drain_step :: "drain_world \<Rightarrow> drain_world \<Rightarrow> bool" where
  admit: "trackAdmission s (acts :: nat \<Rightarrow> unit serviceActivation) (Some (dw_drain w)) ctx env
      = Inr (Some d', env') \<Longrightarrow>
    drain_step w (w\<lparr>dw_drain := d', dw_envs := Suc (dw_envs w)\<rparr>)"
| finish: "dw_envs w = Suc n \<Longrightarrow> env_drainTracked (env :: unit serviceEnvelope) \<Longrightarrow>
    finishTracked (Some (dw_drain w)) env act failed = (Some d', env', act') \<Longrightarrow>
    drain_step w (w\<lparr>dw_drain := d', dw_envs := n\<rparr>)"
| reserve: "ReserveWork (Some (dw_drain w)) = Inr (r, Some d') \<Longrightarrow>
    drain_step w (w\<lparr>dw_drain := d', dw_res := dw_res w @ [r]\<rparr>)"
| finish_reservation: "i < length (dw_res w) \<Longrightarrow> Finish (dw_res w ! i) err (dw_drain w) = (r', d') \<Longrightarrow>
    drain_step w (w\<lparr>dw_drain := d', dw_res := (dw_res w)[i := r']\<rparr>)"
| maintenance_begin: "MaintenanceWork_begin (dw_drain w) = (p, d') \<Longrightarrow>
    drain_step w (w\<lparr>dw_drain := d', dw_maint := p # dw_maint w\<rparr>)"
| maintenance_end: "p \<in> set (dw_maint w) \<Longrightarrow>
    drain_step w (w\<lparr>dw_drain := MaintenanceWork_end p (dw_drain w), dw_maint := remove1 p (dw_maint w)\<rparr>)"
| close: "Drain_close (dw_drain w) = (c, d') \<Longrightarrow> drain_step w (w\<lparr>dw_drain := d'\<rparr>)"
| resume: "drain_step w (w\<lparr>dw_drain := ResumeAdmission (dw_drain w)\<rparr>)"

abbreviation drain_steps :: "drain_world \<Rightarrow> drain_world \<Rightarrow> bool" where
  "drain_steps \<equiv> drain_step\<^sup>*\<^sup>*"

subsection \<open>The tracker counts its outstanding work\<close>

text \<open>
  \<open>tracks d n\<close>: the tracker is healthy and stands for \<open>n\<close> outstanding pieces of
  work: the wait channel is closed exactly when \<open>n = 0\<close>, and nothing panicked.
\<close>

definition tracks :: "drainTracker \<Rightarrow> nat \<Rightarrow> bool" where
  "tracks d n \<longleftrightarrow> dt_pending d = n \<and> \<not> dt_panic d
     \<and> (dt_zero d \<in> dt_closedChans d \<longleftrightarrow> n = 0)
     \<and> dt_zero d < dt_nextChan d \<and> (\<forall>c \<in> dt_closedChans d. c < dt_nextChan d)
     \<and> dt_baseline d \<le> dt_failures d"

lemma tracksD:
  assumes "tracks d n"
  shows "dt_pending d = n" "\<not> dt_panic d" "dt_zero d \<in> dt_closedChans d \<longleftrightarrow> n = 0"
  using assms by (auto simp: tracks_def)

lemma tracks_new [simp]: "tracks newDrainTracker 0"
  by (simp add: tracks_def newDrainTracker_def)

lemma tracks_beginPending: "tracks d n \<Longrightarrow> tracks (beginPending d) (Suc n)"
  by (auto simp: tracks_def beginPending_def Let_def)

lemma beginPending_closed [simp]: "dt_closed (beginPending d) = dt_closed d"
  by (simp add: beginPending_def Let_def)

lemma tracks_endPending: "tracks d (Suc n) \<Longrightarrow> tracks (endPending d) n"
  by (auto simp: tracks_def endPending_def Let_def)

lemma tracks_frame [simp]:
  "tracks (d\<lparr>dt_permits := ps\<rparr>) n = tracks d n"
  "tracks (d\<lparr>dt_closed := b\<rparr>) n = tracks d n"
  "tracks (d\<lparr>dt_durableFailures := k\<rparr>) n = tracks d n"
  by (simp_all add: tracks_def)

lemma tracks_failure: "tracks d n \<Longrightarrow> tracks (d\<lparr>dt_failures := Suc (dt_failures d)\<rparr>) n"
  by (auto simp: tracks_def)

lemma tracks_baseline: "tracks d n \<Longrightarrow> tracks (d\<lparr>dt_baseline := dt_failures d\<rparr>) n"
  by (auto simp: tracks_def)

text \<open>
  The contract that everything counting outstanding work offers its clients:
  beginning and ending work, and a test that nothing is outstanding.
\<close>

locale work_ledger =
  fixes begin_work :: "'s \<Rightarrow> 's"
    and end_work :: "'s \<Rightarrow> 's"
    and represents :: "'s \<Rightarrow> nat \<Rightarrow> bool"
    and settled :: "'s \<Rightarrow> bool"
  assumes begin_law: "represents s n \<Longrightarrow> represents (begin_work s) (Suc n)"
    and end_law: "represents s (Suc n) \<Longrightarrow> represents (end_work s) n"
    and settled_law: "represents s n \<Longrightarrow> settled s \<longleftrightarrow> n = 0"
begin

lemma begin_many: "represents s n \<Longrightarrow> represents ((begin_work ^^ k) s) (n + k)"
  by (induction k) (auto intro: begin_law)

lemma end_many: "represents s (n + k) \<Longrightarrow> represents ((end_work ^^ k) s) n"
proof (induction k arbitrary: n)
  case (Suc k)
  then have "represents ((end_work ^^ k) s) (Suc n)" by simp
  then show ?case by (simp add: end_law)
qed simp

text \<open>Work that was begun is not settled before as much work has ended.\<close>

lemma settles_exactly:
  assumes "represents s 0" and "j \<le> k"
  shows "settled ((end_work ^^ j) ((begin_work ^^ k) s)) \<longleftrightarrow> j = k"
proof -
  have "represents ((begin_work ^^ k) s) (k - j + j)"
    using begin_many [OF assms(1), of k] assms(2) by simp
  then have "represents ((end_work ^^ j) ((begin_work ^^ k) s)) (k - j)"
    by (rule end_many)
  with assms(2) show ?thesis by (auto simp: settled_law)
qed

end

interpretation drain_ledger: work_ledger beginPending endPending tracks
  "\<lambda>d. dt_zero d \<in> dt_closedChans d"
  by unfold_locales (auto intro: tracks_beginPending tracks_endPending dest: tracksD)

subsection \<open>Every operation keeps the count\<close>

lemma trackAdmission_tracks:
  assumes "tracks d n" and "trackAdmission s acts (Some d) ctx env = Inr (drain', env')"
  shows "\<exists>d'. drain' = Some d' \<and> tracks d' (Suc n) \<and> env_drainTracked env'
    \<and> dt_closed d' = dt_closed d"
  using assms
  by (auto simp: trackAdmission_def Let_def tracks_beginPending split: if_splits)

lemma finishTracked_tracked:
  assumes "tracks d (Suc n)" and "env_drainTracked env"
  shows "\<exists>d'. finishTracked (Some d) env act failed =
     (Some d', env\<lparr>env_drainTracked := False\<rparr>,
      map_option (\<lambda>a. a\<lparr>act_maintenanceFinished := True\<rparr>) act) \<and> tracks d' n"
  using assms by (auto simp: finishTracked_def Let_def intro!: tracks_endPending tracks_failure)

lemma finishTracked_untracked:
  "\<not> env_drainTracked env \<Longrightarrow> finishTracked (Some d) env act failed =
     (Some d, env, map_option (\<lambda>a. a\<lparr>act_maintenanceFinished := True\<rparr>) act)"
  by (simp add: finishTracked_def)

lemma ReserveWork_tracks:
  assumes "tracks d n" and "ReserveWork (Some d) = Inr (w, drain')"
  shows "\<exists>d' p. drain' = Some d' \<and> w = \<lparr>wr_permit = Some p, wr_once = False\<rparr>
    \<and> tracks d' (Suc n) \<and> permitActive d' p"
  using assms
  by (auto simp: ReserveWork_def Let_def permitActive_def nth_append split: if_splits
      intro: tracks_beginPending)

lemma Finish_tracks:
  assumes "tracks d (Suc n)" and "wr_permit w = Some p" and "\<not> wr_once w"
  shows "tracks (snd (Finish w err d)) n" "wr_once (fst (Finish w err d))"
    "\<not> permitActive (snd (Finish w err d)) p"
  using assms
  by (auto simp: Finish_def Let_def intro!: tracks_endPending)
    (auto simp: permitActive_def endPending_def Let_def split: if_splits)

lemma Finish_twice: "Finish (fst (Finish w err d)) err' d' = (fst (Finish w err d), d')"
  by (auto simp: Finish_def Let_def split: option.splits)

lemma Maintenance_tracks:
  "tracks d n \<Longrightarrow> tracks (snd (MaintenanceWork_begin d)) (Suc n)"
  "tracks d (Suc n) \<Longrightarrow> tracks (MaintenanceWork_end p d) n"
  by (auto simp: MaintenanceWork_begin_def MaintenanceWork_end_def Let_def
      intro!: tracks_beginPending tracks_endPending)

lemma Drain_close_tracks: "tracks d n \<Longrightarrow> tracks (snd (Drain_close d)) n"
  by (auto simp: Drain_close_def Let_def tracks_def)

lemma ResumeAdmission_tracks: "tracks d n \<Longrightarrow> tracks (ResumeAdmission d) n"
  by (auto simp: ResumeAdmission_def tracks_def)

subsection \<open>The tracker among its users\<close>

definition drain_inv :: "drain_world \<Rightarrow> bool" where
  "drain_inv w \<longleftrightarrow> tracks (dw_drain w) (outstanding w)"

lemma drain_inv_init: "drain_inv drain_init"
  by (simp add: drain_inv_def outstanding_def drain_init_def)

lemma Finish_closed_reservation: "\<not> openReservation w \<Longrightarrow> Finish w err d = (w, d)"
  by (auto simp: openReservation_def Finish_def split: option.splits)

lemma filter_update_open:
  assumes "i < length rs" and "openReservation (rs ! i)" and "\<not> openReservation r'"
  shows "length (filter openReservation rs) = Suc (length (filter openReservation (rs[i := r'])))"
proof -
  have "filter openReservation rs = filter openReservation (take i rs) @ rs ! i
      # filter openReservation (drop (Suc i) rs)"
    using assms(1,2) by (subst id_take_nth_drop [OF assms(1)]) simp
  moreover have "filter openReservation (rs[i := r']) = filter openReservation (take i rs)
      @ filter openReservation (drop (Suc i) rs)"
    using assms(1,3) by (simp add: upd_conv_take_nth_drop)
  ultimately show ?thesis by simp
qed

lemma drain_step_inv: "drain_step w w' \<Longrightarrow> drain_inv w \<Longrightarrow> drain_inv w'"
proof (induction rule: drain_step.induct)
  case (admit s acts w ctx env d' env')
  then show ?case
    using trackAdmission_tracks [OF _ admit.hyps] by (auto simp: drain_inv_def outstanding_def)
next
  case (finish w n env act failed d' env' act')
  then have "tracks (dw_drain w) (Suc (n + length (filter openReservation (dw_res w)) + length (dw_maint w)))"
    by (simp add: drain_inv_def outstanding_def)
  from finishTracked_tracked [OF this finish.hyps(2), of act failed] finish.hyps(3)
  show ?case by (auto simp: drain_inv_def outstanding_def)
next
  case (reserve w r d')
  then show ?case
    using ReserveWork_tracks [OF _ reserve.hyps]
    by (fastforce simp: drain_inv_def outstanding_def openReservation_def)
next
  case (finish_reservation i w err r' d')
  show ?case
  proof (cases "openReservation (dw_res w ! i)")
    case True
    then obtain p where p: "wr_permit (dw_res w ! i) = Some p" "\<not> wr_once (dw_res w ! i)"
      by (auto simp: openReservation_def)
    define m where "m = dw_envs w + length (filter openReservation ((dw_res w)[i := r'])) + length (dw_maint w)"
    have once: "\<not> openReservation r'"
      using finish_reservation.hyps(2) p by (auto simp: openReservation_def Finish_def Let_def)
    have "tracks (dw_drain w) (Suc m)"
      using finish_reservation.prems filter_update_open [OF finish_reservation.hyps(1) True once]
      by (simp add: drain_inv_def outstanding_def m_def)
    from Finish_tracks(1) [OF this p, of err] finish_reservation.hyps(2)
    show ?thesis by (simp add: drain_inv_def outstanding_def m_def)
  next
    case False
    with finish_reservation have "dw_res w ! i = r'" "dw_drain w = d'"
      by (simp_all add: Finish_closed_reservation)
    then have "(dw_res w)[i := r'] = dw_res w" by (metis list_update_id)
    with finish_reservation.prems \<open>dw_drain w = d'\<close> show ?thesis
      by (simp add: drain_inv_def outstanding_def)
  qed
next
  case (maintenance_begin w p d')
  then show ?case
    using Maintenance_tracks(1) [of "dw_drain w" "outstanding w"]
    by (simp add: drain_inv_def outstanding_def)
next
  case (maintenance_end p w)
  then have "outstanding w = Suc (dw_envs w + length (filter openReservation (dw_res w))
      + length (remove1 p (dw_maint w)))"
    by (simp add: outstanding_def length_remove1) (metis Suc_pred length_pos_if_in_set)
  with maintenance_end show ?case
    by (simp add: drain_inv_def outstanding_def Maintenance_tracks(2))
next
  case (close w c d')
  then show ?case
    using Drain_close_tracks [of "dw_drain w" "outstanding w"]
    by (simp add: drain_inv_def outstanding_def)
next
  case (resume w)
  then show ?case
    by (simp add: drain_inv_def outstanding_def ResumeAdmission_tracks)
qed

lemma drain_steps_inv: "drain_steps w w' \<Longrightarrow> drain_inv w \<Longrightarrow> drain_inv w'"
  by (induction rule: rtranclp_induct) (auto intro: drain_step_inv)

text \<open>A channel becomes closed only by the step that ends the last outstanding work.\<close>

lemma endPending_closes:
  "c \<in> dt_closedChans (endPending d) \<Longrightarrow> c \<notin> dt_closedChans d \<Longrightarrow> dt_pending (endPending d) = 0"
  by (auto simp: endPending_def Let_def split: if_splits)

lemma beginPending_closes [simp]: "dt_closedChans (beginPending d) = dt_closedChans d"
  by (simp add: beginPending_def Let_def)

lemma drain_step_closes:
  assumes "drain_step w w'" and "drain_inv w"
    and "c \<in> dt_closedChans (dw_drain w')" and "c \<notin> dt_closedChans (dw_drain w)"
  shows "outstanding w' = 0"
proof -
  have "dt_pending (dw_drain w') = 0"
    using assms(1,3,4)
    by (cases rule: drain_step.cases)
      (auto simp: trackAdmission_def finishTracked_def ReserveWork_def Finish_def
        MaintenanceWork_begin_def MaintenanceWork_end_def Drain_close_def ResumeAdmission_def
        Let_def split: if_splits option.splits dest!: endPending_closes)
  moreover have "drain_inv w'" using assms(1,2) by (rule drain_step_inv)
  ultimately show ?thesis by (simp add: drain_inv_def tracks_def)
qed

lemma drain_steps_quiescent:
  assumes "drain_steps w w'" and "drain_inv w"
    and "c \<in> dt_closedChans (dw_drain w')" and "c \<notin> dt_closedChans (dw_drain w)"
  shows "\<exists>m. drain_steps w m \<and> drain_steps m w' \<and> outstanding m = 0"
  using assms
proof (induction rule: rtranclp_induct)
  case base
  then show ?case by simp
next
  case (step u v)
  show ?case
  proof (cases "c \<in> dt_closedChans (dw_drain u)")
    case True
    with step.IH step.prems obtain m where
      "drain_steps w m" "drain_steps m u" "outstanding m = 0" by auto
    with step.hyps(2) show ?thesis by (meson rtranclp.rtrancl_into_rtrancl)
  next
    case False
    have "outstanding v = 0"
      using step.hyps(2) drain_steps_inv [OF step.hyps(1) step.prems(1)] step.prems(2) False
      by (rule drain_step_closes)
    with step.hyps show ?thesis by (meson rtranclp.rtrancl_into_rtrancl rtranclp.rtrancl_refl)
  qed
qed

text \<open>A permit that was withdrawn never becomes active again.\<close>

lemma permitActive_beginPending [simp]: "permitActive (beginPending d) p = permitActive d p"
  by (simp add: permitActive_def beginPending_def Let_def)

lemma permitActive_endPending [simp]: "permitActive (endPending d) p = permitActive d p"
  by (simp add: permitActive_def endPending_def Let_def)

lemma dt_permits_pending [simp]:
  "dt_permits (beginPending d) = dt_permits d" "dt_permits (endPending d) = dt_permits d"
  by (simp_all add: beginPending_def endPending_def Let_def)

lemma drain_step_permit:
  assumes "drain_step w w'" and "p < length (dt_permits (dw_drain w))"
    and "\<not> permitActive (dw_drain w) p"
  shows "p < length (dt_permits (dw_drain w')) \<and> \<not> permitActive (dw_drain w') p"
  using assms
  by (cases rule: drain_step.cases)
    (auto simp: trackAdmission_def finishTracked_def ReserveWork_def Finish_def permitActive_def
        MaintenanceWork_begin_def MaintenanceWork_end_def Drain_close_def ResumeAdmission_def
        nth_append nth_update_at Let_def split: if_splits option.splits)

lemma drain_steps_permit:
  assumes "drain_steps w w'" and "p < length (dt_permits (dw_drain w))"
    and "\<not> permitActive (dw_drain w) p"
  shows "\<not> permitActive (dw_drain w') p"
proof -
  have "p < length (dt_permits (dw_drain w')) \<and> \<not> permitActive (dw_drain w') p"
    using assms by (induction rule: rtranclp_induct) (auto dest: drain_step_permit)
  then show ?thesis by simp
qed

subsection \<open>The theorems\<close>

lemma drain_steps_init: "drain_steps drain_init w \<Longrightarrow> drain_inv w"
  using drain_steps_inv drain_inv_init by blast

text \<open>
  The tracker counts exactly the outstanding work.  Whatever envelopes,
  reservations and maintenance callbacks begin and end, in any order, the pending count is
  the number of pieces of work that have begun and not ended, the wait channel is closed
  exactly when there are none, and no channel is closed twice.
\<close>

theorem drain_counts_outstanding_work:
  assumes "drain_steps drain_init w"
  shows "dt_pending (dw_drain w) = outstanding w \<and> \<not> dt_panic (dw_drain w)
    \<and> (dt_zero (dw_drain w) \<in> dt_closedChans (dw_drain w) \<longleftrightarrow> outstanding w = 0)"
  using drain_steps_init [OF assms] by (auto simp: drain_inv_def dest: tracksD)

text \<open>A reservation is made and finished twice.\<close>

theorem drain_counts_outstanding_work_witness:
  "\<exists>r d. ReserveWork (Some newDrainTracker) = Inr (r, Some d)
    \<and> dt_pending d = outstanding (drain_init\<lparr>dw_drain := d, dw_res := [r]\<rparr>)
    \<and> outstanding (drain_init\<lparr>dw_drain := d, dw_res := [r]\<rparr>) = 1"
proof -
  obtain r d where rd: "ReserveWork (Some newDrainTracker) = Inr (r, Some d)" "openReservation r"
    by (auto simp: ReserveWork_def newDrainTracker_def openReservation_def Let_def)
  have "drain_step drain_init (drain_init\<lparr>dw_drain := d, dw_res := dw_res drain_init @ [r]\<rparr>)"
    by (rule drain_step.reserve) (simp add: drain_init_def rd)
  then have "drain_steps drain_init (drain_init\<lparr>dw_drain := d, dw_res := [r]\<rparr>)"
    by (simp add: drain_init_def)
  from drain_counts_outstanding_work [OF this] rd show ?thesis
    by (auto simp: outstanding_def drain_init_def)
qed



text \<open>
  A withdrawn permit never admits again.  Once a reservation or a maintenance
  callback has ended, its permit is refused with \<open>ErrMaintenance\<close> whenever admission is
  closed, however the tracker evolved in the meantime, unless the caller is a handler whose
  own work is still counted.
\<close>

theorem withdrawn_permit_is_refused:
  assumes "drain_steps w w'" and "p < length (dt_permits (dw_drain w))"
    and "\<not> permitActive (dw_drain w) p" and "dt_closed (dw_drain w')"
    and "ctx_permit c = Some (s, p)" and "activationFromContext (Some c) = None"
  shows "trackAdmission s acts (Some (dw_drain w')) (Some c) env = Inl ErrMaintenance"
  using drain_steps_permit [OF assms(1-3)] assms(4-6) by (simp add: trackAdmission_def)

theorem withdrawn_permit_is_refused_witness:
  "trackAdmission 0 (\<lambda>_. undefined :: unit serviceActivation)
     (Some (newDrainTracker\<lparr>dt_permits := [False], dt_closed := True\<rparr>))
     (Some (background\<lparr>ctx_permit := Some (0, 0)\<rparr>)) undefined = Inl ErrMaintenance"
  by (rule withdrawn_permit_is_refused [where p = 0 and
        w = "drain_init\<lparr>dw_drain := newDrainTracker\<lparr>dt_permits := [False], dt_closed := True\<rparr>\<rparr>" and
        w' = "drain_init\<lparr>dw_drain := newDrainTracker\<lparr>dt_permits := [False], dt_closed := True\<rparr>\<rparr>", simplified])
    (simp_all add: permitActive_def activationFromContext_def actorState_def background_def)

end
