(* ===== verification/Actor_Session.thy ===== *)
theory Actor_Session
  imports Actor_Types
begin

text \<open>
  Call sessions (\<open>actor/system.go\<close>): a caller registers a session with a one-slot
  response channel, the runtime completes it, and timeout, cancellation and
  service stop race with the completion.  \<open>sync.Map.LoadAndDelete\<close> decides every
  race; the channel send follows it as a separate step.
\<close>

subsection \<open>State and operations\<close>

text \<open>
  \<open>st_pending\<close> is the set of registered sessions, \<open>st_response s\<close> the content of the
  response channel made for session \<open>s\<close> (capacity one), \<open>st_blocked\<close> records a
  send on a full channel.
\<close>

record 'v sessionTable =
  st_nextSession :: nat
  st_pending :: "nat set"
  st_response :: "nat \<rightharpoonup> 'v callResult"
  st_timedOut :: nat
  st_unknown :: nat
  st_blocked :: bool

definition newSessionTable :: "'v sessionTable" where
  "newSessionTable = \<lparr>st_nextSession = 0, st_pending = {}, st_response = Map.empty,
     st_timedOut = 0, st_unknown = 0, st_blocked = False\<rparr>"

definition nextSessionID :: "'v sessionTable \<Rightarrow> nat \<times> 'v sessionTable" where
  "nextSessionID t = (Suc (st_nextSession t), t\<lparr>st_nextSession := Suc (st_nextSession t)\<rparr>)"

definition registerSession :: "nat \<Rightarrow> 'v sessionTable \<Rightarrow> 'v sessionTable" where
  "registerSession s t = t\<lparr>st_pending := insert s (st_pending t)\<rparr>"

text \<open>\<open>cancelSession\<close>: whether the session was still registered.\<close>

definition cancelSession :: "nat \<Rightarrow> 'v sessionTable \<Rightarrow> bool \<times> 'v sessionTable" where
  "cancelSession s t = (s \<in> st_pending t, t\<lparr>st_pending := st_pending t - {s}\<rparr>)"

text \<open>
  \<open>completeSession\<close>, split at its atomic points: the \<open>LoadAndDelete\<close> with the
  unknown-response branch, and the send on the response channel.
\<close>

definition takeSession :: "nat \<Rightarrow> 'v sessionTable \<Rightarrow> bool \<times> 'v sessionTable" where
  "takeSession s t =
     (if s \<notin> st_pending t then (False, t\<lparr>st_unknown := st_unknown t + 1\<rparr>)
      else (True, t\<lparr>st_pending := st_pending t - {s}\<rparr>))"

definition sendResponse :: "nat \<Rightarrow> 'v callResult \<Rightarrow> 'v sessionTable \<Rightarrow> 'v sessionTable" where
  "sendResponse s r t =
     (case st_response t s of
        None \<Rightarrow> t\<lparr>st_response := (st_response t)(s \<mapsto> r)\<rparr>
      | Some _ \<Rightarrow> t\<lparr>st_blocked := True\<rparr>)"

definition completeSession :: "nat \<Rightarrow> 'v callResult \<Rightarrow> 'v sessionTable \<Rightarrow> bool \<times> 'v sessionTable" where
  "completeSession s r t =
     (let (loaded, t) = takeSession s t
      in if loaded then (True, sendResponse s r t) else (False, t))"

text \<open>\<open>unpackCallResult\<close>: the handler's error, a decoding error, or the value.\<close>

definition unpackCallResult :: "'v handlerEntry \<Rightarrow> 'v callResult \<Rightarrow> 'v result" where
  "unpackCallResult h r =
     (case res_err r of
        Some e \<Rightarrow> Inl e
      | None \<Rightarrow> (case UnpackResponse (h_codec h) (res_message r) of
            Inl e \<Rightarrow> Inl (Wrap ErrCodec ''response'')
          | Inr v \<Rightarrow> Inr v))"

text \<open>
  The final \<open>select\<close> of \<open>callMailbox\<close>: which case fired.  A case that finds the
  session gone receives from the response channel instead; \<open>None\<close> means that the
  receive would block because the completer has not sent yet.
\<close>

datatype wait_event = ResponseReady | CallTimer | CtxDone ctx_error | ServiceDone

definition receiveResponse ::
  "'v handlerEntry \<Rightarrow> nat \<Rightarrow> 'v sessionTable \<Rightarrow> ('v result \<times> 'v sessionTable) option" where
  "receiveResponse h s t =
     (case st_response t s of
        None \<Rightarrow> None
      | Some r \<Rightarrow> Some (unpackCallResult h r, t\<lparr>st_response := (st_response t)(s := None)\<rparr>))"

definition callWait ::
  "string \<Rightarrow> string \<Rightarrow> 'v handlerEntry \<Rightarrow> nat \<Rightarrow> wait_event \<Rightarrow> 'v sessionTable \<Rightarrow>
     ('v result \<times> 'v sessionTable) option" where
  "callWait name protocol h s ev t =
     (case ev of
        ResponseReady \<Rightarrow> receiveResponse h s t
      | CallTimer \<Rightarrow>
          (let (cancelled, t) = cancelSession s t
           in if cancelled
              then Some (Inl (Wrap ErrCallTimeout (''service='' @ name @ '' protocol='' @ protocol
                           @ '' session='' @ show_nat s)), t\<lparr>st_timedOut := st_timedOut t + 1\<rparr>)
              else receiveResponse h s t)
      | CtxDone e \<Rightarrow>
          (let (cancelled, t) = cancelSession s t
           in if cancelled then Some (Inl (ErrCtx e), t) else receiveResponse h s t)
      | ServiceDone \<Rightarrow>
          (let (cancelled, t) = cancelSession s t
           in if cancelled then Some (Inl ErrServiceStopping, t) else receiveResponse h s t))"

subsection \<open>Callers and completers\<close>

text \<open>
  Where a session stands: its caller is waiting; a completer has taken it and
  holds the result; its caller has returned.  \<open>sw_hand\<close> is the result in a
  completer's hand between \<open>takeSession\<close> and \<open>sendResponse\<close>; \<open>sw_returned\<close> what
  the call returned.
\<close>

record 'v session_world =
  sw_table :: "'v sessionTable"
  sw_hand :: "nat \<rightharpoonup> 'v callResult"
  sw_waiting :: "nat set"
  sw_returned :: "nat \<rightharpoonup> 'v result"

definition session_init :: "'v session_world" where
  "session_init = \<lparr>sw_table = newSessionTable, sw_hand = Map.empty, sw_waiting = {},
     sw_returned = Map.empty\<rparr>"

inductive session_step :: "'v session_world \<Rightarrow> 'v session_world \<Rightarrow> bool" where
  call: "nextSessionID (sw_table w) = (s, t) \<Longrightarrow>
    session_step w (w\<lparr>sw_table := registerSession s t, sw_waiting := insert s (sw_waiting w)\<rparr>)"
| take: "takeSession s (sw_table w) = (True, t) \<Longrightarrow>
    session_step w (w\<lparr>sw_table := t, sw_hand := (sw_hand w)(s \<mapsto> r)\<rparr>)"
| unknown: "takeSession s (sw_table w) = (False, t) \<Longrightarrow>
    session_step w (w\<lparr>sw_table := t\<rparr>)"
| send: "sw_hand w s = Some r \<Longrightarrow>
    session_step w (w\<lparr>sw_table := sendResponse s r (sw_table w), sw_hand := (sw_hand w)(s := None)\<rparr>)"
| return: "s \<in> sw_waiting w \<Longrightarrow> callWait name protocol h s ev (sw_table w) = Some (v, t) \<Longrightarrow>
    session_step w (w\<lparr>sw_table := t, sw_waiting := sw_waiting w - {s},
      sw_returned := (sw_returned w)(s \<mapsto> v)\<rparr>)"

inductive session_reachable :: "'v session_world \<Rightarrow> bool" where
  start: "session_reachable session_init"
| step: "session_reachable w \<Longrightarrow> session_step w w' \<Longrightarrow> session_reachable w'"

subsection \<open>Every session has exactly one owner\<close>

text \<open>
  While its caller waits, a session is in exactly one of three places: the
  pending table, a completer's hand, or the response channel; once the caller
  has returned it is in none of them.
\<close>

definition session_inv :: "'v session_world \<Rightarrow> bool" where
  "session_inv w \<longleftrightarrow>
     (let t = sw_table w in
      \<not> st_blocked t
      \<and> (\<forall>s. s \<in> sw_waiting w \<longleftrightarrow>
            s \<in> st_pending t \<or> sw_hand w s \<noteq> None \<or> st_response t s \<noteq> None)
      \<and> (\<forall>s. s \<in> st_pending t \<longrightarrow> sw_hand w s = None \<and> st_response t s = None)
      \<and> (\<forall>s. sw_hand w s \<noteq> None \<longrightarrow> st_response t s = None)
      \<and> (\<forall>s \<in> sw_waiting w. s \<le> st_nextSession t \<and> sw_returned w s = None)
      \<and> (\<forall>s. sw_returned w s \<noteq> None \<longrightarrow> s \<le> st_nextSession t))"

lemmas session_ops = nextSessionID_def registerSession_def cancelSession_def takeSession_def
  sendResponse_def receiveResponse_def callWait_def

lemma session_inv_init: "session_inv session_init"
  by (simp add: session_inv_def session_init_def newSessionTable_def)

lemma callWait_table:
  assumes "callWait name protocol h s ev t = Some (v, t')"
  shows "st_nextSession t' = st_nextSession t" "st_blocked t' = st_blocked t"
    "st_pending t' = st_pending t \<or> st_pending t' = st_pending t - {s}"
    "(s \<in> st_pending t \<and> st_pending t' = st_pending t - {s} \<and> st_response t' = st_response t)
     \<or> (st_response t s \<noteq> None \<and> st_response t' = (st_response t)(s := None))"
  using assms by (auto simp: session_ops split: wait_event.splits if_splits option.splits)

lemma session_step_inv: "session_step w w' \<Longrightarrow> session_inv w \<Longrightarrow> session_inv w'"
proof (induction rule: session_step.induct)
  case (call w s t)
  then have "s = Suc (st_nextSession (sw_table w))" and t: "t = (sw_table w)\<lparr>st_nextSession := s\<rparr>"
    by (auto simp: nextSessionID_def)
  have "\<forall>s \<in> sw_waiting w. s \<le> st_nextSession (sw_table w)"
    and "\<forall>s. sw_returned w s \<noteq> None \<longrightarrow> s \<le> st_nextSession (sw_table w)"
    using call.prems unfolding session_inv_def Let_def by blast+
  with \<open>s = _\<close> have fresh: "s \<notin> sw_waiting w" and ret: "sw_returned w s = None"
    using Suc_n_not_le_n by blast+
  then have "sw_hand w s = None" "st_response (sw_table w) s = None"
    using call.prems by (auto simp: session_inv_def Let_def)
  with fresh ret show ?case
    using call.prems unfolding session_inv_def registerSession_def t
    by (auto simp: Let_def \<open>s = _\<close>)
next
  case (take s w t r)
  then show ?case
    by (auto simp: session_inv_def takeSession_def Let_def split: if_splits)
next
  case (unknown s w t)
  then show ?case
    by (auto simp: session_inv_def takeSession_def Let_def split: if_splits)
next
  case (send w s r)
  then have "st_response (sw_table w) s = None"
    by (auto simp: session_inv_def Let_def)
  with send show ?case
    by (auto simp: session_inv_def sendResponse_def Let_def)
next
  case (return s w name protocol h ev v t)
  then show ?case
    using callWait_table [OF return.hyps(2)]
    by (auto simp: session_inv_def Let_def split: if_splits)
qed

lemma session_reachable_inv: "session_reachable w \<Longrightarrow> session_inv w"
  by (induction rule: session_reachable.induct) (auto intro: session_inv_init session_step_inv)

subsection \<open>The theorems\<close>

text \<open>
  C8: every call is answered from exactly one place.  However completions, timeouts,
  cancellations and service stops race, the session of a waiting call is in the pending
  table, in one completer's hand, or in its response channel, and in no two of them; the
  completer's send never blocks; and a call that has returned owns nothing.
\<close>

theorem session_has_one_owner:
  assumes "session_reachable w"
  shows "\<not> st_blocked (sw_table w)
    \<and> (s \<in> sw_waiting w \<longrightarrow>
         (s \<in> st_pending (sw_table w) \<and> sw_hand w s = None \<and> st_response (sw_table w) s = None)
       \<or> (s \<notin> st_pending (sw_table w) \<and> sw_hand w s \<noteq> None \<and> st_response (sw_table w) s = None)
       \<or> (s \<notin> st_pending (sw_table w) \<and> sw_hand w s = None \<and> st_response (sw_table w) s \<noteq> None))
    \<and> (sw_returned w s \<noteq> None \<longrightarrow>
         s \<notin> st_pending (sw_table w) \<and> sw_hand w s = None \<and> st_response (sw_table w) s = None)"
  using session_reachable_inv [OF assms] unfolding session_inv_def Let_def by metis

lemma callWait_pending:
  "s \<in> st_pending t \<Longrightarrow> ev \<noteq> ResponseReady \<Longrightarrow> \<exists>v t1. callWait name protocol h s ev t = Some (v, t1)"
  by (cases ev) (auto simp: callWait_def cancelSession_def Let_def)

lemma callWait_response: "st_response t s = Some r \<Longrightarrow> \<exists>v t1. callWait name protocol h s ev t = Some (v, t1)"
  by (cases ev) (auto simp: callWait_def cancelSession_def receiveResponse_def Let_def)

text \<open>
  No call waits for ever on a finished session.  Whichever case of its final select
  fires, a waiting call returns at once, unless a completer holds its result, and then it
  returns as soon as that completer has sent.
\<close>

theorem waiting_call_returns:
  assumes "session_reachable w" and "s \<in> sw_waiting w" and "ev \<noteq> ResponseReady"
  shows "(\<exists>v t. callWait name protocol h s ev (sw_table w) = Some (v, t))
    \<or> (\<exists>r v t. sw_hand w s = Some r
         \<and> callWait name protocol h s ev (sendResponse s r (sw_table w)) = Some (v, t))"
proof -
  have inv: "session_inv w" using assms(1) by (rule session_reachable_inv)
  consider "s \<in> st_pending (sw_table w)" | r where "st_response (sw_table w) s = Some r"
    | r where "sw_hand w s = Some r" "st_response (sw_table w) s = None"
    using inv assms(2) unfolding session_inv_def Let_def by (metis option.exhaust)
  then show ?thesis
  proof cases
    case 1
    with callWait_pending assms(3) show ?thesis by blast
  next
    case 2
    with callWait_response show ?thesis by blast
  next
    case (3 r)
    then have "st_response (sendResponse s r (sw_table w)) s = Some r"
      by (simp add: sendResponse_def)
    with callWait_response 3(1) show ?thesis by blast
  qed
qed

text \<open>A call is waiting, then its completer has taken the session.\<close>

lemma session_example:
  "session_reachable (session_init\<lparr>sw_table := newSessionTable\<lparr>st_nextSession := 1, st_pending := {1}\<rparr>,
     sw_waiting := {1}\<rparr> :: unit session_world)"
proof -
  let ?w = "session_init :: unit session_world"
  have "session_step ?w (?w\<lparr>sw_table := registerSession 1 (newSessionTable\<lparr>st_nextSession := 1\<rparr>),
      sw_waiting := insert 1 (sw_waiting ?w)\<rparr>)"
    by (rule session_step.call) (simp add: nextSessionID_def session_init_def newSessionTable_def)
  from session_reachable.step [OF session_reachable.start this] show ?thesis
    by (simp add: session_init_def registerSession_def newSessionTable_def)
qed

theorem session_has_one_owner_witness:
  "\<exists>w :: unit session_world. session_reachable w \<and> 1 \<in> sw_waiting w \<and> sw_hand w 1 = None
     \<and> st_response (sw_table w) 1 = None"
proof -
  let ?w = "session_init\<lparr>sw_table := newSessionTable\<lparr>st_nextSession := 1, st_pending := {1}\<rparr>,
     sw_waiting := {1}\<rparr> :: unit session_world"
  have "1 \<in> sw_waiting ?w" "1 \<in> st_pending (sw_table ?w)" by simp_all
  with session_has_one_owner [OF session_example, of 1] session_example show ?thesis by blast
qed

theorem waiting_call_returns_witness:
  "\<exists>w :: unit session_world. session_reachable w \<and> 1 \<in> sw_waiting w
     \<and> (\<forall>h. (\<exists>v t. callWait ''svc'' ''ping'' h 1 CallTimer (sw_table w) = Some (v, t))
        \<or> (\<exists>r v t. sw_hand w 1 = Some r
             \<and> callWait ''svc'' ''ping'' h 1 CallTimer (sendResponse 1 r (sw_table w)) = Some (v, t)))"
proof -
  let ?w = "session_init\<lparr>sw_table := newSessionTable\<lparr>st_nextSession := 1, st_pending := {1}\<rparr>,
     sw_waiting := {1}\<rparr> :: unit session_world"
  have "1 \<in> sw_waiting ?w" by simp
  with waiting_call_returns [OF session_example this, of CallTimer] session_example show ?thesis
    by blast
qed

end
