(* ===== verification/Actor_System.thy ===== *)
theory Actor_System
  imports Actor_Drain Actor_Session
begin

text \<open>
  The service registry of \<open>actor/system.go\<close>: names, addresses and generations,
  service life cycle, protocol handlers, asynchronous error reporting, and the
  routing decision of \<open>Call\<close>, \<open>Send\<close> and \<open>TrySend\<close>.  \<open>Service\<close> objects live in a
  store, a pointer is an index into it.  Each operation is the critical section of
  the mutex the source takes; receivers are not nil.
\<close>

subsection \<open>References and options\<close>

record RemoteTarget =
  tgt_Node :: string
  tgt_Incarnation :: string
  tgt_Service :: string
  tgt_Address :: nat
  tgt_Generation :: nat

record Ref =
  ref_Address :: nat
  ref_Generation :: nat
  ref_system :: "nat option"
  ref_remote :: "RemoteTarget option"

definition ref_valid :: "Ref \<Rightarrow> bool" where
  "ref_valid r \<longleftrightarrow> ref_system r \<noteq> None \<and> ref_Address r \<noteq> 0 \<and> ref_Generation r \<noteq> 0"

definition IsZero :: "Ref \<Rightarrow> bool" where
  "IsZero r \<longleftrightarrow> \<not> ref_valid r"

definition IsRemote :: "Ref \<Rightarrow> bool" where
  "IsRemote r \<longleftrightarrow> ref_remote r \<noteq> None"

record ServiceOptions =
  MailboxSize :: int
  MaxSuspended :: int
  AdmissionTimeout :: int
  CallTimeout :: int
  ActiveWarn :: int
  SuspendedWarn :: int
  NoInterleave :: bool

text \<open>Durations in nanoseconds.\<close>

definition withDefaults :: "ServiceOptions \<Rightarrow> ServiceOptions" where
  "withDefaults o1 =
     (let o1 = (if MailboxSize o1 \<le> 0 then o1\<lparr>MailboxSize := 64\<rparr> else o1);
          o1 = (if MaxSuspended o1 \<le> 0 then o1\<lparr>MaxSuspended := 1024\<rparr> else o1);
          o1 = (if AdmissionTimeout o1 \<le> 0 then o1\<lparr>AdmissionTimeout := 1000000000\<rparr> else o1);
          o1 = (if CallTimeout o1 \<le> 0 then o1\<lparr>CallTimeout := 5 * 1000000000\<rparr> else o1);
          o1 = (if ActiveWarn o1 \<le> 0 then o1\<lparr>ActiveWarn := 100 * 1000000\<rparr> else o1);
          o1 = (if SuspendedWarn o1 \<le> 0 then o1\<lparr>SuspendedWarn := 3 * 1000000000\<rparr> else o1)
      in o1)"

subsection \<open>Services and systems\<close>

datatype serviceState = serviceReserved | serviceRunning | serviceStopping | serviceStopped

text \<open>
  The finalizer goroutine behind \<open>finalizeOnce\<close>: not launched, or launched and
  waiting for the runtime to exit when there is one.
\<close>

datatype finalizer = NotLaunched | Launched bool

record 'v Service =
  svc_name :: string
  svc_ref :: Ref
  svc_opts :: ServiceOptions
  svc_handlers :: "string \<rightharpoonup> 'v handlerEntry"
  svc_state :: serviceState
  svc_cancelled :: bool
  svc_runtime :: bool
  svc_runtimeDone :: bool
  svc_finalizer :: finalizer
  svc_finalized :: bool

datatype AsyncErrorStage = StageUnset | AsyncErrorHandler | AsyncErrorTransportAdmission
  | AsyncErrorTransportWrite

record AsyncError =
  ae_Service :: string
  ae_Protocol :: string
  ae_RemoteNode :: string
  ae_Stage :: AsyncErrorStage
  ae_Err :: "go_error option"

text \<open>The registry part of \<open>System\<close>; \<open>sys_services\<close> is the store of its services.\<close>

record 'v System =
  sys_id :: nat
  sys_services :: "'v Service list"
  sys_byName :: "string \<rightharpoonup> nat"
  sys_byAddress :: "nat \<rightharpoonup> nat"
  sys_nextAddress :: nat
  sys_nextGeneration :: nat
  sys_asyncFailed :: nat
  sys_stopping :: bool
  sys_remote :: bool
  sys_node :: string

definition NewSystem :: "nat \<Rightarrow> 'v System" where
  "NewSystem i = \<lparr>sys_id = i, sys_services = [], sys_byName = Map.empty,
     sys_byAddress = Map.empty, sys_nextAddress = 0, sys_nextGeneration = 0,
     sys_asyncFailed = 0, sys_stopping = False, sys_remote = False, sys_node = ''''\<rparr>"

abbreviation svcAt :: "'v System \<Rightarrow> nat \<Rightarrow> 'v Service" where
  "svcAt sys p \<equiv> sys_services sys ! p"

definition updSvc :: "nat \<Rightarrow> ('v Service \<Rightarrow> 'v Service) \<Rightarrow> 'v System \<Rightarrow> 'v System" where
  "updSvc p f sys = sys\<lparr>sys_services := (sys_services sys)[p := f (svcAt sys p)]\<rparr>"

definition nodeID :: "'v System \<Rightarrow> string" where
  "nodeID sys = sys_node sys"

definition Node :: "'v System \<Rightarrow> Ref \<Rightarrow> string" where
  "Node sys r = (case ref_remote r of
       Some t \<Rightarrow> tgt_Node t
     | None \<Rightarrow> (if ref_system r \<noteq> None then nodeID sys else ''''))"

subsection \<open>Reservation and lookup\<close>

text \<open>
  \<open>Reserve\<close> reads the stopping flag before it takes the registry lock, so its
  guard and its critical section are two steps.
\<close>

definition Reserve_check :: "string \<Rightarrow> 'v System \<Rightarrow> unit result" where
  "Reserve_check name sys =
     (if sys_stopping sys then Inl ErrServiceStopping
      else if name = '''' then Inl (Wrap ErrInvalidArgs ''empty service name'')
      else Inr ())"

definition Reserve_locked ::
  "string \<Rightarrow> ServiceOptions \<Rightarrow> 'v System \<Rightarrow> (nat \<times> Ref \<times> 'v System) result" where
  "Reserve_locked name opts sys =
     (let opts = withDefaults opts
      in case sys_byName sys name of
           Some _ \<Rightarrow> Inl (ErrText (''actor: duplicate service name '' @ name))
         | None \<Rightarrow>
             (let address = sys_nextAddress sys + 1;
                  generation = sys_nextGeneration sys + 1;
                  ref = \<lparr>ref_Address = address, ref_Generation = generation,
                         ref_system = Some (sys_id sys), ref_remote = None\<rparr>;
                  p = length (sys_services sys);
                  svc = \<lparr>svc_name = name, svc_ref = ref, svc_opts = opts,
                         svc_handlers = Map.empty, svc_state = serviceReserved,
                         svc_cancelled = False, svc_runtime = False, svc_runtimeDone = False,
                         svc_finalizer = NotLaunched, svc_finalized = False\<rparr>
              in Inr (p, ref, sys\<lparr>sys_services := sys_services sys @ [svc],
                    sys_nextAddress := address, sys_nextGeneration := generation,
                    sys_byName := (sys_byName sys)(name \<mapsto> p),
                    sys_byAddress := (sys_byAddress sys)(address \<mapsto> p)\<rparr>)))"

definition Reserve ::
  "string \<Rightarrow> ServiceOptions \<Rightarrow> 'v System \<Rightarrow> (nat \<times> Ref \<times> 'v System) result" where
  "Reserve name opts sys =
     (case Reserve_check name sys of Inl e \<Rightarrow> Inl e | Inr _ \<Rightarrow> Reserve_locked name opts sys)"

definition Resolve :: "string \<Rightarrow> 'v System \<Rightarrow> Ref result" where
  "Resolve name sys =
     (case sys_byName sys name of
        None \<Rightarrow> Inl (Wrap ErrServiceNotFound name)
      | Some p \<Rightarrow>
          if svc_state (svcAt sys p) \<noteq> serviceRunning then Inl (Wrap ErrServiceNotReady name)
          else Inr (svc_ref (svcAt sys p)))"

definition service :: "Ref \<Rightarrow> 'v System \<Rightarrow> nat result" where
  "service r sys =
     (if \<not> ref_valid r \<or> ref_system r \<noteq> Some (sys_id sys) then Inl ErrStaleRef
      else case sys_byAddress sys (ref_Address r) of
             None \<Rightarrow> Inl ErrStaleRef
           | Some p \<Rightarrow>
               if ref_Generation (svc_ref (svcAt sys p)) \<noteq> ref_Generation r then Inl ErrStaleRef
               else case svc_state (svcAt sys p) of
                      serviceRunning \<Rightarrow> Inr p
                    | serviceReserved \<Rightarrow> Inl ErrServiceNotReady
                    | _ \<Rightarrow> Inl ErrServiceStopping)"

subsection \<open>Handlers\<close>

text \<open>\<open>handle\<close>; \<open>fn\<close> tells whether the handler function is non-nil.\<close>

definition handle ::
  "nat \<Rightarrow> string \<Rightarrow> 'v Codec option \<Rightarrow> bool \<Rightarrow> nat option \<Rightarrow> 'v System \<Rightarrow> 'v System result" where
  "handle p protocol codec fn descriptor sys =
     (case codec of
        None \<Rightarrow> Inl (Wrap ErrInvalidArgs ''invalid handler registration'')
      | Some c \<Rightarrow>
          if protocol = '''' \<or> \<not> fn then Inl (Wrap ErrInvalidArgs ''invalid handler registration'')
          else if svc_state (svcAt sys p) \<noteq> serviceReserved
          then Inl (ErrText ''actor: handlers are immutable after service start'')
          else if svc_handlers (svcAt sys p) protocol \<noteq> None
          then Inl (Wrap ErrProtocolExists protocol)
          else Inr (updSvc p (\<lambda>s. s\<lparr>svc_handlers := (svc_handlers s)(protocol \<mapsto>
                 \<lparr>h_codec = c, h_descriptor = descriptor\<rparr>)\<rparr>) sys))"

definition handler :: "'v Service \<Rightarrow> string \<Rightarrow> 'v handlerEntry result" where
  "handler svc protocol =
     (case svc_handlers svc protocol of
        None \<Rightarrow> Inl (Wrap ErrProtocolNotFound
                  (''service='' @ svc_name svc @ '' protocol='' @ protocol))
      | Some h \<Rightarrow> Inr h)"

definition svcHasProtocol :: "'v Service \<Rightarrow> string \<Rightarrow> bool" where
  "svcHasProtocol svc protocol \<longleftrightarrow> protocol \<noteq> '''' \<and> svc_handlers svc protocol \<noteq> None"

definition HasProtocol :: "Ref \<Rightarrow> string \<Rightarrow> 'v System \<Rightarrow> bool" where
  "HasProtocol r protocol sys \<longleftrightarrow>
     ref_valid r \<and> ref_system r = Some (sys_id sys) \<and>
     (case sys_byAddress sys (ref_Address r) of
        None \<Rightarrow> False
      | Some p \<Rightarrow> ref_Generation (svc_ref (svcAt sys p)) = ref_Generation r
          \<and> svcHasProtocol (svcAt sys p) protocol)"

subsection \<open>Life cycle\<close>

definition Start :: "nat \<Rightarrow> 'v System \<Rightarrow> 'v System result" where
  "Start p sys =
     (if svc_state (svcAt sys p) \<noteq> serviceReserved
      then Inl (ErrText (''actor: service '' @ svc_name (svcAt sys p) @ '' cannot start''))
      else Inr (updSvc p (\<lambda>s. s\<lparr>svc_runtime := True, svc_state := serviceRunning\<rparr>) sys))"

definition beginFinalize :: "bool \<Rightarrow> 'v Service \<Rightarrow> 'v Service" where
  "beginFinalize waits s =
     (case svc_finalizer s of
        NotLaunched \<Rightarrow> s\<lparr>svc_finalizer := Launched waits\<rparr>
      | Launched _ \<Rightarrow> s)"

text \<open>
  \<open>Service.Stop\<close> up to its wait: the state switch under the mutex and
  \<open>beginFinalize\<close>.  The wait returns once \<open>svc_finalized\<close> holds.
\<close>

definition Stop :: "nat \<Rightarrow> 'v System \<Rightarrow> 'v System" where
  "Stop p sys = updSvc p (\<lambda>s.
     (case svc_state s of
        serviceStopped \<Rightarrow> s
      | serviceReserved \<Rightarrow> beginFinalize False (s\<lparr>svc_cancelled := True\<rparr>)
      | serviceRunning \<Rightarrow>
          beginFinalize (svc_runtime s) (s\<lparr>svc_state := serviceStopping, svc_cancelled := True\<rparr>)
      | serviceStopping \<Rightarrow> beginFinalize (svc_runtime s) s)) sys"

text \<open>The runtime loop of a cancelled service returns and closes its done channel.\<close>

definition runtimeExit :: "nat \<Rightarrow> 'v System \<Rightarrow> 'v System" where
  "runtimeExit p sys =
     (if svc_runtime (svcAt sys p) \<and> svc_cancelled (svcAt sys p)
      then updSvc p (\<lambda>s. s\<lparr>svc_runtimeDone := True\<rparr>) sys else sys)"

definition unpublish :: "nat \<Rightarrow> 'v System \<Rightarrow> 'v System" where
  "unpublish p sys =
     (let svc = svcAt sys p;
          sys = (if sys_byName sys (svc_name svc) = Some p
                 then sys\<lparr>sys_byName := (sys_byName sys)(svc_name svc := None)\<rparr> else sys);
          addr = ref_Address (svc_ref svc)
      in if sys_byAddress sys addr = Some p
         then sys\<lparr>sys_byAddress := (sys_byAddress sys)(addr := None)\<rparr> else sys)"

text \<open>The finalizer goroutine, once the runtime it waits for (if any) is done.\<close>

definition finalize :: "nat \<Rightarrow> 'v System \<Rightarrow> 'v System option" where
  "finalize p sys =
     (case svc_finalizer (svcAt sys p) of
        NotLaunched \<Rightarrow> None
      | Launched waits \<Rightarrow>
          if svc_finalized (svcAt sys p) \<or> waits \<and> \<not> svc_runtimeDone (svcAt sys p) then None
          else Some (updSvc p (\<lambda>s. s\<lparr>svc_state := serviceStopped, svc_finalized := True\<rparr>)
                 (unpublish p sys)))"

text \<open>
  \<open>System.Stop\<close>: raise the flag, snapshot the published services, then stop each
  and wait for it.  The snapshot is listed by address; the source's order is the
  map's.
\<close>

definition System_Stop :: "'v System \<Rightarrow> nat list \<times> 'v System" where
  "System_Stop sys =
     (List.map_filter (sys_byAddress sys) [1..<Suc (sys_nextAddress sys)],
      sys\<lparr>sys_stopping := True\<rparr>)"

subsection \<open>Asynchronous errors and remote attachment\<close>

definition ReportAsyncError :: "AsyncError \<Rightarrow> 'v System \<Rightarrow> AsyncError option \<times> 'v System" where
  "ReportAsyncError failure sys =
     (if ae_Err failure = None then (None, sys)
      else let failure = (if ae_Stage failure = StageUnset
                          then failure\<lparr>ae_Stage := AsyncErrorHandler\<rparr> else failure)
           in (Some failure, sys\<lparr>sys_asyncFailed := sys_asyncFailed sys + 1\<rparr>))"

definition AttachRemoteTransport :: "string \<Rightarrow> bool \<Rightarrow> 'v System \<Rightarrow> 'v System result" where
  "AttachRemoteTransport node transport sys =
     (if node = '''' \<or> \<not> transport then Inl (Wrap ErrInvalidArgs ''invalid remote transport'')
      else if sys_remote sys then Inl (ErrText ''actor: remote transport already attached'')
      else Inr (sys\<lparr>sys_node := node, sys_remote := True\<rparr>))"

text \<open>\<open>ResolveRemote\<close>; \<open>resolveTarget\<close> is the transport's \<open>ResolveTarget\<close>.\<close>

definition ResolveRemote ::
  "(string \<Rightarrow> string \<Rightarrow> RemoteTarget result) \<Rightarrow> string \<Rightarrow> string \<Rightarrow> 'v System \<Rightarrow> Ref result" where
  "ResolveRemote resolveTarget node svc sys =
     (if \<not> sys_remote sys then Inl ErrRemoteUnavailable
      else case resolveTarget node svc of
             Inl e \<Rightarrow> Inl e
           | Inr target \<Rightarrow>
               if tgt_Node target = '''' \<or> tgt_Address target = 0 \<or> tgt_Generation target = 0
               then Inl (Wrap ErrStaleRef (''invalid target for '' @ node @ ''/'' @ svc))
               else Inr \<lparr>ref_Address = tgt_Address target, ref_Generation = tgt_Generation target,
                         ref_system = Some (sys_id sys), ref_remote = Some target\<rparr>)"

subsection \<open>An example registry\<close>

text \<open>
  A service \<open>a\<close> is reserved (\<open>reg_reserved\<close>) and started (\<open>reg_running\<close>); or stopped
  while reserved and finalized (\<open>reg_gone\<close>), after which its name is reserved again
  (\<open>reg_again\<close>).
\<close>

definition reg_opts :: ServiceOptions where
  "reg_opts = \<lparr>MailboxSize = 0, MaxSuspended = 0, AdmissionTimeout = 0, CallTimeout = 0,
     ActiveWarn = 0, SuspendedWarn = 0, NoInterleave = False\<rparr>"

definition reg_service :: "nat \<Rightarrow> unit Service" where
  "reg_service p = \<lparr>svc_name = ''a'', svc_ref = \<lparr>ref_Address = Suc p, ref_Generation = Suc p,
       ref_system = Some 0, ref_remote = None\<rparr>, svc_opts = withDefaults reg_opts,
     svc_handlers = Map.empty, svc_state = serviceReserved, svc_cancelled = False, svc_runtime = False,
     svc_runtimeDone = False, svc_finalizer = NotLaunched, svc_finalized = False\<rparr>"

definition reg_reserved :: "unit System" where
  "reg_reserved = \<lparr>sys_id = 0, sys_services = [reg_service 0], sys_byName = [''a'' \<mapsto> 0],
     sys_byAddress = [1 \<mapsto> 0], sys_nextAddress = 1, sys_nextGeneration = 1, sys_asyncFailed = 0,
     sys_stopping = False, sys_remote = False, sys_node = ''''\<rparr>"

definition reg_running :: "unit System" where
  "reg_running = reg_reserved\<lparr>sys_services :=
     [(reg_service 0)\<lparr>svc_runtime := True, svc_state := serviceRunning\<rparr>]\<rparr>"

definition reg_stopping :: "unit System" where
  "reg_stopping = reg_reserved\<lparr>sys_services :=
     [(reg_service 0)\<lparr>svc_cancelled := True, svc_finalizer := Launched False\<rparr>]\<rparr>"

definition reg_gone :: "unit System" where
  "reg_gone = reg_reserved\<lparr>sys_byName := Map.empty, sys_byAddress := Map.empty, sys_services :=
     [(reg_service 0)\<lparr>svc_cancelled := True, svc_finalizer := Launched False,
        svc_state := serviceStopped, svc_finalized := True\<rparr>]\<rparr>"

definition reg_again :: "unit System" where
  "reg_again = reg_gone\<lparr>sys_services := sys_services reg_gone @ [reg_service 1],
     sys_byName := [''a'' \<mapsto> 1], sys_byAddress := [2 \<mapsto> 1], sys_nextAddress := 2,
     sys_nextGeneration := 2\<rparr>"

lemmas reg_defs = reg_reserved_def reg_running_def reg_stopping_def reg_gone_def reg_again_def reg_service_def

subsection \<open>Histories of a registry\<close>

text \<open>
  One registry operation by any goroutine.  A reservation may have passed its
  guard at any earlier time, so only the locked part appears.
\<close>

inductive sys_step :: "'v System \<Rightarrow> 'v System \<Rightarrow> bool" where
  reserve: "name \<noteq> '''' \<Longrightarrow> Reserve_locked name opts sys = Inr (p, r, sys') \<Longrightarrow> sys_step sys sys'"
| handle: "p < length (sys_services sys) \<Longrightarrow> handle p protocol codec fn descriptor sys = Inr sys' \<Longrightarrow>
    sys_step sys sys'"
| start: "p < length (sys_services sys) \<Longrightarrow> Start p sys = Inr sys' \<Longrightarrow> sys_step sys sys'"
| stop: "p < length (sys_services sys) \<Longrightarrow> sys_step sys (Stop p sys)"
| runtime_exit: "p < length (sys_services sys) \<Longrightarrow> sys_step sys (runtimeExit p sys)"
| finalize: "p < length (sys_services sys) \<Longrightarrow> finalize p sys = Some sys' \<Longrightarrow> sys_step sys sys'"
| system_stop: "System_Stop sys = (ps, sys') \<Longrightarrow> sys_step sys sys'"
| report: "ReportAsyncError failure sys = (reported, sys') \<Longrightarrow> sys_step sys sys'"
| attach: "AttachRemoteTransport node transport sys = Inr sys' \<Longrightarrow> sys_step sys sys'"

abbreviation sys_steps :: "'v System \<Rightarrow> 'v System \<Rightarrow> bool" where
  "sys_steps \<equiv> sys_step\<^sup>*\<^sup>*"

subsection \<open>The registry invariant\<close>

text \<open>
  Addresses and generations are never reused, and the two maps list exactly the
  services that have not been finalized, under their own name and address.
\<close>

definition sys_inv :: "'v System \<Rightarrow> bool" where
  "sys_inv sys \<longleftrightarrow>
     (let n = length (sys_services sys) in
      sys_nextAddress sys = n \<and> sys_nextGeneration sys = n
      \<and> (\<forall>p < n. svc_ref (svcAt sys p) = \<lparr>ref_Address = Suc p, ref_Generation = Suc p,
            ref_system = Some (sys_id sys), ref_remote = None\<rparr>)
      \<and> (\<forall>p < n. svc_name (svcAt sys p) \<noteq> '''')
      \<and> (\<forall>nm p. sys_byName sys nm = Some p \<longleftrightarrow>
            p < n \<and> svc_name (svcAt sys p) = nm \<and> \<not> svc_finalized (svcAt sys p))
      \<and> (\<forall>a p. sys_byAddress sys a = Some p \<longleftrightarrow>
            p < n \<and> a = Suc p \<and> \<not> svc_finalized (svcAt sys p))
      \<and> (\<forall>p < n. svc_finalized (svcAt sys p) \<longleftrightarrow> svc_state (svcAt sys p) = serviceStopped)
      \<and> (\<forall>p < n. svc_state (svcAt sys p) = serviceRunning \<longrightarrow> svc_runtime (svcAt sys p)))"

lemma sys_inv_NewSystem: "sys_inv (NewSystem i)"
  by (simp add: sys_inv_def NewSystem_def)

lemma updSvc_frame [simp]:
  "sys_id (updSvc p f sys) = sys_id sys" "sys_byName (updSvc p f sys) = sys_byName sys"
  "sys_byAddress (updSvc p f sys) = sys_byAddress sys"
  "sys_nextAddress (updSvc p f sys) = sys_nextAddress sys"
  "sys_nextGeneration (updSvc p f sys) = sys_nextGeneration sys"
  "length (sys_services (updSvc p f sys)) = length (sys_services sys)"
  by (simp_all add: updSvc_def)

lemma svcAt_updSvc:
  "q < length (sys_services sys) \<Longrightarrow>
     svcAt (updSvc p f sys) q = (if p = q then f (svcAt sys q) else svcAt sys q)"
  by (auto simp: updSvc_def nth_update_at)

text \<open>An update of one service that keeps what the maps depend on keeps the invariant.\<close>

lemma sys_inv_updSvc:
  assumes "sys_inv sys" and "p < length (sys_services sys)"
    and "svc_ref (f (svcAt sys p)) = svc_ref (svcAt sys p)"
    and "svc_name (f (svcAt sys p)) = svc_name (svcAt sys p)"
    and "svc_finalized (f (svcAt sys p)) = svc_finalized (svcAt sys p)"
    and "svc_state (f (svcAt sys p)) = serviceStopped \<longleftrightarrow> svc_state (svcAt sys p) = serviceStopped"
    and "svc_state (f (svcAt sys p)) = serviceRunning \<Longrightarrow> svc_runtime (f (svcAt sys p))"
  shows "sys_inv (updSvc p f sys)"
  using assms by (auto simp: sys_inv_def Let_def svcAt_updSvc split: if_splits)

lemma sys_inv_flags [simp]:
  "sys_inv (sys\<lparr>sys_stopping := b\<rparr>) = sys_inv sys"
  "sys_inv (sys\<lparr>sys_asyncFailed := k\<rparr>) = sys_inv sys"
  "sys_inv (sys\<lparr>sys_node := nm, sys_remote := c\<rparr>) = sys_inv sys"
  by (simp_all add: sys_inv_def)

lemma Reserve_locked_inv:
  assumes "sys_inv sys" and "name \<noteq> ''''" and "Reserve_locked name opts sys = Inr (p, r, sys')"
  shows "sys_inv sys'"
proof -
  have free: "sys_byName sys name = None"
    using assms(3) by (auto simp: Reserve_locked_def Let_def split: option.splits)
  then have unused: "\<forall>q < length (sys_services sys).
      svc_name (svcAt sys q) = name \<longrightarrow> svc_finalized (svcAt sys q)"
    using assms(1) by (auto simp: sys_inv_def Let_def) (metis option.distinct(1))
  from assms free unused show ?thesis
    by (auto simp: sys_inv_def Reserve_locked_def Let_def nth_append less_Suc_eq split: if_splits)
qed

lemma beginFinalize_frame [simp]:
  "svc_ref (beginFinalize b s) = svc_ref s" "svc_name (beginFinalize b s) = svc_name s"
  "svc_finalized (beginFinalize b s) = svc_finalized s" "svc_state (beginFinalize b s) = svc_state s"
  "svc_runtime (beginFinalize b s) = svc_runtime s" "svc_opts (beginFinalize b s) = svc_opts s"
  by (simp_all add: beginFinalize_def split: finalizer.splits)

lemma Stop_inv: "sys_inv sys \<Longrightarrow> p < length (sys_services sys) \<Longrightarrow> sys_inv (Stop p sys)"
  unfolding Stop_def
  by (rule sys_inv_updSvc) (auto split: serviceState.splits simp: sys_inv_def Let_def)

lemma finalize_inv:
  assumes "sys_inv sys" and "p < length (sys_services sys)" and "finalize p sys = Some sys'"
  shows "sys_inv sys'"
proof -
  have live: "\<not> svc_finalized (svcAt sys p)"
    using assms(3) by (auto simp: finalize_def split: finalizer.splits if_splits)
  have nm: "sys_byName sys (svc_name (svcAt sys p)) = Some p"
    and ad: "sys_byAddress sys (Suc p) = Some p"
    and rf: "ref_Address (svc_ref (svcAt sys p)) = Suc p"
    using assms(1,2) live by (auto simp: sys_inv_def Let_def)
  have uniq: "\<forall>q < length (sys_services sys). svc_name (svcAt sys q) = svc_name (svcAt sys p)
      \<longrightarrow> \<not> svc_finalized (svcAt sys q) \<longrightarrow> q = p"
    using assms(1) nm by (auto simp: sys_inv_def Let_def) (metis option.inject)
  have "sys' = updSvc p (\<lambda>s. s\<lparr>svc_state := serviceStopped, svc_finalized := True\<rparr>)
      (sys\<lparr>sys_byName := (sys_byName sys)(svc_name (svcAt sys p) := None),
           sys_byAddress := (sys_byAddress sys)(Suc p := None)\<rparr>)"
    using assms(3) nm ad rf
    by (auto simp: finalize_def unpublish_def Let_def split: finalizer.splits if_splits)
  with assms(1,2) uniq show ?thesis
    by (auto simp: sys_inv_def Let_def svcAt_updSvc split: if_splits)
qed

lemma sys_step_inv: "sys_step sys sys' \<Longrightarrow> sys_inv sys \<Longrightarrow> sys_inv sys'"
proof (induction rule: sys_step.induct)
  case (handle p sys protocol codec fn descriptor sys')
  then show ?case
    by (auto simp: handle_def split: option.splits if_splits intro!: sys_inv_updSvc)
next
  case (start p sys sys')
  then show ?case
    by (auto simp: Start_def split: if_splits intro!: sys_inv_updSvc)
next
  case (runtime_exit p sys)
  then show ?case
    by (auto simp: runtimeExit_def intro!: sys_inv_updSvc)
qed (auto simp: System_Stop_def ReportAsyncError_def AttachRemoteTransport_def Let_def
    split: if_splits intro: Reserve_locked_inv Stop_inv finalize_inv)

lemma sys_steps_inv: "sys_steps sys sys' \<Longrightarrow> sys_inv sys \<Longrightarrow> sys_inv sys'"
  by (induction rule: rtranclp_induct) (auto intro: sys_step_inv)

subsection \<open>What a registry never changes\<close>

text \<open>
  Later states keep every service they had: its reference, name and options stay, a
  finalized service stays finalized, and handlers are fixed once it left the reserved
  state.
\<close>

definition sys_extends :: "'v System \<Rightarrow> 'v System \<Rightarrow> bool" where
  "sys_extends sys sys' \<longleftrightarrow> sys_id sys' = sys_id sys \<and> length (sys_services sys) \<le> length (sys_services sys')
     \<and> (\<forall>p < length (sys_services sys).
          svc_ref (svcAt sys' p) = svc_ref (svcAt sys p) \<and> svc_name (svcAt sys' p) = svc_name (svcAt sys p)
          \<and> svc_opts (svcAt sys' p) = svc_opts (svcAt sys p)
          \<and> (svc_finalized (svcAt sys p) \<longrightarrow> svc_finalized (svcAt sys' p))
          \<and> (svc_state (svcAt sys p) \<noteq> serviceReserved \<longrightarrow>
               svc_state (svcAt sys' p) \<noteq> serviceReserved
               \<and> svc_handlers (svcAt sys' p) = svc_handlers (svcAt sys p)))"

lemma sys_extends_refl: "sys_extends sys sys"
  by (simp add: sys_extends_def)

lemma sys_extends_trans: "sys_extends a b \<Longrightarrow> sys_extends b c \<Longrightarrow> sys_extends a c"
  unfolding sys_extends_def by simp

lemma sys_extends_updSvc:
  assumes "\<And>s. s = svcAt sys p \<Longrightarrow> svc_ref (f s) = svc_ref s \<and> svc_name (f s) = svc_name s
      \<and> svc_opts (f s) = svc_opts s \<and> (svc_finalized s \<longrightarrow> svc_finalized (f s))
      \<and> (svc_state s \<noteq> serviceReserved \<longrightarrow> svc_state (f s) \<noteq> serviceReserved \<and> svc_handlers (f s) = svc_handlers s)"
  shows "sys_extends sys (updSvc p f sys)"
  using assms by (auto simp: sys_extends_def svcAt_updSvc)

lemma beginFinalize_handlers [simp]: "svc_handlers (beginFinalize b s) = svc_handlers s"
  by (simp add: beginFinalize_def split: finalizer.splits)

lemma sys_step_extends: "sys_step sys sys' \<Longrightarrow> sys_extends sys sys'"
proof (induction rule: sys_step.induct)
  case (reserve name opts sys p r sys')
  then show ?case
    by (auto simp: Reserve_locked_def Let_def sys_extends_def nth_append split: option.splits)
next
  case (handle p sys protocol codec fn descriptor sys')
  then show ?case
    by (auto simp: handle_def split: option.splits if_splits intro!: sys_extends_updSvc)
next
  case (start p sys sys')
  then show ?case
    by (auto simp: Start_def split: if_splits intro!: sys_extends_updSvc)
next
  case (stop p sys)
  show ?case
    unfolding Stop_def by (rule sys_extends_updSvc) (auto split: serviceState.splits)
next
  case (runtime_exit p sys)
  show ?case
    unfolding runtimeExit_def by (auto intro!: sys_extends_updSvc sys_extends_refl)
next
  case (finalize p sys sys')
  have same: "sys_services (unpublish p sys) = sys_services sys" "sys_id (unpublish p sys) = sys_id sys"
    by (simp_all add: unpublish_def Let_def)
  have "sys_extends sys (unpublish p sys)" by (simp add: sys_extends_def same)
  moreover have "sys' = updSvc p (\<lambda>s. s\<lparr>svc_state := serviceStopped, svc_finalized := True\<rparr>) (unpublish p sys)"
    using finalize by (auto simp: finalize_def split: finalizer.splits if_splits)
  moreover have "sys_extends (unpublish p sys) (updSvc p (\<lambda>s. s\<lparr>svc_state := serviceStopped,
      svc_finalized := True\<rparr>) (unpublish p sys))"
    by (rule sys_extends_updSvc) simp
  ultimately show ?case using sys_extends_trans by blast
qed (auto simp: System_Stop_def ReportAsyncError_def AttachRemoteTransport_def Let_def sys_extends_def
    split: if_splits)

lemma sys_steps_extends: "sys_steps sys sys' \<Longrightarrow> sys_extends sys sys'"
  by (induction rule: rtranclp_induct)
    (rule sys_extends_refl, erule sys_extends_trans, erule sys_step_extends)

lemma sys_invD:
  assumes "sys_inv sys" and "p < length (sys_services sys)"
  shows "svc_ref (svcAt sys p) = \<lparr>ref_Address = Suc p, ref_Generation = Suc p,
            ref_system = Some (sys_id sys), ref_remote = None\<rparr>"
    "sys_byAddress sys (Suc p) = (if svc_finalized (svcAt sys p) then None else Some p)"
proof -
  show "svc_ref (svcAt sys p) = \<lparr>ref_Address = Suc p, ref_Generation = Suc p,
            ref_system = Some (sys_id sys), ref_remote = None\<rparr>"
    using assms unfolding sys_inv_def Let_def by blast
  have addr: "sys_byAddress sys (Suc p) = Some q \<longleftrightarrow>
      q < length (sys_services sys) \<and> Suc p = Suc q \<and> \<not> svc_finalized (svcAt sys q)" for q
    using assms(1) unfolding sys_inv_def Let_def by blast
  show "sys_byAddress sys (Suc p) = (if svc_finalized (svcAt sys p) then None else Some p)"
    using addr [of p] addr [of "the (sys_byAddress sys (Suc p))"] assms(2)
    by (cases "sys_byAddress sys (Suc p)") (simp_all split: if_splits)
qed

lemma service_iff:
  assumes "sys_inv sys" and "p < length (sys_services sys)"
  shows "service (svc_ref (svcAt sys p)) sys =
     (if svc_finalized (svcAt sys p) then Inl ErrStaleRef
      else case svc_state (svcAt sys p) of serviceRunning \<Rightarrow> Inr p
           | serviceReserved \<Rightarrow> Inl ErrServiceNotReady | _ \<Rightarrow> Inl ErrServiceStopping)"
  using sys_invD [OF assms] by (simp add: service_def ref_valid_def)

lemma reg_step:
  "sys_step (NewSystem 0) reg_reserved" "sys_step reg_reserved reg_running"
  "sys_step reg_reserved reg_stopping" "sys_step reg_stopping reg_gone" "sys_step reg_gone reg_again"
proof -
  show "sys_step (NewSystem 0) reg_reserved"
    by (rule sys_step.reserve [of "''a''" reg_opts _ 0 "svc_ref (reg_service 0)"])
      (simp_all add: NewSystem_def Reserve_locked_def reg_defs Let_def)
  show "sys_step reg_reserved reg_running"
    by (rule sys_step.start [of 0]) (simp_all add: Start_def updSvc_def reg_defs)
  have "Stop 0 reg_reserved = reg_stopping"
    by (simp add: Stop_def updSvc_def beginFinalize_def reg_defs)
  moreover have "sys_step reg_reserved (Stop 0 reg_reserved)"
    by (rule sys_step.stop) (simp add: reg_defs)
  ultimately show "sys_step reg_reserved reg_stopping" by simp
  show "sys_step reg_stopping reg_gone"
    by (rule sys_step.finalize [of 0])
      (simp_all add: finalize_def unpublish_def updSvc_def reg_defs Let_def)
  show "sys_step reg_gone reg_again"
    by (rule sys_step.reserve [of "''a''" reg_opts _ 1 "svc_ref (reg_service 1)"])
      (simp_all add: Reserve_locked_def reg_defs Let_def numeral_2_eq_2)
qed

lemma reg_steps:
  "sys_steps (NewSystem 0) reg_running" "sys_steps (NewSystem 0) reg_gone" "sys_steps reg_gone reg_again"
  using reg_step by (meson converse_rtranclp_into_rtranclp rtranclp.rtrancl_refl)+

subsection \<open>The theorems\<close>

text \<open>
  C16: a reference to a finalized service is stale for ever.  Whatever happens in the
  registry afterwards, including reserving and starting a service under the same name, the
  old reference never reaches a service again.
\<close>

theorem stale_reference_forever:
  assumes "sys_steps (NewSystem i) sys" and "p < length (sys_services sys)"
    and "svc_finalized (svcAt sys p)" and "sys_steps sys sys'"
  shows "service (svc_ref (svcAt sys p)) sys' = Inl ErrStaleRef"
proof -
  have inv: "sys_inv sys'"
    using sys_steps_inv [OF assms(4) sys_steps_inv [OF assms(1) sys_inv_NewSystem]] .
  from sys_steps_extends [OF assms(4)] assms(2,3) have
    "svc_ref (svcAt sys' p) = svc_ref (svcAt sys p)" "svc_finalized (svcAt sys' p)"
    "p < length (sys_services sys')" by (auto simp: sys_extends_def)
  with service_iff [OF inv this(3)] show ?thesis by simp
qed

theorem stale_reference_forever_witness:
  "svc_name (svcAt reg_again 1) = svc_name (svcAt reg_gone 0)
   \<and> service (svc_ref (svcAt reg_gone 0)) reg_again = Inl ErrStaleRef"
proof -
  have "service (svc_ref (svcAt reg_gone 0)) reg_again = Inl ErrStaleRef"
    by (rule stale_reference_forever [OF reg_steps(2) _ _ reg_steps(3)]) (simp_all add: reg_defs)
  then show ?thesis by (simp add: reg_defs)
qed

text \<open>
  Name resolution and reference lookup agree.  A reference that \<open>Resolve\<close> returns is
  accepted by \<open>service\<close> and leads to the running service registered under that name; the
  name of a service that has not been finalized belongs to it alone.
\<close>

theorem resolve_agrees_with_service:
  assumes "sys_steps (NewSystem i) sys" and "Resolve name sys = Inr r"
  shows "\<exists>p < length (sys_services sys). service r sys = Inr p \<and> svc_ref (svcAt sys p) = r
    \<and> svc_name (svcAt sys p) = name \<and> svc_state (svcAt sys p) = serviceRunning
    \<and> (\<forall>q < length (sys_services sys). svc_name (svcAt sys q) = name \<and> \<not> svc_finalized (svcAt sys q) \<longrightarrow> q = p)"
proof -
  have inv: "sys_inv sys" using sys_steps_inv [OF assms(1) sys_inv_NewSystem] .
  from assms(2) obtain p where p: "sys_byName sys name = Some p"
    "svc_state (svcAt sys p) = serviceRunning" "r = svc_ref (svcAt sys p)"
    by (auto simp: Resolve_def split: option.splits if_splits)
  from inv have names: "\<forall>q. sys_byName sys name = Some q \<longleftrightarrow>
      q < length (sys_services sys) \<and> svc_name (svcAt sys q) = name \<and> \<not> svc_finalized (svcAt sys q)"
    unfolding sys_inv_def Let_def by blast
  with p(1) have lt: "p < length (sys_services sys)" "svc_name (svcAt sys p) = name"
    "\<not> svc_finalized (svcAt sys p)" by blast+
  have only: "\<forall>q < length (sys_services sys). svc_name (svcAt sys q) = name \<and> \<not> svc_finalized (svcAt sys q) \<longrightarrow> q = p"
    using names p(1) by (metis option.inject)
  have "service r sys = Inr p" using service_iff [OF inv lt(1)] lt(3) p(2,3) by simp
  with only lt(1,2) p(2,3) show ?thesis by blast
qed

theorem resolve_agrees_with_service_witness:
  "\<exists>p. service \<lparr>ref_Address = 1, ref_Generation = 1, ref_system = Some 0, ref_remote = None\<rparr> reg_running
      = Inr p \<and> svc_name (svcAt reg_running p) = ''a''"
proof -
  have "Resolve ''a'' reg_running =
      Inr \<lparr>ref_Address = 1, ref_Generation = 1, ref_system = Some 0, ref_remote = None\<rparr>"
    by (simp add: Resolve_def reg_defs)
  from resolve_agrees_with_service [OF reg_steps(1) this] show ?thesis by blast
qed

text \<open>
  Handlers are immutable after start.  Once a service has left the reserved state
  its handler table never changes again, and \<open>handle\<close> refuses further registrations.
\<close>

theorem handlers_immutable_after_start:
  assumes "sys_steps sys sys'" and "p < length (sys_services sys)"
    and "svc_state (svcAt sys p) \<noteq> serviceReserved"
  shows "svc_handlers (svcAt sys' p) = svc_handlers (svcAt sys p)
    \<and> (\<forall>protocol codec fn d. \<exists>e. handle p protocol codec fn d sys' = Inl e)"
proof -
  have same: "svc_state (svcAt sys' p) \<noteq> serviceReserved" "svc_handlers (svcAt sys' p) = svc_handlers (svcAt sys p)"
    using sys_steps_extends [OF assms(1)] assms(2,3) by (simp_all add: sys_extends_def)
  have "\<exists>e. handle p protocol codec fn d sys' = Inl e" for protocol codec fn d
    using same(1) by (cases codec) (simp_all add: handle_def)
  with same(2) show ?thesis by blast
qed

theorem handlers_immutable_after_start_witness:
  "svc_handlers (svcAt (Stop 0 reg_running) 0) = svc_handlers (svcAt reg_running 0)
    \<and> (\<forall>protocol codec fn d. \<exists>e. handle 0 protocol codec fn d (Stop 0 reg_running) = Inl e)"
proof (rule handlers_immutable_after_start)
  have "sys_step reg_running (Stop 0 reg_running)" by (rule sys_step.stop) (simp add: reg_defs)
  then show "sys_steps reg_running (Stop 0 reg_running)" by simp
qed (simp_all add: reg_defs)

text \<open>
  \<open>Stop\<close> does not prevent a later \<open>Start\<close> of a reserved service.  Stopping a service
  that was never started leaves its state reserved until the finalizer has run, so that
  \<open>Start\<close> in between succeeds and publishes a running service whose context is already
  cancelled; the finalizer may then remove it without waiting for its runtime.
\<close>

theorem stop_then_start_succeeds:
  assumes "svc_state (svcAt sys p) = serviceReserved" and "p < length (sys_services sys)"
    and "svc_finalizer (svcAt sys p) = NotLaunched" and "\<not> svc_finalized (svcAt sys p)"
  shows "\<exists>sys1 sys2. Start p (Stop p sys) = Inr sys1 \<and> svc_state (svcAt sys1 p) = serviceRunning
    \<and> svc_cancelled (svcAt sys1 p) \<and> svc_runtimeDone (svcAt sys1 p) = svc_runtimeDone (svcAt sys p)
    \<and> finalize p sys1 = Some sys2"
  using assms by (auto simp: Start_def Stop_def svcAt_updSvc beginFinalize_def finalize_def)

theorem stop_then_start_succeeds_witness:
  "\<exists>sys1 sys2. Start 0 (Stop 0 reg_reserved) = Inr sys1 \<and> svc_state (svcAt sys1 0) = serviceRunning
    \<and> svc_cancelled (svcAt sys1 0) \<and> svc_runtimeDone (svcAt sys1 0) = svc_runtimeDone (svcAt reg_reserved 0)
    \<and> finalize 0 sys1 = Some sys2"
  by (rule stop_then_start_succeeds) (simp_all add: reg_defs)

text \<open>
  \<open>System.Stop\<close> can miss a service.  A reservation that passed its check before the
  stop flag was raised still succeeds afterwards, and the service is not among those that
  \<open>System.Stop\<close> has collected.
\<close>

theorem system_stop_misses_reservation:
  assumes "sys_steps (NewSystem i) sys" and "Reserve_check name sys = Inr ()" and "sys_byName sys name = None"
    and "System_Stop sys = (stopped, sys1)"
  shows "\<exists>p r sys2. Reserve_locked name opts sys1 = Inr (p, r, sys2) \<and> sys_stopping sys2
    \<and> sys_byAddress sys2 (ref_Address r) = Some p \<and> p \<notin> set stopped"
proof -
  have inv: "sys_inv sys" using sys_steps_inv [OF assms(1) sys_inv_NewSystem] .
  then have "\<forall>a p. sys_byAddress sys a = Some p \<longrightarrow> p < length (sys_services sys)"
    unfolding sys_inv_def Let_def by blast
  then have "\<forall>p \<in> set stopped. p < length (sys_services sys)"
    using assms(4) by (auto simp: System_Stop_def List.map_filter_def)
  with assms(3,4) show ?thesis
    by (auto simp: System_Stop_def Reserve_locked_def Let_def)
qed

theorem system_stop_misses_reservation_witness:
  "\<exists>p r sys2. Reserve_locked ''a'' reg_opts (snd (System_Stop (NewSystem 0 :: unit System))) = Inr (p, r, sys2)
    \<and> sys_stopping sys2 \<and> sys_byAddress sys2 (ref_Address r) = Some p
    \<and> p \<notin> set (fst (System_Stop (NewSystem 0 :: unit System)))"
  by (rule system_stop_misses_reservation [where i = 0 and sys = "NewSystem 0"])
    (simp_all add: NewSystem_def Reserve_check_def)

end
