(* ===== verification/Actor_Runtime.thy ===== *)
theory Actor_Runtime
  imports Actor_System
begin

text \<open>
  The per-service scheduler of \<open>actor/system_runtime.go\<close>: the goroutine \<open>run\<close> that
  owns the mailbox, and the handler goroutines it grants turns to.  The loop's
  local variables are the fields of \<open>serviceRuntime\<close> here; one call of \<open>run_step\<close>
  is one iteration from its \<open>select\<close> to the next.  The events channel is
  unbuffered, so that an emit and its handling are one step.
\<close>

subsection \<open>State\<close>

datatype 'v runtimeEvent =
    eventEnqueue "'v serviceEnvelope"
  | eventYield nat string
  | eventResume nat
  | eventDone nat

text \<open>What the loop's \<open>select\<close> receives.\<close>

datatype 'v loop_input = InServiceDone | InEvent "'v runtimeEvent"

text \<open>What the loop sends on the \<open>accepted\<close> channel of an event.\<close>

datatype accepted = NoReply | Accepted | Rejected go_error

text \<open>
  \<open>rt_acts\<close> is the heap of activations and \<open>rt_next\<close> its first free pointer;
  \<open>rt_slots\<close> counts the tokens in the slots channel; \<open>rt_serviceDone\<close> says that the
  local variable still holds the service's done channel; \<open>rt_blocked\<close> records a
  channel operation of the loop that could not proceed.  \<open>rt_sessions\<close>,
  \<open>rt_drain\<close> and \<open>rt_reports\<close> are the parts of the owning system the runtime
  changes.  The last two fields are histories for the proofs: the activations in
  the order of their grants (latest first), and the activations that were answered:
  \<open>deliver\<close> adds the one whose result it hands to the waiting session, \<open>settled\<close> the
  one that ends with nobody waiting for it.
\<close>

record 'v serviceRuntime =
  rt_info :: service_info
  rt_opts :: ServiceOptions
  rt_acts :: "nat \<Rightarrow> 'v serviceActivation"
  rt_next :: nat
  rt_slots :: nat
  rt_done :: bool
  rt_current :: "nat option"
  rt_ready :: "nat list"
  rt_suspended :: "nat set"
  rt_segmentSeq :: nat
  rt_stopping :: bool
  rt_serviceDone :: bool
  rt_blocked :: bool
  rt_sessions :: "'v sessionTable"
  rt_drain :: "drainTracker option"
  rt_reports :: "AsyncError list"
  rt_grants :: "nat list"
  rt_answered :: "nat list"

text \<open>
  \<open>newServiceRuntime\<close> and the locals \<open>run\<close> starts with.  The heap is arbitrary: no
  pointer into it has been handed out.
\<close>

definition newServiceRuntime ::
  "service_info \<Rightarrow> ServiceOptions \<Rightarrow> (nat \<Rightarrow> 'v serviceActivation) \<Rightarrow> 'v sessionTable \<Rightarrow>
     drainTracker option \<Rightarrow> 'v serviceRuntime" where
  "newServiceRuntime info opts heap sessions drain =
     \<lparr>rt_info = info, rt_opts = opts, rt_acts = heap, rt_next = 0, rt_slots = 0, rt_done = False,
      rt_current = None, rt_ready = [], rt_suspended = {}, rt_segmentSeq = 0, rt_stopping = False,
      rt_serviceDone = True, rt_blocked = False, rt_sessions = sessions, rt_drain = drain,
      rt_reports = [], rt_grants = [], rt_answered = []\<rparr>"

definition updAct ::
  "nat \<Rightarrow> ('v serviceActivation \<Rightarrow> 'v serviceActivation) \<Rightarrow> 'v serviceRuntime \<Rightarrow> 'v serviceRuntime" where
  "updAct a f rt = rt\<lparr>rt_acts := (rt_acts rt)(a := f (rt_acts rt a))\<rparr>"

subsection \<open>The scheduler loop\<close>

text \<open>
  The receive \<open><-rt.slots\<close> with the flag reset that accompanies it everywhere.
\<close>

definition releaseSlot :: "nat \<Rightarrow> 'v serviceRuntime \<Rightarrow> 'v serviceRuntime" where
  "releaseSlot a rt =
     (if env_slotHeld (act_envelope (rt_acts rt a))
      then (let rt = (case rt_slots rt of 0 \<Rightarrow> rt\<lparr>rt_blocked := True\<rparr> | Suc n \<Rightarrow> rt\<lparr>rt_slots := n\<rparr>)
            in updAct a (\<lambda>act. act\<lparr>act_envelope := (act_envelope act)\<lparr>env_slotHeld := False\<rparr>\<rparr>) rt)
      else rt)"

text \<open>\<open>finishTracked\<close> on a heap activation.\<close>

definition finishTrackedAct :: "nat \<Rightarrow> bool \<Rightarrow> 'v serviceRuntime \<Rightarrow> 'v serviceRuntime" where
  "finishTrackedAct a failed rt =
     (let act = rt_acts rt a;
          (drain, env, act') = finishTracked (rt_drain rt) (act_envelope act) (Some act) failed
      in updAct a (\<lambda>_. (case act' of Some x \<Rightarrow> x | None \<Rightarrow> act)\<lparr>act_envelope := env\<rparr>)
           (rt\<lparr>rt_drain := drain\<rparr>))"

definition deliver :: "nat \<Rightarrow> 'v callResult \<Rightarrow> 'v serviceRuntime \<Rightarrow> 'v serviceRuntime" where
  "deliver a r rt = rt\<lparr>rt_sessions := snd (completeSession
     (env_session (act_envelope (rt_acts rt a))) r (rt_sessions rt)),
     rt_answered := a # rt_answered rt\<rparr>"

definition settled :: "nat \<Rightarrow> 'v serviceRuntime \<Rightarrow> 'v serviceRuntime" where
  "settled a rt = rt\<lparr>rt_answered := a # rt_answered rt\<rparr>"

definition finishPending :: "nat \<Rightarrow> go_error \<Rightarrow> 'v serviceRuntime \<Rightarrow> 'v serviceRuntime" where
  "finishPending a err rt =
     (let rt = finishTrackedAct a True rt;
          rt = releaseSlot a rt
      in if env_expectsResponse (act_envelope (rt_acts rt a))
         then deliver a (errResult err) rt else settled a rt)"

text \<open>The send \<open>act.grant <- struct{}{}\<close> on a channel of capacity one.\<close>

definition sendGrant :: "nat \<Rightarrow> 'v serviceRuntime \<Rightarrow> 'v serviceRuntime" where
  "sendGrant a rt =
     (if act_grant (rt_acts rt a) \<ge> 1 then rt\<lparr>rt_blocked := True\<rparr>
      else updAct a (\<lambda>act. act\<lparr>act_grant := act_grant act + 1\<rparr>) rt)\<lparr>rt_grants := a # rt_grants rt\<rparr>"

definition schedule :: "'v serviceRuntime \<Rightarrow> 'v serviceRuntime" where
  "schedule rt =
     (if rt_current rt \<noteq> None then rt
      else case rt_ready rt of
        [] \<Rightarrow> rt
      | a # rest \<Rightarrow>
          let rt = rt\<lparr>rt_ready := rest\<rparr>
          in if rt_stopping rt \<and> \<not> act_started (rt_acts rt a)
             then finishPending a ErrServiceStopping rt
             else
               let rt = releaseSlot a rt;
                   rt = (if act_started (rt_acts rt a)
                            \<and> rt_segmentSeq rt > act_yieldAtSegment (rt_acts rt a)
                         then updAct a (\<lambda>act. act\<lparr>act_interleaveVersion :=
                                act_interleaveVersion act + 1\<rparr>) rt
                         else rt);
                   rt = rt\<lparr>rt_segmentSeq := rt_segmentSeq rt + 1, rt_current := Some a\<rparr>;
                   rt = updAct a (\<lambda>act. act\<lparr>act_started := True\<rparr>) rt
               in sendGrant a rt)"

text \<open>The case \<open><-serviceDone\<close>: refuse what has not started, keep the rest.\<close>

definition refuseUnstarted :: "'v serviceRuntime \<Rightarrow> 'v serviceRuntime" where
  "refuseUnstarted rt =
     fold (\<lambda>a rt. if act_started (rt_acts rt a) then rt else finishPending a ErrServiceStopping rt)
       (rt_ready rt) rt"

definition handleServiceDone :: "'v serviceRuntime \<Rightarrow> 'v serviceRuntime" where
  "handleServiceDone rt =
     (let rt = rt\<lparr>rt_stopping := True, rt_serviceDone := False\<rparr>;
          rt = refuseUnstarted rt
      in rt\<lparr>rt_ready := filter (\<lambda>a. act_started (rt_acts rt a)) (rt_ready rt)\<rparr>)"

text \<open>The two composite literals that make an activation for an enqueued envelope.\<close>

definition newActivation :: "service_info option \<Rightarrow> 'v serviceEnvelope \<Rightarrow> 'v serviceActivation" where
  "newActivation owner env = \<lparr>act_maintenanceFinished = False, act_owner = owner,
     act_envelope = env, act_grant = 0, act_started = False, act_yieldAtSegment = 0,
     act_interleaveVersion = 0, act_noYield = 0, act_label = ''''\<rparr>"

definition alloc :: "'v serviceActivation \<Rightarrow> 'v serviceRuntime \<Rightarrow> nat \<times> 'v serviceRuntime" where
  "alloc act rt = (rt_next rt,
     rt\<lparr>rt_acts := (rt_acts rt)(rt_next rt := act), rt_next := Suc (rt_next rt)\<rparr>)"

definition handleEnqueue :: "'v serviceEnvelope \<Rightarrow> 'v serviceRuntime \<Rightarrow> 'v serviceRuntime" where
  "handleEnqueue env rt =
     (if rt_stopping rt
      then let (a, rt) = alloc (newActivation None env) rt in finishPending a ErrServiceStopping rt
      else let (a, rt) = alloc (newActivation (Some (rt_info rt)) env) rt
           in rt\<lparr>rt_ready := rt_ready rt @ [a]\<rparr>)"

definition handleYield ::
  "nat \<Rightarrow> string \<Rightarrow> 'v serviceRuntime \<Rightarrow> 'v serviceRuntime \<times> accepted" where
  "handleYield a label rt =
     (if NoInterleave (rt_opts rt)
      then (rt, Rejected (Wrap ErrRuntimeInvariant
             (''NoInterleave service '' @ si_name (rt_info rt) @ '' emitted yield'')))
      else if rt_current rt \<noteq> Some a
      then (rt, Rejected (ErrText ''actor: activation is not running''))
      else if int (card (rt_suspended rt)) \<ge> MaxSuspended (rt_opts rt)
      then (rt, Rejected ErrSuspendLimit)
      else (let rt = updAct a (\<lambda>act. act\<lparr>act_label := label,
                       act_yieldAtSegment := rt_segmentSeq rt\<rparr>) rt
            in (rt\<lparr>rt_suspended := insert a (rt_suspended rt), rt_current := None\<rparr>, Accepted)))"

definition handleResume :: "nat \<Rightarrow> 'v serviceRuntime \<Rightarrow> 'v serviceRuntime" where
  "handleResume a rt =
     (if a \<notin> rt_suspended rt then rt
      else rt\<lparr>rt_suspended := rt_suspended rt - {a}, rt_ready := rt_ready rt @ [a]\<rparr>)"

definition handleDone :: "nat \<Rightarrow> 'v serviceRuntime \<Rightarrow> 'v serviceRuntime" where
  "handleDone a rt =
     (let rt = (if rt_current rt = Some a then rt\<lparr>rt_current := None\<rparr> else rt)
      in rt\<lparr>rt_suspended := rt_suspended rt - {a}\<rparr>)"

definition handleInput :: "'v loop_input \<Rightarrow> 'v serviceRuntime \<Rightarrow> 'v serviceRuntime \<times> accepted" where
  "handleInput inp rt =
     (case inp of
        InServiceDone \<Rightarrow> (handleServiceDone rt, NoReply)
      | InEvent (eventEnqueue env) \<Rightarrow> (handleEnqueue env rt, NoReply)
      | InEvent (eventYield a label) \<Rightarrow> handleYield a label rt
      | InEvent (eventResume a) \<Rightarrow> (handleResume a rt, NoReply)
      | InEvent (eventDone a) \<Rightarrow> (handleDone a rt, NoReply))"

text \<open>The top of the loop: return (closing \<open>done\<close>) or schedule.\<close>

definition loopTop :: "'v serviceRuntime \<Rightarrow> 'v serviceRuntime" where
  "loopTop rt =
     (if rt_stopping rt \<and> rt_current rt = None \<and> rt_ready rt = [] \<and> rt_suspended rt = {}
      then rt\<lparr>rt_done := True\<rparr> else schedule rt)"

definition run_step :: "'v loop_input \<Rightarrow> 'v serviceRuntime \<Rightarrow> 'v serviceRuntime \<times> accepted" where
  "run_step inp rt = (let (rt, reply) = handleInput inp rt in (loopTop rt, reply))"

subsection \<open>Handler goroutines\<close>

text \<open>
  The protected body of \<open>execute\<close>: \<open>fn\<close> is what the handler does with the decoded
  arguments; a panic is recovered into an error.
\<close>

definition executeResult :: "'v serviceEnvelope \<Rightarrow> ('v list \<Rightarrow> 'v outcome) \<Rightarrow> 'v callResult" where
  "executeResult env fn =
     (case UnpackRequest (h_codec (env_handler env)) (env_request env) of
        Inl e \<Rightarrow> errResult (Wrap ErrCodec ''request'')
      | Inr args \<Rightarrow>
          (case fn args of
             Panicked s \<Rightarrow> errResult (ErrText (''actor: handler panic: '' @ s))
           | Failed e \<Rightarrow> errResult e
           | Returned v \<Rightarrow>
               if env_expectsResponse env
               then (case PackResponse (h_codec (env_handler env)) v of
                       Inl e \<Rightarrow> errResult (Wrap ErrCodec ''response'')
                     | Inr m \<Rightarrow> \<lparr>res_message = m, res_err = None\<rparr>)
               else \<lparr>res_message = zeroMessage, res_err = None\<rparr>))"

text \<open>The context \<open>execute\<close> gives to the handler; \<open>node\<close> is the system's node name.\<close>

definition executeContext ::
  "string \<Rightarrow> service_info \<Rightarrow> nat \<Rightarrow> 'v serviceEnvelope \<Rightarrow> go_context" where
  "executeContext node info a env =
     handlerContext (WithoutCancel (case env_ctx env of None \<Rightarrow> background | Some c \<Rightarrow> c)) a
       \<lparr>frame_Node = node, frame_Service = si_name info, frame_Protocol = env_protocol env\<rparr>"

text \<open>The tail of \<open>execute\<close> up to the emit of \<open>eventDone\<close>.\<close>

definition execute_finish ::
  "nat \<Rightarrow> ('v list \<Rightarrow> 'v outcome) \<Rightarrow> 'v serviceRuntime \<Rightarrow> 'v serviceRuntime" where
  "execute_finish a fn rt =
     (let env = act_envelope (rt_acts rt a);
          result = executeResult env fn;
          rt = finishTrackedAct a (res_err result \<noteq> None) rt
      in if env_expectsResponse env then deliver a result rt
         else if res_err result \<noteq> None
         then settled a (rt\<lparr>rt_reports := rt_reports rt @
                [\<lparr>ae_Service = si_name (rt_info rt), ae_Protocol = env_protocol env,
                  ae_RemoteNode = '''', ae_Stage = AsyncErrorHandler,
                  ae_Err = res_err result\<rparr>]\<rparr>)
         else settled a rt)"

text \<open>
  The guards of \<open>awaitActivationTyped\<close>: refused in a \<open>NoYield\<close> section, direct in a
  \<open>NoInterleave\<close> service, otherwise through the scheduler.
\<close>

datatype await_plan = AwaitFail go_error | AwaitDirect | AwaitYield

definition awaitActivationTyped :: "'v serviceActivation \<Rightarrow> await_plan" where
  "awaitActivationTyped act =
     (if act_noYield act > 0 then AwaitFail ErrYieldForbidden
      else case act_owner act of
             Some info \<Rightarrow> if si_noInterleave info then AwaitDirect else AwaitYield
           | None \<Rightarrow> AwaitYield)"

definition NoYield_enter :: "nat \<Rightarrow> 'v serviceRuntime \<Rightarrow> 'v serviceRuntime" where
  "NoYield_enter a = updAct a (\<lambda>act. act\<lparr>act_noYield := act_noYield act + 1\<rparr>)"

definition NoYield_exit :: "nat \<Rightarrow> 'v serviceRuntime \<Rightarrow> 'v serviceRuntime" where
  "NoYield_exit a = updAct a (\<lambda>act. act\<lparr>act_noYield := act_noYield act - 1\<rparr>)"

record turnMark =
  tm_activation :: "nat option"
  tm_version :: nat

definition MarkTurn :: "'v serviceRuntime \<Rightarrow> go_context option \<Rightarrow> turnMark" where
  "MarkTurn rt ctx =
     (case activationFromContext ctx of
        None \<Rightarrow> \<lparr>tm_activation = None, tm_version = 0\<rparr>
      | Some a \<Rightarrow> \<lparr>tm_activation = Some a, tm_version = act_interleaveVersion (rt_acts rt a)\<rparr>)"

definition InterleavedSince :: "'v serviceRuntime \<Rightarrow> go_context option \<Rightarrow> turnMark \<Rightarrow> bool" where
  "InterleavedSince rt ctx mark =
     (case activationFromContext ctx of
        None \<Rightarrow> False
      | Some a \<Rightarrow> tm_activation mark = Some a
          \<and> act_interleaveVersion (rt_acts rt a) \<noteq> tm_version mark)"

subsection \<open>A service among its handlers and senders\<close>

text \<open>
  Where a handler goroutine stands: before its first grant, running handler code,
  inside the wait function of an accepted yield, waiting for its turn after it
  emitted a resume, past its result and about to emit \<open>eventDone\<close>, or gone.
\<close>

datatype phase = NotBegun | Running | Waiting | Resuming | Completed | Finished

text \<open>\<open>rw_inflight\<close> holds the envelopes whose sender owns a slot and has not emitted yet.\<close>

record 'v runtime_world =
  rw_rt :: "'v serviceRuntime"
  rw_phase :: "nat \<Rightarrow> phase"
  rw_inflight :: "'v serviceEnvelope list"

definition rw_init :: "'v serviceRuntime \<Rightarrow> 'v runtime_world" where
  "rw_init rt = \<lparr>rw_rt = rt, rw_phase = (\<lambda>_. NotBegun), rw_inflight = []\<rparr>"

abbreviation setPhase :: "nat \<Rightarrow> phase \<Rightarrow> 'v runtime_world \<Rightarrow> 'v runtime_world" where
  "setPhase a ph w \<equiv> w\<lparr>rw_phase := (rw_phase w)(a := ph)\<rparr>"

definition takeGrant :: "nat \<Rightarrow> 'v serviceRuntime \<Rightarrow> 'v serviceRuntime" where
  "takeGrant a = updAct a (\<lambda>act. act\<lparr>act_grant := 0\<rparr>)"

text \<open>
  One step of any goroutine around the service.  A sender takes a slot
  (\<open>admit\<close>, \<open>tryAdmit\<close>) and emits its envelope, or gives the slot back when the
  runtime has returned; a handler takes its grant, yields, resumes, enters and
  leaves \<open>NoYield\<close> sections, and completes; the rest of the system changes the
  session table and the drain tracker.
\<close>

inductive rw_step :: "'v runtime_world \<Rightarrow> 'v runtime_world \<Rightarrow> bool" where
  take_slot: "int (rt_slots (rw_rt w)) < MailboxSize (rt_opts (rw_rt w)) \<Longrightarrow>
    rw_step w (w\<lparr>rw_rt := (rw_rt w)\<lparr>rt_slots := Suc (rt_slots (rw_rt w))\<rparr>,
      rw_inflight := env\<lparr>env_slotHeld := True\<rparr> # rw_inflight w\<rparr>)"
| emit: "\<not> rt_done (rw_rt w) \<Longrightarrow> rw_inflight w = us @ env # vs \<Longrightarrow>
    run_step (InEvent (eventEnqueue env)) (rw_rt w) = (rt', reply) \<Longrightarrow>
    rw_step w (w\<lparr>rw_rt := rt', rw_inflight := us @ vs\<rparr>)"
| give_back: "rt_done (rw_rt w) \<Longrightarrow> rw_inflight w = us @ env # vs \<Longrightarrow>
    rw_step w (w\<lparr>rw_rt := (rw_rt w)\<lparr>rt_slots := rt_slots (rw_rt w) - 1\<rparr>, rw_inflight := us @ vs\<rparr>)"
| service_done: "\<not> rt_done (rw_rt w) \<Longrightarrow> rt_serviceDone (rw_rt w) \<Longrightarrow>
    run_step InServiceDone (rw_rt w) = (rt', reply) \<Longrightarrow> rw_step w (w\<lparr>rw_rt := rt'\<rparr>)"
| first_grant: "act_started (rt_acts (rw_rt w) a) \<Longrightarrow> a < rt_next (rw_rt w) \<Longrightarrow> rw_phase w a = NotBegun \<Longrightarrow>
    act_grant (rt_acts (rw_rt w) a) > 0 \<Longrightarrow>
    rw_step w (setPhase a Running w\<lparr>rw_rt := takeGrant a (rw_rt w)\<rparr>)"
| no_yield: "rw_phase w a = Running \<Longrightarrow> rt' \<in> {NoYield_enter a (rw_rt w), NoYield_exit a (rw_rt w)} \<Longrightarrow>
    rw_step w (w\<lparr>rw_rt := rt'\<rparr>)"
| yield: "rw_phase w a = Running \<Longrightarrow> awaitActivationTyped (rt_acts (rw_rt w) a) = AwaitYield \<Longrightarrow>
    \<not> rt_done (rw_rt w) \<Longrightarrow> run_step (InEvent (eventYield a label)) (rw_rt w) = (rt', Accepted) \<Longrightarrow>
    rw_step w (setPhase a Waiting w\<lparr>rw_rt := rt'\<rparr>)"
| yield_refused: "rw_phase w a = Running \<Longrightarrow> awaitActivationTyped (rt_acts (rw_rt w) a) = AwaitYield \<Longrightarrow>
    \<not> rt_done (rw_rt w) \<Longrightarrow> run_step (InEvent (eventYield a label)) (rw_rt w) = (rt', Rejected e) \<Longrightarrow>
    rw_step w (w\<lparr>rw_rt := rt'\<rparr>)"
| resume: "rw_phase w a = Waiting \<Longrightarrow> \<not> rt_done (rw_rt w) \<Longrightarrow>
    run_step (InEvent (eventResume a)) (rw_rt w) = (rt', reply) \<Longrightarrow>
    rw_step w (setPhase a Resuming w\<lparr>rw_rt := rt'\<rparr>)"
| regain: "rw_phase w a = Resuming \<Longrightarrow> act_grant (rt_acts (rw_rt w) a) > 0 \<Longrightarrow>
    rw_step w (setPhase a Running w\<lparr>rw_rt := takeGrant a (rw_rt w)\<rparr>)"
| abandoned: "rw_phase w a = Waiting \<or> rw_phase w a = Resuming \<Longrightarrow> rt_done (rw_rt w) \<Longrightarrow>
    rw_step w (setPhase a Running w)"
| complete: "rw_phase w a = Running \<Longrightarrow>
    rw_step w (setPhase a Completed w\<lparr>rw_rt := execute_finish a fn (rw_rt w)\<rparr>)"
| finish: "rw_phase w a = Completed \<Longrightarrow> \<not> rt_done (rw_rt w) \<Longrightarrow>
    run_step (InEvent (eventDone a)) (rw_rt w) = (rt', reply) \<Longrightarrow>
    rw_step w (setPhase a Finished w\<lparr>rw_rt := rt'\<rparr>)"
| finish_late: "rw_phase w a = Completed \<Longrightarrow> rt_done (rw_rt w) \<Longrightarrow>
    rw_step w (setPhase a Finished w)"
| elsewhere: "rw_step w (w\<lparr>rw_rt := (rw_rt w)\<lparr>rt_sessions := t, rt_drain := d\<rparr>\<rparr>)"

text \<open>The worlds of a service with options \<open>opts\<close>: it starts idle, then steps.\<close>

definition rw_reachable :: "service_info \<Rightarrow> ServiceOptions \<Rightarrow> 'v runtime_world \<Rightarrow> bool" where
  "rw_reachable info opts w \<longleftrightarrow>
     (\<exists>heap t d. rw_step\<^sup>*\<^sup>* (rw_init (newServiceRuntime info opts heap t d)) w)"

subsection \<open>What the helpers change\<close>

text \<open>
  The fields of an activation the scheduler's decisions depend on, and the fields of
  the runtime that the helpers leave alone.
\<close>

abbreviation held :: "'v serviceRuntime \<Rightarrow> nat \<Rightarrow> bool" where
  "held rt a \<equiv> env_slotHeld (act_envelope (rt_acts rt a))"

abbreviation started :: "'v serviceRuntime \<Rightarrow> nat \<Rightarrow> bool" where
  "started rt a \<equiv> act_started (rt_acts rt a)"

lemma finishTrackedAct_act [simp]:
  "act_started (rt_acts (finishTrackedAct a f rt) b) = act_started (rt_acts rt b)"
  "act_grant (rt_acts (finishTrackedAct a f rt) b) = act_grant (rt_acts rt b)"
  "act_owner (rt_acts (finishTrackedAct a f rt) b) = act_owner (rt_acts rt b)"
  "act_noYield (rt_acts (finishTrackedAct a f rt) b) = act_noYield (rt_acts rt b)"
  "act_yieldAtSegment (rt_acts (finishTrackedAct a f rt) b) = act_yieldAtSegment (rt_acts rt b)"
  "act_interleaveVersion (rt_acts (finishTrackedAct a f rt) b) = act_interleaveVersion (rt_acts rt b)"
  "env_slotHeld (act_envelope (rt_acts (finishTrackedAct a f rt) b)) = env_slotHeld (act_envelope (rt_acts rt b))"
  "env_expectsResponse (act_envelope (rt_acts (finishTrackedAct a f rt) b)) =
     env_expectsResponse (act_envelope (rt_acts rt b))"
  by (auto simp: finishTrackedAct_def finishTracked_def updAct_def Let_def split: option.splits)

lemma finishTrackedAct_rt [simp]:
  "rt_info (finishTrackedAct a f rt) = rt_info rt" "rt_opts (finishTrackedAct a f rt) = rt_opts rt"
  "rt_next (finishTrackedAct a f rt) = rt_next rt" "rt_slots (finishTrackedAct a f rt) = rt_slots rt"
  "rt_done (finishTrackedAct a f rt) = rt_done rt" "rt_current (finishTrackedAct a f rt) = rt_current rt"
  "rt_ready (finishTrackedAct a f rt) = rt_ready rt"
  "rt_suspended (finishTrackedAct a f rt) = rt_suspended rt"
  "rt_segmentSeq (finishTrackedAct a f rt) = rt_segmentSeq rt"
  "rt_stopping (finishTrackedAct a f rt) = rt_stopping rt"
  "rt_serviceDone (finishTrackedAct a f rt) = rt_serviceDone rt"
  "rt_blocked (finishTrackedAct a f rt) = rt_blocked rt"
  "rt_grants (finishTrackedAct a f rt) = rt_grants rt"
  "rt_answered (finishTrackedAct a f rt) = rt_answered rt"
  by (simp_all add: finishTrackedAct_def updAct_def Let_def split: prod.splits)

lemma releaseSlot_act [simp]:
  "act_started (rt_acts (releaseSlot a rt) b) = act_started (rt_acts rt b)"
  "act_grant (rt_acts (releaseSlot a rt) b) = act_grant (rt_acts rt b)"
  "act_owner (rt_acts (releaseSlot a rt) b) = act_owner (rt_acts rt b)"
  "act_noYield (rt_acts (releaseSlot a rt) b) = act_noYield (rt_acts rt b)"
  "act_yieldAtSegment (rt_acts (releaseSlot a rt) b) = act_yieldAtSegment (rt_acts rt b)"
  "act_interleaveVersion (rt_acts (releaseSlot a rt) b) = act_interleaveVersion (rt_acts rt b)"
  "env_slotHeld (act_envelope (rt_acts (releaseSlot a rt) b)) \<longleftrightarrow> b \<noteq> a \<and> held rt b"
  by (auto simp: releaseSlot_def updAct_def Let_def split: nat.splits)

lemma releaseSlot_rt [simp]:
  "rt_info (releaseSlot a rt) = rt_info rt" "rt_opts (releaseSlot a rt) = rt_opts rt"
  "rt_next (releaseSlot a rt) = rt_next rt"
  "rt_done (releaseSlot a rt) = rt_done rt" "rt_current (releaseSlot a rt) = rt_current rt"
  "rt_ready (releaseSlot a rt) = rt_ready rt" "rt_suspended (releaseSlot a rt) = rt_suspended rt"
  "rt_segmentSeq (releaseSlot a rt) = rt_segmentSeq rt"
  "rt_stopping (releaseSlot a rt) = rt_stopping rt"
  "rt_serviceDone (releaseSlot a rt) = rt_serviceDone rt"
  "rt_grants (releaseSlot a rt) = rt_grants rt" "rt_answered (releaseSlot a rt) = rt_answered rt"
  by (auto simp: releaseSlot_def updAct_def Let_def split: nat.splits)

lemma releaseSlot_slots [simp]:
  "rt_slots (releaseSlot a rt) = (if held rt a then rt_slots rt - 1 else rt_slots rt)"
  "rt_blocked (releaseSlot a rt) \<longleftrightarrow> rt_blocked rt \<or> held rt a \<and> rt_slots rt = 0"
  by (auto simp: releaseSlot_def updAct_def Let_def split: nat.splits)

lemma deliver_rt [simp]:
  "rt_info (deliver a r rt) = rt_info rt" "rt_opts (deliver a r rt) = rt_opts rt"
  "rt_acts (deliver a r rt) = rt_acts rt" "rt_next (deliver a r rt) = rt_next rt"
  "rt_slots (deliver a r rt) = rt_slots rt" "rt_done (deliver a r rt) = rt_done rt"
  "rt_current (deliver a r rt) = rt_current rt" "rt_ready (deliver a r rt) = rt_ready rt"
  "rt_suspended (deliver a r rt) = rt_suspended rt"
  "rt_segmentSeq (deliver a r rt) = rt_segmentSeq rt"
  "rt_stopping (deliver a r rt) = rt_stopping rt"
  "rt_serviceDone (deliver a r rt) = rt_serviceDone rt"
  "rt_blocked (deliver a r rt) = rt_blocked rt"
  "rt_grants (deliver a r rt) = rt_grants rt" "rt_answered (deliver a r rt) = a # rt_answered rt"
  by (simp_all add: deliver_def)

lemma settled_rt [simp]:
  "rt_info (settled a rt) = rt_info rt" "rt_opts (settled a rt) = rt_opts rt"
  "rt_acts (settled a rt) = rt_acts rt" "rt_next (settled a rt) = rt_next rt"
  "rt_slots (settled a rt) = rt_slots rt" "rt_done (settled a rt) = rt_done rt"
  "rt_current (settled a rt) = rt_current rt" "rt_ready (settled a rt) = rt_ready rt"
  "rt_suspended (settled a rt) = rt_suspended rt" "rt_segmentSeq (settled a rt) = rt_segmentSeq rt"
  "rt_stopping (settled a rt) = rt_stopping rt" "rt_serviceDone (settled a rt) = rt_serviceDone rt"
  "rt_blocked (settled a rt) = rt_blocked rt" "rt_grants (settled a rt) = rt_grants rt"
  "rt_answered (settled a rt) = a # rt_answered rt"
  by (simp_all add: settled_def)

lemma finishPending_act [simp]:
  "act_started (rt_acts (finishPending a e rt) b) = act_started (rt_acts rt b)"
  "act_grant (rt_acts (finishPending a e rt) b) = act_grant (rt_acts rt b)"
  "act_owner (rt_acts (finishPending a e rt) b) = act_owner (rt_acts rt b)"
  "act_noYield (rt_acts (finishPending a e rt) b) = act_noYield (rt_acts rt b)"
  "act_yieldAtSegment (rt_acts (finishPending a e rt) b) = act_yieldAtSegment (rt_acts rt b)"
  "act_interleaveVersion (rt_acts (finishPending a e rt) b) = act_interleaveVersion (rt_acts rt b)"
  "env_slotHeld (act_envelope (rt_acts (finishPending a e rt) b)) \<longleftrightarrow> b \<noteq> a \<and> held rt b"
  by (simp_all add: finishPending_def Let_def)

lemma finishPending_rt [simp]:
  "rt_info (finishPending a e rt) = rt_info rt" "rt_opts (finishPending a e rt) = rt_opts rt"
  "rt_next (finishPending a e rt) = rt_next rt" "rt_done (finishPending a e rt) = rt_done rt"
  "rt_current (finishPending a e rt) = rt_current rt" "rt_ready (finishPending a e rt) = rt_ready rt"
  "rt_suspended (finishPending a e rt) = rt_suspended rt"
  "rt_segmentSeq (finishPending a e rt) = rt_segmentSeq rt"
  "rt_stopping (finishPending a e rt) = rt_stopping rt"
  "rt_serviceDone (finishPending a e rt) = rt_serviceDone rt"
  "rt_grants (finishPending a e rt) = rt_grants rt"
  "rt_answered (finishPending a e rt) = a # rt_answered rt"
  "rt_slots (finishPending a e rt) = (if held rt a then rt_slots rt - 1 else rt_slots rt)"
  "rt_blocked (finishPending a e rt) \<longleftrightarrow> rt_blocked rt \<or> held rt a \<and> rt_slots rt = 0"
  by (simp_all add: finishPending_def Let_def)

text \<open>The refusal loop, as one description of its effect.\<close>

abbreviation unstarted :: "'v serviceRuntime \<Rightarrow> nat list \<Rightarrow> nat list" where
  "unstarted rt xs \<equiv> filter (\<lambda>a. \<not> started rt a) xs"

abbreviation refuse :: "nat \<Rightarrow> 'v serviceRuntime \<Rightarrow> 'v serviceRuntime" where
  "refuse \<equiv> \<lambda>a rt. if started rt a then rt else finishPending a ErrServiceStopping rt"

lemma refuse_act [simp]:
  "act_started (rt_acts (fold refuse xs rt) b) = act_started (rt_acts rt b)"
  "act_grant (rt_acts (fold refuse xs rt) b) = act_grant (rt_acts rt b)"
  "act_owner (rt_acts (fold refuse xs rt) b) = act_owner (rt_acts rt b)"
  "act_yieldAtSegment (rt_acts (fold refuse xs rt) b) = act_yieldAtSegment (rt_acts rt b)"
  "act_interleaveVersion (rt_acts (fold refuse xs rt) b) = act_interleaveVersion (rt_acts rt b)"
  by (induction xs arbitrary: rt) auto

lemma refuse_held:
  "env_slotHeld (act_envelope (rt_acts (fold refuse xs rt) b)) \<longleftrightarrow>
     b \<notin> set (unstarted rt xs) \<and> held rt b"
  by (induction xs arbitrary: rt) auto

lemma refuse_rt [simp]:
  "rt_info (fold refuse xs rt) = rt_info rt" "rt_opts (fold refuse xs rt) = rt_opts rt"
  "rt_next (fold refuse xs rt) = rt_next rt" "rt_done (fold refuse xs rt) = rt_done rt"
  "rt_current (fold refuse xs rt) = rt_current rt" "rt_ready (fold refuse xs rt) = rt_ready rt"
  "rt_suspended (fold refuse xs rt) = rt_suspended rt"
  "rt_segmentSeq (fold refuse xs rt) = rt_segmentSeq rt"
  "rt_stopping (fold refuse xs rt) = rt_stopping rt"
  "rt_serviceDone (fold refuse xs rt) = rt_serviceDone rt"
  "rt_grants (fold refuse xs rt) = rt_grants rt"
  by (induction xs arbitrary: rt) auto

lemma refuse_answered: "rt_answered (fold refuse xs rt) = rev (unstarted rt xs) @ rt_answered rt"
  by (induction xs arbitrary: rt) auto

lemma refuse_slots:
  assumes "distinct xs" and "\<forall>a \<in> set (unstarted rt xs). held rt a"
    and "length (unstarted rt xs) \<le> rt_slots rt"
  shows "rt_slots (fold refuse xs rt) = rt_slots rt - length (unstarted rt xs)
    \<and> rt_blocked (fold refuse xs rt) = rt_blocked rt"
  using assms
proof (induction xs arbitrary: rt)
  case (Cons a xs)
  show ?case
  proof (cases "started rt a")
    case True
    with Cons show ?thesis by simp
  next
    case False
    let ?rt = "finishPending a ErrServiceStopping rt"
    have "rt_slots (fold refuse xs ?rt) = rt_slots ?rt - length (unstarted ?rt xs)
        \<and> rt_blocked (fold refuse xs ?rt) = rt_blocked ?rt"
      using Cons.prems False by (intro Cons.IH) auto
    with Cons.prems False show ?thesis by auto
  qed
qed simp

subsection \<open>Where every activation is\<close>

text \<open>
  The place of an activation in the scheduler, its grant channel, its slot and
  whether its outcome was delivered, as a function of its handler's phase.
\<close>

definition act_ok :: "'v serviceRuntime \<Rightarrow> (nat \<Rightarrow> phase) \<Rightarrow> nat \<Rightarrow> bool" where
  "act_ok rt ph a \<longleftrightarrow>
     (let cur = (rt_current rt = Some a); rdy = (a \<in> set (rt_ready rt));
          sus = (a \<in> rt_suspended rt); g = act_grant (rt_acts rt a);
          ans = (a \<in> set (rt_answered rt))
      in act_owner (rt_acts rt a) \<in> {None, Some (rt_info rt)} \<and>
      (case ph a of
        NotBegun \<Rightarrow>
          if started rt a then cur \<and> \<not> rdy \<and> \<not> sus \<and> g = 1 \<and> \<not> ans \<and> \<not> held rt a
          else \<not> cur \<and> \<not> sus \<and> g = 0 \<and> (rdy \<longleftrightarrow> \<not> ans) \<and> (rdy \<longleftrightarrow> held rt a)
               \<and> (ans \<longrightarrow> rt_stopping rt)
      | Running \<Rightarrow> started rt a \<and> cur \<and> \<not> rdy \<and> \<not> sus \<and> g = 0 \<and> \<not> ans \<and> \<not> held rt a
      | Waiting \<Rightarrow> started rt a \<and> \<not> cur \<and> \<not> rdy \<and> sus \<and> g = 0 \<and> \<not> ans \<and> \<not> held rt a
      | Resuming \<Rightarrow> started rt a \<and> \<not> sus \<and> \<not> ans \<and> \<not> held rt a
          \<and> (if cur then \<not> rdy \<and> g = 1 else rdy \<and> g = 0)
      | Completed \<Rightarrow> started rt a \<and> cur \<and> \<not> rdy \<and> \<not> sus \<and> g = 0 \<and> ans \<and> \<not> held rt a
      | Finished \<Rightarrow> started rt a \<and> \<not> cur \<and> \<not> rdy \<and> \<not> sus \<and> g = 0 \<and> ans \<and> \<not> held rt a))"

text \<open>
  The invariant between the handling of an event and the next scheduling decision;
  \<open>n\<close> is the number of envelopes whose sender holds a slot.
\<close>

definition rt_ok :: "'v serviceRuntime \<Rightarrow> (nat \<Rightarrow> phase) \<Rightarrow> nat \<Rightarrow> bool" where
  "rt_ok rt ph n \<longleftrightarrow>
     \<not> rt_blocked rt
     \<and> distinct (rt_ready rt) \<and> set (rt_ready rt) \<subseteq> {..<rt_next rt}
     \<and> rt_suspended rt \<subseteq> {..<rt_next rt}
     \<and> (\<forall>a. rt_current rt = Some a \<longrightarrow> a < rt_next rt)
     \<and> distinct (rt_answered rt) \<and> set (rt_answered rt) \<subseteq> {..<rt_next rt}
     \<and> (\<forall>a < rt_next rt. act_ok rt ph a) \<and> (\<forall>a \<ge> rt_next rt. ph a = NotBegun)
     \<and> rt_slots rt = n + length (unstarted rt (rt_ready rt))
     \<and> int (rt_slots rt) \<le> max 0 (MailboxSize (rt_opts rt))
     \<and> int (card (rt_suspended rt)) \<le> max 0 (MaxSuspended (rt_opts rt))
     \<and> (rt_stopping rt \<longrightarrow> (\<forall>a \<in> set (rt_ready rt). started rt a))
     \<and> (rt_stopping rt \<longleftrightarrow> \<not> rt_serviceDone rt)
     \<and> (NoInterleave (rt_opts rt) \<longrightarrow> rt_suspended rt = {})"

text \<open>After a scheduling decision nothing that could run is left waiting.\<close>

definition rt_inv :: "'v serviceRuntime \<Rightarrow> (nat \<Rightarrow> phase) \<Rightarrow> nat \<Rightarrow> bool" where
  "rt_inv rt ph n \<longleftrightarrow> rt_ok rt ph n
     \<and> (rt_current rt = None \<longrightarrow> rt_ready rt = [])
     \<and> (rt_done rt \<longleftrightarrow> rt_stopping rt \<and> rt_current rt = None \<and> rt_ready rt = [] \<and> rt_suspended rt = {})"

lemma rt_inv_new: "rt_inv (newServiceRuntime info opts heap t d) (\<lambda>_. NotBegun) 0"
  by (simp add: rt_inv_def rt_ok_def newServiceRuntime_def)

lemma rt_ok_finite: "rt_ok rt ph n \<Longrightarrow> finite (rt_suspended rt)"
  by (auto simp: rt_ok_def intro: finite_subset)

lemma rt_okD:
  "rt_ok rt ph n \<Longrightarrow> a < rt_next rt \<Longrightarrow> act_ok rt ph a"
  by (simp add: rt_ok_def)

subsection \<open>One scheduling decision\<close>

lemma schedule_idle: "rt_current rt \<noteq> None \<or> rt_ready rt = [] \<Longrightarrow> schedule rt = rt"
  by (auto simp: schedule_def split: list.splits)

text \<open>The decision that grants a turn to the head of the ready queue.\<close>

lemma schedule_grant:
  assumes "rt_current rt = None" and "rt_ready rt = a # rest"
    and "started rt a \<or> \<not> rt_stopping rt" and "act_grant (rt_acts rt a) = 0"
  shows "rt_current (schedule rt) = Some a" "rt_ready (schedule rt) = rest"
    "rt_info (schedule rt) = rt_info rt" "rt_opts (schedule rt) = rt_opts rt"
    "rt_next (schedule rt) = rt_next rt" "rt_done (schedule rt) = rt_done rt"
    "rt_suspended (schedule rt) = rt_suspended rt" "rt_stopping (schedule rt) = rt_stopping rt"
    "rt_serviceDone (schedule rt) = rt_serviceDone rt"
    "rt_answered (schedule rt) = rt_answered rt"
    "rt_segmentSeq (schedule rt) = Suc (rt_segmentSeq rt)"
    "rt_grants (schedule rt) = a # rt_grants rt"
    "rt_slots (schedule rt) = (if held rt a then rt_slots rt - 1 else rt_slots rt)"
    "rt_blocked (schedule rt) \<longleftrightarrow> rt_blocked rt \<or> held rt a \<and> rt_slots rt = 0"
    "started (schedule rt) b \<longleftrightarrow> b = a \<or> started rt b"
    "held (schedule rt) b \<longleftrightarrow> b \<noteq> a \<and> held rt b"
    "act_grant (rt_acts (schedule rt) b) = (if b = a then 1 else act_grant (rt_acts rt b))"
    "act_owner (rt_acts (schedule rt) b) = act_owner (rt_acts rt b)"
    "act_yieldAtSegment (rt_acts (schedule rt) b) = act_yieldAtSegment (rt_acts rt b)"
    "act_interleaveVersion (rt_acts (schedule rt) b) = act_interleaveVersion (rt_acts rt b)
       + (if b = a \<and> started rt a \<and> rt_segmentSeq rt > act_yieldAtSegment (rt_acts rt a) then 1 else 0)"
  using assms by (auto simp: schedule_def Let_def sendGrant_def updAct_def)

lemma ready_cases:
  assumes "rt_ok rt ph n" and "a \<in> set (rt_ready rt)"
  shows "a < rt_next rt" "act_grant (rt_acts rt a) = 0" "started rt a \<or> \<not> rt_stopping rt"
    "held rt a \<longleftrightarrow> \<not> started rt a" "ph a = (if started rt a then Resuming else NotBegun)"
    "a \<notin> set (rt_answered rt)"
proof -
  show "a < rt_next rt" using assms by (auto simp: rt_ok_def)
  then have "act_ok rt ph a" using assms(1) by (rule rt_okD [rotated])
  then show "act_grant (rt_acts rt a) = 0" "held rt a \<longleftrightarrow> \<not> started rt a"
    "ph a = (if started rt a then Resuming else NotBegun)" "a \<notin> set (rt_answered rt)"
    using assms(2) by (auto simp: act_ok_def Let_def split: phase.splits if_splits)
  show "started rt a \<or> \<not> rt_stopping rt" using assms by (auto simp: rt_ok_def)
qed

lemma schedule_ok:
  assumes ok: "rt_ok rt ph n"
  shows "rt_ok (schedule rt) ph n \<and> rt_done (schedule rt) = rt_done rt
    \<and> (rt_current (schedule rt) = None \<longrightarrow> rt_current rt = None \<and> rt_ready rt = [] \<and> schedule rt = rt)"
proof (cases "rt_current rt \<noteq> None \<or> rt_ready rt = []")
  case True
  with ok show ?thesis by (auto simp: schedule_idle)
next
  case False
  then obtain a rest where cur: "rt_current rt = None" and rdy: "rt_ready rt = a # rest"
    by (cases "rt_ready rt") auto
  then have mem: "a \<in> set (rt_ready rt)" by simp
  note a = ready_cases [OF ok mem]
  note eqs = schedule_grant [OF cur rdy a(3) a(2)]
  have dist: "distinct (a # rest)" using ok by (simp add: rt_ok_def rdy)
  have acts: "act_ok (schedule rt) ph b" if "b < rt_next rt" for b
  proof (cases "b = a")
    case True
    have "act_ok rt ph a" using ok a(1) by (rule rt_okD)
    with True show ?thesis
      using a(4,5,6) dist by (auto simp: act_ok_def Let_def eqs rdy cur split: if_splits)
  next
    case ne: False
    have "act_ok rt ph b" using ok that by (rule rt_okD)
    with ne show ?thesis
      by (auto simp: act_ok_def Let_def eqs rdy cur split: phase.splits if_splits)
  qed
  have same: "filter (\<lambda>b. b \<noteq> a \<and> \<not> started rt b) rest = unstarted rt rest"
    using dist by (auto intro: filter_cong)
  from ok acts have "rt_ok (schedule rt) ph n"
    using dist a(1,4) unfolding rt_ok_def eqs rdy by (auto simp: cur same)
  then show ?thesis by (simp add: eqs)
qed

lemma loopTop_inv:
  assumes "rt_ok rt ph n" and "\<not> rt_done rt"
  shows "rt_inv (loopTop rt) ph n"
proof (cases "rt_stopping rt \<and> rt_current rt = None \<and> rt_ready rt = [] \<and> rt_suspended rt = {}")
  case True
  have "act_ok (rt\<lparr>rt_done := True\<rparr>) ph a = act_ok rt ph a" for a
    by (simp add: act_ok_def Let_def cong: phase.case_cong)
  with True assms show ?thesis
    by (simp add: loopTop_def rt_inv_def rt_ok_def)
next
  case False
  then have "loopTop rt = schedule rt" by (auto simp: loopTop_def)
  with schedule_ok [OF assms(1)] False assms(2) show ?thesis
    by (auto simp: rt_inv_def)
qed

subsection \<open>Every event keeps the invariant\<close>

lemmas act_ok_simps = act_ok_def Let_def

lemma handleServiceDone_ok:
  assumes ok: "rt_ok rt ph n"
  shows "rt_ok (handleServiceDone rt) ph n"
proof -
  let ?rt0 = "rt\<lparr>rt_stopping := True, rt_serviceDone := False\<rparr>"
  let ?rt1 = "fold refuse (rt_ready rt) ?rt0"
  have un: "\<forall>a \<in> set (unstarted rt (rt_ready rt)). held rt a \<and> a \<notin> set (rt_answered rt) \<and> ph a = NotBegun"
    using ready_cases [OF ok] by auto
  have sl: "rt_slots ?rt1 = n" "\<not> rt_blocked ?rt1"
    using refuse_slots [of "rt_ready rt" ?rt0] ok un by (auto simp: rt_ok_def)
  have eq: "handleServiceDone rt = ?rt1\<lparr>rt_ready := filter (started rt) (rt_ready rt)\<rparr>"
    by (simp add: handleServiceDone_def refuseUnstarted_def Let_def)
  have acts: "act_ok (handleServiceDone rt) ph b" if "b < rt_next rt" for b
  proof -
    have "act_ok rt ph b" using ok that by (rule rt_okD)
    then show ?thesis
      unfolding eq by (auto simp: act_ok_simps refuse_held refuse_answered split: phase.splits if_splits)
  qed
  have "distinct (rev (unstarted rt (rt_ready rt)) @ rt_answered rt)"
    using ok un by (auto simp: rt_ok_def)
  moreover have "unstarted rt (filter (started rt) (rt_ready rt)) = []"
    by (auto simp: filter_empty_conv)
  ultimately show ?thesis
    using ok acts sl unfolding rt_ok_def eq by (auto simp: refuse_answered)
qed

lemma handleEnqueue_ok:
  assumes ok: "rt_ok rt ph (Suc n)" and held: "env_slotHeld env"
  shows "rt_ok (handleEnqueue env rt) ph n"
proof -
  let ?k = "rt_next rt"
  have fresh: "?k \<notin> set (rt_ready rt)" "?k \<notin> rt_suspended rt" "rt_current rt \<noteq> Some ?k"
    "?k \<notin> set (rt_answered rt)" "ph ?k = NotBegun"
    using ok by (auto simp: rt_ok_def)
  have acts: "act_ok (handleEnqueue env rt) ph b" if "b < Suc ?k" for b
  proof (cases "b = ?k")
    case True
    with fresh held show ?thesis
      by (auto simp: act_ok_simps handleEnqueue_def alloc_def newActivation_def)
  next
    case False
    with that have "act_ok rt ph b" using ok by (auto intro: rt_okD)
    with False show ?thesis
      by (auto simp: act_ok_simps handleEnqueue_def alloc_def split: phase.splits if_splits)
  qed
  have same: "unstarted (handleEnqueue env rt) (rt_ready rt) = unstarted rt (rt_ready rt)"
    using fresh(1) by (auto simp: handleEnqueue_def alloc_def intro!: filter_cong)
  have up: "set (rt_ready rt) \<subseteq> {..<Suc ?k}" "rt_suspended rt \<subseteq> {..<Suc ?k}"
    "set (rt_answered rt) \<subseteq> {..<Suc ?k}" "\<forall>a. rt_current rt = Some a \<longrightarrow> a < Suc ?k"
    using ok unfolding rt_ok_def by (auto intro: less_SucI)
  have nxt: "rt_next (handleEnqueue env rt) = Suc ?k"
    by (simp add: handleEnqueue_def alloc_def)
  show ?thesis
  proof (cases "rt_stopping rt")
    case True
    then have "handleEnqueue env rt = finishPending ?k ErrServiceStopping
        (rt\<lparr>rt_acts := (rt_acts rt)(?k := newActivation None env), rt_next := Suc ?k\<rparr>)"
      by (simp add: handleEnqueue_def alloc_def)
    with True ok acts same up nxt fresh held show ?thesis
      unfolding rt_ok_def by (auto simp: newActivation_def)
  next
    case False
    then have "handleEnqueue env rt = rt\<lparr>rt_acts := (rt_acts rt)(?k := newActivation (Some (rt_info rt)) env),
        rt_next := Suc ?k, rt_ready := rt_ready rt @ [?k]\<rparr>"
      by (simp add: handleEnqueue_def alloc_def)
    with False ok acts same up nxt fresh show ?thesis
      unfolding rt_ok_def by (simp add: newActivation_def)
  qed
qed

lemma handleYield_ok:
  assumes ok: "rt_ok rt ph n" and ph: "ph a = Running"
    and y: "handleYield a label rt = (rt', Accepted)"
  shows "rt_ok rt' (ph(a := Waiting)) n"
proof -
  from y have cur: "rt_current rt = Some a" and lim: "int (card (rt_suspended rt)) < MaxSuspended (rt_opts rt)"
    and ni: "\<not> NoInterleave (rt_opts rt)"
    and rt': "rt' = (updAct a (\<lambda>act. act\<lparr>act_label := label, act_yieldAtSegment := rt_segmentSeq rt\<rparr>) rt)
          \<lparr>rt_suspended := insert a (rt_suspended rt), rt_current := None\<rparr>"
    by (auto simp: handleYield_def Let_def updAct_def split: if_splits)
  have lt: "a < rt_next rt" using ok cur by (simp add: rt_ok_def)
  then have a: "act_ok rt ph a" using ok by (auto intro: rt_okD)
  have acts: "act_ok rt' (ph(a := Waiting)) b" if "b < rt_next rt" for b
  proof (cases "b = a")
    case True
    with a ph show ?thesis by (auto simp: act_ok_simps rt' updAct_def)
  next
    case False
    from that have "act_ok rt ph b" using ok by (auto intro: rt_okD)
    with False cur show ?thesis
      by (auto simp: act_ok_simps rt' updAct_def split: phase.splits if_splits)
  qed
  have "a \<notin> rt_suspended rt" using a ph by (auto simp: act_ok_simps)
  with lim have "int (card (insert a (rt_suspended rt))) \<le> MaxSuspended (rt_opts rt)"
    using rt_ok_finite [OF ok] by simp
  moreover have "unstarted rt' (rt_ready rt) = unstarted rt (rt_ready rt)"
    by (auto simp: rt' updAct_def intro: filter_cong)
  moreover have "rt_next rt' = rt_next rt" "\<forall>b \<in> set (rt_ready rt). started rt' b = started rt b"
    by (auto simp: rt' updAct_def)
  ultimately show ?thesis
    using ok acts lt ni unfolding rt_ok_def by (simp add: rt' updAct_def)
qed

lemma handleYield_refused: "handleYield a label rt = (rt', Rejected e) \<Longrightarrow> rt' = rt"
  by (auto simp: handleYield_def Let_def split: if_splits)

lemma handleResume_ok:
  assumes ok: "rt_ok rt ph n" and ph: "ph a = Waiting"
  shows "rt_ok (handleResume a rt) (ph(a := Resuming)) n"
proof -
  have lt: "a < rt_next rt"
    using ok ph unfolding rt_ok_def by (metis leI phase.distinct(3))
  then have a: "act_ok rt ph a" using ok by (auto intro: rt_okD)
  with ph have mem: "a \<in> rt_suspended rt" "a \<notin> set (rt_ready rt)" "started rt a"
    by (auto simp: act_ok_simps)
  then have eq: "handleResume a rt =
      rt\<lparr>rt_suspended := rt_suspended rt - {a}, rt_ready := rt_ready rt @ [a]\<rparr>"
    by (simp add: handleResume_def)
  have acts: "act_ok (handleResume a rt) (ph(a := Resuming)) b" if "b < rt_next rt" for b
  proof (cases "b = a")
    case True
    with a ph show ?thesis by (auto simp: act_ok_simps eq)
  next
    case False
    from that have "act_ok rt ph b" using ok by (auto intro: rt_okD)
    with False show ?thesis
      by (auto simp: act_ok_simps eq split: phase.splits if_splits)
  qed
  have "card (rt_suspended rt - {a}) \<le> card (rt_suspended rt)"
    using rt_ok_finite [OF ok] by (simp add: card_mono)
  with ok acts mem lt show ?thesis
    unfolding rt_ok_def by (auto simp: eq)
qed

lemma handleDone_ok:
  assumes ok: "rt_ok rt ph n" and ph: "ph a = Completed"
  shows "rt_ok (handleDone a rt) (ph(a := Finished)) n"
proof -
  have lt: "a < rt_next rt"
    using ok ph unfolding rt_ok_def by (metis leI phase.distinct(7))
  then have a: "act_ok rt ph a" using ok by (auto intro: rt_okD)
  with ph have mem: "a \<notin> rt_suspended rt" "rt_current rt = Some a"
    by (auto simp: act_ok_simps)
  then have eq: "handleDone a rt = rt\<lparr>rt_current := None\<rparr>"
    by (simp add: handleDone_def)
  have acts: "act_ok (handleDone a rt) (ph(a := Finished)) b" if "b < rt_next rt" for b
  proof (cases "b = a")
    case True
    with a ph show ?thesis by (auto simp: act_ok_simps eq)
  next
    case False
    from that have "act_ok rt ph b" using ok by (auto intro: rt_okD)
    with False mem show ?thesis
      by (auto simp: act_ok_simps eq split: phase.splits if_splits)
  qed
  with ok lt show ?thesis unfolding rt_ok_def by (auto simp: eq)
qed

subsection \<open>Every step of the world keeps the invariant\<close>

lemma phase_lt: "rt_ok rt ph n \<Longrightarrow> ph a \<noteq> NotBegun \<Longrightarrow> a < rt_next rt"
  unfolding rt_ok_def by (metis leI)

text \<open>
  A step of the handler of \<open>a\<close> that leaves the scheduler's own variables alone: only
  the activation, its phase and the answered list may change.
\<close>

lemma rt_inv_handler:
  assumes inv: "rt_inv rt ph n"
    and same: "rt_info rt' = rt_info rt" "rt_opts rt' = rt_opts rt" "rt_next rt' = rt_next rt"
      "rt_slots rt' = rt_slots rt" "rt_done rt' = rt_done rt" "rt_current rt' = rt_current rt"
      "rt_ready rt' = rt_ready rt" "rt_suspended rt' = rt_suspended rt"
      "rt_stopping rt' = rt_stopping rt" "rt_serviceDone rt' = rt_serviceDone rt"
      "rt_blocked rt' = rt_blocked rt"
    and starts: "\<And>b. started rt' b = started rt b"
    and others: "\<And>b. b \<noteq> a \<Longrightarrow> held rt' b = held rt b \<and> act_grant (rt_acts rt' b) = act_grant (rt_acts rt b)
        \<and> act_owner (rt_acts rt' b) = act_owner (rt_acts rt b)
        \<and> (b \<in> set (rt_answered rt') \<longleftrightarrow> b \<in> set (rt_answered rt))"
    and ans: "distinct (rt_answered rt')" "set (rt_answered rt') \<subseteq> {..<rt_next rt}"
    and lt: "a < rt_next rt" and a: "act_ok rt' (ph(a := p)) a"
  shows "rt_inv rt' (ph(a := p)) n"
proof -
  have acts: "act_ok rt' (ph(a := p)) b" if "b < rt_next rt" for b
  proof (cases "b = a")
    case False
    have "act_ok rt ph b" using inv that by (auto simp: rt_inv_def intro: rt_okD)
    with False others [OF False] starts [of b] same show ?thesis
      by (auto simp: act_ok_simps split: phase.splits if_splits)
  qed (use a in simp)
  have "unstarted rt' (rt_ready rt) = unstarted rt (rt_ready rt)"
    using starts by simp
  with inv acts ans same lt starts show ?thesis
    unfolding rt_inv_def rt_ok_def by auto
qed

lemma rt_invD:
  assumes "rt_inv rt ph n"
  shows "distinct (rt_answered rt)" "set (rt_answered rt) \<subseteq> {..<rt_next rt}"
    "a < rt_next rt \<Longrightarrow> act_ok rt ph a" "ph a \<noteq> NotBegun \<Longrightarrow> a < rt_next rt"
  using assms phase_lt [of rt ph n a] by (simp_all add: rt_inv_def rt_ok_def)

lemma takeGrant_inv:
  assumes inv: "rt_inv rt ph n" and "a < rt_next rt"
    and "ph a = NotBegun \<and> started rt a \<or> ph a = Resuming" and "act_grant (rt_acts rt a) > 0"
  shows "rt_inv (takeGrant a rt) (ph(a := Running)) n"
proof -
  have "act_ok rt ph a" using rt_invD(3) [OF inv] assms(2) by simp
  then have "act_ok (takeGrant a rt) (ph(a := Running)) a"
    using assms(3,4) by (auto simp: takeGrant_def updAct_def act_ok_simps split: if_splits)
  with assms(2) rt_invD(1,2) [OF inv] show ?thesis
    by (intro rt_inv_handler [OF inv]) (auto simp: takeGrant_def updAct_def)
qed

lemma execute_finish_inv:
  assumes inv: "rt_inv rt ph n" and ph: "ph a = Running"
  shows "rt_inv (execute_finish a fn rt) (ph(a := Completed)) n"
proof -
  have lt: "a < rt_next rt" using rt_invD(4) [OF inv] ph by simp
  then have a: "act_ok rt ph a" by (rule rt_invD(3) [OF inv])
  then have "act_ok (execute_finish a fn rt) (ph(a := Completed)) a"
    using ph by (simp add: execute_finish_def act_ok_simps)
  moreover have "a \<notin> set (rt_answered rt)" using a ph by (simp add: act_ok_simps)
  ultimately show ?thesis
    using lt rt_invD(1,2) [OF inv]
    by (intro rt_inv_handler [OF inv]) (simp_all add: execute_finish_def Let_def)
qed

lemma noYield_inv:
  assumes inv: "rt_inv rt ph n" and ph: "ph a = Running"
    and "rt' \<in> {NoYield_enter a rt, NoYield_exit a rt}"
  shows "rt_inv rt' ph n"
proof -
  obtain k where rt': "rt' = updAct a (\<lambda>act. act\<lparr>act_noYield := k\<rparr>) rt"
    using assms(3) by (auto simp: NoYield_enter_def NoYield_exit_def updAct_def)
  have lt: "a < rt_next rt" using rt_invD(4) [OF inv] ph by simp
  then have "act_ok rt ph a" by (rule rt_invD(3) [OF inv])
  then have "act_ok rt' (ph(a := Running)) a"
    using ph by (simp add: rt' updAct_def act_ok_simps)
  then have "rt_inv rt' (ph(a := Running)) n"
    using lt rt_invD(1,2) [OF inv]
    by (intro rt_inv_handler [OF inv]) (simp_all add: rt' updAct_def)
  then show ?thesis using ph by (simp add: fun_upd_idem)
qed

definition rw_inv :: "'v runtime_world \<Rightarrow> bool" where
  "rw_inv w \<longleftrightarrow> rt_inv (rw_rt w) (rw_phase w) (length (rw_inflight w))
     \<and> (\<forall>env \<in> set (rw_inflight w). env_slotHeld env)"

lemma rw_inv_init: "rw_inv (rw_init (newServiceRuntime info opts heap t d))"
  by (simp add: rw_inv_def rw_init_def rt_inv_new)

lemma rt_inv_done: "rt_inv rt ph n \<Longrightarrow> rt_done rt \<Longrightarrow> ph a \<in> {NotBegun, Finished}"
proof -
  assume inv: "rt_inv rt ph n" and d: "rt_done rt"
  show "ph a \<in> {NotBegun, Finished}"
  proof (cases "a < rt_next rt")
    case True
    then have "act_ok rt ph a" using inv by (auto simp: rt_inv_def intro: rt_okD)
    with inv d show ?thesis
      by (auto simp: rt_inv_def act_ok_simps split: phase.splits if_splits)
  qed (use inv in \<open>auto simp: rt_inv_def rt_ok_def\<close>)
qed

lemma rt_inv_slots:
  assumes "rt_inv rt ph n" and "int s \<le> max 0 (MailboxSize (rt_opts rt))"
    and "s + n = rt_slots rt + m"
  shows "rt_inv (rt\<lparr>rt_slots := s\<rparr>) ph m"
proof -
  have "act_ok (rt\<lparr>rt_slots := s\<rparr>) ph a = act_ok rt ph a" for a
    by (simp add: act_ok_simps cong: phase.case_cong)
  with assms show ?thesis unfolding rt_inv_def rt_ok_def by auto
qed

lemma rt_inv_elsewhere: "rt_inv (rt\<lparr>rt_sessions := t, rt_drain := d\<rparr>) ph n = rt_inv rt ph n"
proof -
  have "act_ok (rt\<lparr>rt_sessions := t, rt_drain := d\<rparr>) ph a = act_ok rt ph a" for a
    by (simp add: act_ok_simps cong: phase.case_cong)
  then show ?thesis by (simp add: rt_inv_def rt_ok_def)
qed

lemma handleInput_done: "rt_done (fst (handleInput inp rt)) = rt_done rt"
  by (auto simp: handleInput_def handleServiceDone_def refuseUnstarted_def handleEnqueue_def
      handleYield_def handleResume_def handleDone_def alloc_def updAct_def Let_def
      split: loop_input.splits runtimeEvent.splits)

lemma run_step_inv:
  assumes "run_step inp rt = (rt', reply)" and "\<not> rt_done rt"
    and "rt_ok (fst (handleInput inp rt)) ph n"
  shows "rt_inv rt' ph n"
  using assms loopTop_inv [OF assms(3)] handleInput_done [of inp rt]
  by (auto simp: run_step_def split: prod.splits)

lemma rw_step_inv: "rw_step w w' \<Longrightarrow> rw_inv w \<Longrightarrow> rw_inv w'"
proof (induction rule: rw_step.induct)
  case (take_slot w env)
  then show ?case
    by (auto simp: rw_inv_def intro!: rt_inv_slots [of "rw_rt w" "rw_phase w" "length (rw_inflight w)"])
next
  case (emit w us env vs rt' reply)
  then have "rt_ok (rw_rt w) (rw_phase w) (Suc (length (us @ vs)))" "env_slotHeld env"
    by (auto simp: rw_inv_def rt_inv_def)
  from run_step_inv [OF emit.hyps(3,1)] handleEnqueue_ok [OF this] emit show ?case
    by (auto simp: rw_inv_def handleInput_def)
next
  case (give_back w us env vs)
  moreover have "0 < rt_slots (rw_rt w)" "int (rt_slots (rw_rt w)) \<le> max 0 (MailboxSize (rt_opts (rw_rt w)))"
    using give_back by (auto simp: rw_inv_def rt_inv_def rt_ok_def)
  ultimately show ?case
    by (auto simp: rw_inv_def intro!: rt_inv_slots [of "rw_rt w" "rw_phase w" "length (rw_inflight w)"])
next
  case (service_done w rt' reply)
  then have "rt_ok (rw_rt w) (rw_phase w) (length (rw_inflight w))"
    by (simp add: rw_inv_def rt_inv_def)
  from run_step_inv [OF service_done.hyps(3,1)] handleServiceDone_ok [OF this] service_done show ?case
    by (auto simp: rw_inv_def handleInput_def)
next
  case (yield w a label rt')
  have y: "handleYield a label (rw_rt w) = (fst (handleYield a label (rw_rt w)), Accepted)"
    using yield.hyps(4) by (simp add: run_step_def handleInput_def split: prod.splits)
  have "rt_ok (rw_rt w) (rw_phase w) (length (rw_inflight w))"
    using yield.prems by (simp add: rw_inv_def rt_inv_def)
  from run_step_inv [OF yield.hyps(4,3)] handleYield_ok [OF this yield.hyps(1) y] yield.prems show ?case
    by (auto simp: rw_inv_def handleInput_def)
next
  case (yield_refused w a label rt' e)
  have "handleYield a label (rw_rt w) = (fst (handleYield a label (rw_rt w)), Rejected e)"
    using yield_refused.hyps(4) by (simp add: run_step_def handleInput_def split: prod.splits)
  then have "fst (handleYield a label (rw_rt w)) = rw_rt w" by (rule handleYield_refused)
  moreover have "rt_ok (rw_rt w) (rw_phase w) (length (rw_inflight w))"
    using yield_refused.prems by (simp add: rw_inv_def rt_inv_def)
  ultimately show ?case
    using run_step_inv [OF yield_refused.hyps(4,3)] yield_refused.prems
    by (auto simp: rw_inv_def handleInput_def)
next
  case (resume w a rt' reply)
  have "rt_ok (rw_rt w) (rw_phase w) (length (rw_inflight w))"
    using resume.prems by (simp add: rw_inv_def rt_inv_def)
  from run_step_inv [OF resume.hyps(3,2)] handleResume_ok [OF this resume.hyps(1)] resume.prems show ?case
    by (auto simp: rw_inv_def handleInput_def)
next
  case (finish w a rt' reply)
  have "rt_ok (rw_rt w) (rw_phase w) (length (rw_inflight w))"
    using finish.prems by (simp add: rw_inv_def rt_inv_def)
  from run_step_inv [OF finish.hyps(3,2)] handleDone_ok [OF this finish.hyps(1)] finish.prems show ?case
    by (auto simp: rw_inv_def handleInput_def)
next
  case (regain w a)
  then show ?case
    using rt_invD(4) [of "rw_rt w" "rw_phase w" "length (rw_inflight w)" a]
    by (auto simp: rw_inv_def intro: takeGrant_inv)
next
  case (abandoned w a)
  then show ?case by (auto simp: rw_inv_def dest: rt_inv_done [of _ _ _ a])
next
  case (finish_late w a)
  then show ?case by (auto simp: rw_inv_def dest: rt_inv_done [of _ _ _ a])
qed (auto simp: rw_inv_def rt_inv_elsewhere intro: takeGrant_inv execute_finish_inv noYield_inv)

lemma rw_reachable_inv: "rw_reachable info opts w \<Longrightarrow> rw_inv w"
proof -
  assume "rw_reachable info opts w"
  then obtain heap t d where "rw_step\<^sup>*\<^sup>* (rw_init (newServiceRuntime info opts heap t d)) w"
    by (auto simp: rw_reachable_def)
  then show ?thesis
    by (induction rule: rtranclp_induct) (auto intro: rw_inv_init rw_step_inv)
qed

end
