(* ===== verification/Actor_Turns.thy ===== *)
theory Actor_Turns
  imports Actor_Runtime
begin

text \<open>
  The order of turns: activations start in the order of their enqueue events, a
  \<open>NoInterleave\<close> service gives every activation one turn, and the interleaving
  version of an activation (\<open>MarkTurn\<close>, \<open>InterleavedSince\<close>) counts exactly the turns
  after which somebody else had run.
\<close>

subsection \<open>Counting the returns of an activation\<close>

text \<open>How often, in a history of grants (latest first), \<open>a\<close> came back after another.\<close>

fun switches :: "nat \<Rightarrow> nat list \<Rightarrow> nat" where
  "switches a [] = 0"
| "switches a (x # xs) = (if x = a \<and> a \<in> set xs \<and> hd xs \<noteq> a then 1 else 0) + switches a xs"

lemma switches_notin: "a \<notin> set xs \<Longrightarrow> switches a xs = 0"
  by (induction xs) auto

lemma switches_mono: "switches a xs \<le> switches a (ys @ xs)"
  by (induction ys) auto

lemma switches_same: "set ys \<subseteq> {a} \<Longrightarrow> xs \<noteq> [] \<Longrightarrow> hd xs = a \<Longrightarrow> switches a (ys @ xs) = switches a xs"
proof (induction ys)
  case (Cons y ys)
  then have "hd (ys @ xs) = a" by (cases ys) auto
  with Cons show ?case by auto
qed simp

lemma switches_append:
  assumes "xs \<noteq> []" and "hd xs = a" and "ys \<noteq> []" and "hd ys = a"
  shows "switches a (ys @ xs) = switches a xs \<longleftrightarrow> set ys \<subseteq> {a}"
proof
  assume eq: "switches a (ys @ xs) = switches a xs"
  show "set ys \<subseteq> {a}"
  proof (rule ccontr)
    assume "\<not> set ys \<subseteq> {a}"
    then obtain us y vs where split: "ys = us @ y # vs" "y \<noteq> a" "\<forall>u \<in> set us. u = a"
      using split_list_first_prop [of ys "\<lambda>y. y \<noteq> a"] by blast
    with assms(3,4) obtain us' where us: "us = us' @ [a]"
      by (cases us rule: rev_cases) auto
    have "switches a (a # y # vs @ xs) = Suc (switches a (y # vs @ xs))"
      using assms(1,2) split(2) by (cases xs) auto
    moreover have "switches a (y # vs @ xs) \<ge> switches a xs"
      using switches_mono [of a xs "y # vs"] by simp
    moreover have "switches a (us' @ a # y # vs @ xs) \<ge> switches a (a # y # vs @ xs)"
      by (rule switches_mono)
    ultimately show False using eq split(1) us by simp
  qed
qed (use switches_same assms in auto)

subsection \<open>The order of turns\<close>

definition turn_inv :: "'v serviceRuntime \<Rightarrow> bool" where
  "turn_inv rt \<longleftrightarrow>
     length (rt_grants rt) = rt_segmentSeq rt \<and> set (rt_grants rt) \<subseteq> {..<rt_next rt}
     \<and> (\<forall>a. rt_current rt = Some a \<longrightarrow> rt_grants rt \<noteq> [] \<and> hd (rt_grants rt) = a)
     \<and> (\<forall>a < rt_next rt. started rt a \<longleftrightarrow> a \<in> set (rt_grants rt))
     \<and> (\<forall>a < rt_next rt. act_interleaveVersion (rt_acts rt a) = switches a (rt_grants rt))
     \<and> (\<forall>a. a \<in> rt_suspended rt \<or> a \<in> set (rt_ready rt) \<and> started rt a \<longrightarrow>
           act_yieldAtSegment (rt_acts rt a) \<le> rt_segmentSeq rt
           \<and> (act_yieldAtSegment (rt_acts rt a) = rt_segmentSeq rt \<longleftrightarrow> hd (rt_grants rt) = a))
     \<and> sorted (unstarted rt (rt_ready rt))
     \<and> (\<forall>a b. a < b \<and> b < rt_next rt \<and> started rt b \<longrightarrow> started rt a)
     \<and> (NoInterleave (rt_opts rt) \<longrightarrow>
           distinct (rt_grants rt) \<and> (\<forall>a \<in> set (rt_ready rt). \<not> started rt a))"

lemma turn_inv_new: "turn_inv (newServiceRuntime info opts heap t d)"
  by (simp add: turn_inv_def newServiceRuntime_def)

lemma turn_inv_cong:
  assumes "rt_next rt' = rt_next rt" "rt_opts rt' = rt_opts rt" "rt_current rt' = rt_current rt"
    "rt_ready rt' = rt_ready rt" "rt_suspended rt' = rt_suspended rt"
    "rt_segmentSeq rt' = rt_segmentSeq rt" "rt_grants rt' = rt_grants rt"
    "\<And>a. started rt' a = started rt a"
    "\<And>a. act_interleaveVersion (rt_acts rt' a) = act_interleaveVersion (rt_acts rt a)"
    "\<And>a. act_yieldAtSegment (rt_acts rt' a) = act_yieldAtSegment (rt_acts rt a)"
  shows "turn_inv rt' = turn_inv rt"
  unfolding turn_inv_def assms ..

lemma turn_invD:
  assumes "turn_inv rt"
  shows "length (rt_grants rt) = rt_segmentSeq rt" "set (rt_grants rt) \<subseteq> {..<rt_next rt}"
    "rt_current rt = Some a \<Longrightarrow> rt_grants rt \<noteq> [] \<and> hd (rt_grants rt) = a"
    "a < rt_next rt \<Longrightarrow> started rt a \<longleftrightarrow> a \<in> set (rt_grants rt)"
    "a < rt_next rt \<Longrightarrow> act_interleaveVersion (rt_acts rt a) = switches a (rt_grants rt)"
    "a \<in> rt_suspended rt \<or> a \<in> set (rt_ready rt) \<and> started rt a \<Longrightarrow>
       act_yieldAtSegment (rt_acts rt a) \<le> rt_segmentSeq rt
       \<and> (act_yieldAtSegment (rt_acts rt a) = rt_segmentSeq rt \<longleftrightarrow> hd (rt_grants rt) = a)"
    "sorted (unstarted rt (rt_ready rt))"
    "a < b \<Longrightarrow> b < rt_next rt \<Longrightarrow> started rt b \<Longrightarrow> started rt a"
    "NoInterleave (rt_opts rt) \<Longrightarrow> distinct (rt_grants rt)"
    "NoInterleave (rt_opts rt) \<Longrightarrow> a \<in> set (rt_ready rt) \<Longrightarrow> \<not> started rt a"
  using assms unfolding turn_inv_def by blast+

text \<open>
  An event that grants nothing keeps the order of turns if it keeps the histories, and
  keeps or adds only activations that have not started.
\<close>

lemma turn_event:
  assumes inv: "turn_inv rt"
    and same: "rt_grants rt' = rt_grants rt" "rt_segmentSeq rt' = rt_segmentSeq rt"
      "rt_opts rt' = rt_opts rt" "rt_next rt \<le> rt_next rt'"
    and cur: "rt_current rt' = rt_current rt \<or> rt_current rt' = None"
    and old: "\<And>a. a < rt_next rt \<Longrightarrow> started rt' a = started rt a
        \<and> act_interleaveVersion (rt_acts rt' a) = act_interleaveVersion (rt_acts rt a)"
    and new: "\<And>a. rt_next rt \<le> a \<Longrightarrow> a < rt_next rt' \<Longrightarrow>
        \<not> started rt' a \<and> act_interleaveVersion (rt_acts rt' a) = 0"
    and away: "\<And>a. a \<in> rt_suspended rt' \<or> a \<in> set (rt_ready rt') \<and> started rt' a \<Longrightarrow>
        act_yieldAtSegment (rt_acts rt' a) \<le> rt_segmentSeq rt
        \<and> (act_yieldAtSegment (rt_acts rt' a) = rt_segmentSeq rt \<longleftrightarrow> hd (rt_grants rt) = a)"
    and sorted: "sorted (unstarted rt' (rt_ready rt'))"
    and ni: "\<And>a. NoInterleave (rt_opts rt) \<Longrightarrow> a \<in> set (rt_ready rt') \<Longrightarrow> \<not> started rt' a"
  shows "turn_inv rt'"
proof -
  note d = turn_invD [OF inv]
  have grants: "a \<in> set (rt_grants rt) \<Longrightarrow> a < rt_next rt" for a using d(2) by auto
  have st: "started rt' a \<longleftrightarrow> a \<in> set (rt_grants rt)" if "a < rt_next rt'" for a
    using d(4) [of a] old [of a] new [of a] grants [of a] that by (cases "a < rt_next rt") auto
  have ver: "act_interleaveVersion (rt_acts rt' a) = switches a (rt_grants rt)" if "a < rt_next rt'" for a
    using d(5) [of a] old [of a] new [of a] grants [of a] that switches_notin [of a "rt_grants rt"]
    by (cases "a < rt_next rt") auto
  have up: "set (rt_grants rt) \<subseteq> {..<rt_next rt'}"
    using grants same(4) by fastforce
  have fifo: "started rt' a" if "a < b" "b < rt_next rt'" "started rt' b" for a b
  proof -
    have "b < rt_next rt" using st [of b] grants [of b] that by simp
    then show ?thesis using d(8) [of a b] old [of a] old [of b] that by simp
  qed
  have turn: "rt_grants rt \<noteq> [] \<and> hd (rt_grants rt) = a" if "rt_current rt' = Some a" for a
    using cur d(3) [of a] that by auto
  show ?thesis
    unfolding turn_inv_def same(1-3)
    using d(1) up turn st ver away sorted fifo d(9) ni by blast
qed

lemma turn_ServiceDone: "turn_inv rt \<Longrightarrow> turn_inv (handleServiceDone rt)"
  by (rule turn_event [of rt])
    (auto simp: handleServiceDone_def refuseUnstarted_def Let_def filter_empty_conv
      dest: turn_invD(6,10))

lemma turn_Enqueue:
  assumes inv: "turn_inv rt" and ok: "rt_ok rt ph n"
  shows "turn_inv (handleEnqueue env rt)"
proof -
  let ?k = "rt_next rt" and ?rt = "handleEnqueue env rt"
  have ready: "set (rt_ready rt) \<subseteq> {..<?k}" and susp: "rt_suspended rt \<subseteq> {..<?k}"
    using ok by (simp_all add: rt_ok_def)
  have old: "started ?rt a = started rt a"
    "act_interleaveVersion (rt_acts ?rt a) = act_interleaveVersion (rt_acts rt a)"
    "act_yieldAtSegment (rt_acts ?rt a) = act_yieldAtSegment (rt_acts rt a)" if "a < ?k" for a
    using that by (simp_all add: handleEnqueue_def alloc_def)
  have new: "\<not> started ?rt ?k" "act_interleaveVersion (rt_acts ?rt ?k) = 0"
    by (simp_all add: handleEnqueue_def alloc_def newActivation_def)
  have same: "unstarted ?rt (rt_ready rt) = unstarted rt (rt_ready rt)"
    using ready old(1) by (intro filter_cong) auto
  have fields: "rt_grants ?rt = rt_grants rt" "rt_segmentSeq ?rt = rt_segmentSeq rt"
    "rt_opts ?rt = rt_opts rt" "rt_next ?rt = Suc ?k" "rt_current ?rt = rt_current rt"
    "rt_suspended ?rt = rt_suspended rt"
    by (simp_all add: handleEnqueue_def alloc_def)
  have queue: "rt_ready ?rt = rt_ready rt \<or> rt_ready ?rt = rt_ready rt @ [?k]"
    by (simp add: handleEnqueue_def alloc_def)
  have bound: "\<forall>x \<in> set (unstarted rt (rt_ready rt)). x \<le> ?k" using ready by auto
  have sorted: "sorted (unstarted ?rt (rt_ready ?rt))"
    using queue
  proof
    assume "rt_ready ?rt = rt_ready rt"
    then show ?thesis using turn_invD(7) [OF inv] same by simp
  next
    assume eq: "rt_ready ?rt = rt_ready rt @ [?k]"
    show ?thesis
      unfolding eq filter_append same using turn_invD(7) [OF inv] bound new(1)
      by (simp add: sorted_append)
  qed
  have away: "a < ?k \<and> (a \<in> rt_suspended rt \<or> a \<in> set (rt_ready rt) \<and> started rt a)"
    if "a \<in> rt_suspended rt \<or> a \<in> set (rt_ready ?rt) \<and> started ?rt a" for a
    using that queue new(1) ready susp old(1) [of a] by auto
  have yields: "act_yieldAtSegment (rt_acts ?rt a) \<le> rt_segmentSeq rt
      \<and> (act_yieldAtSegment (rt_acts ?rt a) = rt_segmentSeq rt \<longleftrightarrow> hd (rt_grants rt) = a)"
    if "a \<in> rt_suspended rt \<or> a \<in> set (rt_ready ?rt) \<and> started ?rt a" for a
    using away [OF that] turn_invD(6) [OF inv, of a] old(3) [of a] by simp
  have none: "\<not> started ?rt a" if "NoInterleave (rt_opts rt)" "a \<in> set (rt_ready ?rt)" for a
    using that queue new(1) ready old(1) [of a] turn_invD(10) [OF inv, of a] by auto
  have fresh: "\<not> started ?rt a \<and> act_interleaveVersion (rt_acts ?rt a) = 0"
    if "?k \<le> a" "a < Suc ?k" for a
    using new that by (simp add: less_Suc_eq_le order.antisym)
  show ?thesis
    by (rule turn_event [OF inv]) (simp_all add: fields sorted yields none fresh old)
qed

lemma turn_Yield:
  assumes inv: "turn_inv rt" and y: "handleYield a label rt = (rt', reply)"
  shows "turn_inv rt'"
proof (cases "reply = Accepted")
  case True
  with y have cur: "rt_current rt = Some a"
    and rt': "rt' = (updAct a (\<lambda>act. act\<lparr>act_label := label, act_yieldAtSegment := rt_segmentSeq rt\<rparr>) rt)
          \<lparr>rt_suspended := insert a (rt_suspended rt), rt_current := None\<rparr>"
    by (auto simp: handleYield_def Let_def updAct_def split: if_splits)
  have st: "started rt' b = started rt b" for b by (simp add: rt' updAct_def)
  have "sorted (unstarted rt' (rt_ready rt'))"
    using turn_invD(7) [OF inv] by (simp add: st) (simp add: rt' updAct_def)
  with st cur turn_invD(3,6,10) [OF inv] show ?thesis
    by (intro turn_event [OF inv]) (auto simp: rt' updAct_def)
next
  case False
  with assms show ?thesis by (auto simp: handleYield_def Let_def split: if_splits)
qed

lemma turn_Resume:
  assumes inv: "turn_inv rt" and ok: "rt_ok rt ph n" and "a \<in> rt_suspended rt \<Longrightarrow> started rt a"
  shows "turn_inv (handleResume a rt)"
proof (cases "a \<in> rt_suspended rt")
  case True
  then have "\<not> NoInterleave (rt_opts rt)" "started rt a" using ok assms(3) by (auto simp: rt_ok_def)
  with True turn_invD(6,7) [OF inv] show ?thesis
    by (intro turn_event [OF inv]) (auto simp: handleResume_def)
qed (simp add: handleResume_def inv)

lemma turn_Done: "turn_inv rt \<Longrightarrow> turn_inv (handleDone a rt)"
  by (rule turn_event [of rt]) (auto simp: handleDone_def Let_def split: if_splits dest: turn_invD(6,7,10))

lemma turn_schedule:
  assumes inv: "turn_inv rt" and ok: "rt_ok rt ph n"
  shows "turn_inv (schedule rt)"
proof (cases "rt_current rt \<noteq> None \<or> rt_ready rt = []")
  case True
  with inv show ?thesis by (simp add: schedule_idle)
next
  case False
  then obtain a rest where cur: "rt_current rt = None" and rdy: "rt_ready rt = a # rest"
    by (cases "rt_ready rt") auto
  then have mem: "a \<in> set (rt_ready rt)" by simp
  note a = ready_cases [OF ok mem] and d = turn_invD [OF inv]
  note eqs = schedule_grant [OF cur rdy a(3) a(2)]
  have dist: "distinct (a # rest)" using ok by (simp add: rt_ok_def rdy)
  have sus: "\<forall>b \<in> rt_suspended rt. b \<noteq> a"
    using rt_okD [OF ok a(1)] mem by (auto simp: act_ok_simps split: phase.splits if_splits)
  have same: "filter (\<lambda>b. b \<noteq> a \<and> \<not> started rt b) rest = unstarted rt rest"
    using dist by (auto intro: filter_cong)
  have away: "act_yieldAtSegment (rt_acts rt b) \<le> rt_segmentSeq rt"
    if "b \<in> rt_suspended rt \<or> b \<in> set rest \<and> started rt b" for b
    using d(6) [of b] that rdy by auto
  have ver: "act_interleaveVersion (rt_acts (schedule rt) b) = switches b (a # rt_grants rt)"
    if "b < rt_next rt" for b
    using d(4,5,6) [of b] that mem a(1) by (auto simp: eqs)
  have fifo: "started rt b" if "b < a" "\<not> started rt a" for b
  proof (rule ccontr)
    assume un: "\<not> started rt b"
    have lt: "b < rt_next rt" using that a(1) by simp
    have "\<not> rt_stopping rt" using a(3) that(2) by simp
    then have "b \<in> set (rt_ready rt)"
      using rt_okD [OF ok lt] un by (auto simp: act_ok_simps split: phase.splits)
    then have "b \<in> set (unstarted rt rest)" using un rdy that(1) by auto
    then show False using d(7) rdy that by auto
  qed
  have starts: "started rt b" if "b < c" "c < rt_next rt" "c = a \<or> started rt c" for b c
    using that fifo [of b] d(8) [of b c] by auto
  let ?rt = "schedule rt"
  have c1: "length (rt_grants ?rt) = rt_segmentSeq ?rt" "set (rt_grants ?rt) \<subseteq> {..<rt_next ?rt}"
    using d(1,2) a(1) by (simp_all add: eqs)
  have c2: "rt_current ?rt = Some b \<longrightarrow> rt_grants ?rt \<noteq> [] \<and> hd (rt_grants ?rt) = b" for b
    by (simp add: eqs)
  have c3: "b < rt_next ?rt \<longrightarrow> (started ?rt b \<longleftrightarrow> b \<in> set (rt_grants ?rt))"
    "b < rt_next ?rt \<longrightarrow> act_interleaveVersion (rt_acts ?rt b) = switches b (rt_grants ?rt)" for b
    using d(4) [of b] ver [of b] by (simp_all add: eqs)
  have c4: "act_yieldAtSegment (rt_acts ?rt b) \<le> rt_segmentSeq ?rt
      \<and> (act_yieldAtSegment (rt_acts ?rt b) = rt_segmentSeq ?rt \<longleftrightarrow> hd (rt_grants ?rt) = b)"
    if "b \<in> rt_suspended ?rt \<or> b \<in> set (rt_ready ?rt) \<and> started ?rt b" for b
  proof -
    have "b \<noteq> a" using that sus dist by (auto simp: eqs)
    with that away [of b] show ?thesis by (auto simp: eqs)
  qed
  have "unstarted ?rt (rt_ready ?rt) = unstarted rt rest" using same by (simp add: eqs)
  then have c5: "sorted (unstarted ?rt (rt_ready ?rt))"
    using d(7) by (auto simp: rdy split: if_splits)
  have c6: "b < c \<and> c < rt_next ?rt \<and> started ?rt c \<longrightarrow> started ?rt b" for b c
    using starts [of b c] by (auto simp: eqs)
  have c7: "NoInterleave (rt_opts ?rt) \<longrightarrow> distinct (rt_grants ?rt)"
    "NoInterleave (rt_opts ?rt) \<longrightarrow> (\<forall>b \<in> set (rt_ready ?rt). \<not> started ?rt b)"
    using d(9,10) d(4) [OF a(1)] mem dist by (auto simp: eqs rdy)
  show ?thesis
    unfolding turn_inv_def using c1 c2 c3 c4 c5 c6 c7 by blast
qed

lemma turn_run_step:
  assumes "run_step inp rt = (rt', reply)" and eq: "fst (handleInput inp rt) = rt1"
    and inv: "turn_inv rt1" and ok: "rt_ok rt1 ph n"
  shows "turn_inv rt'"
proof -
  have "rt' = loopTop rt1"
    using assms(1) eq by (auto simp: run_step_def split: prod.splits)
  moreover have "turn_inv (rt1\<lparr>rt_done := True\<rparr>) = turn_inv rt1"
    by (rule turn_inv_cong) simp_all
  ultimately show ?thesis
    using turn_schedule [OF inv ok] inv by (simp add: loopTop_def)
qed

lemma rw_ok: "rw_inv w \<Longrightarrow> rt_ok (rw_rt w) (rw_phase w) (length (rw_inflight w))"
  by (simp add: rw_inv_def rt_inv_def)

lemma rw_step_turn: "rw_step w w' \<Longrightarrow> rw_inv w \<Longrightarrow> turn_inv (rw_rt w) \<Longrightarrow> turn_inv (rw_rt w')"
proof (induction rule: rw_step.induct)
  case (emit w us env vs rt' reply)
  from rw_ok [OF emit.prems(1)] emit have ok: "rt_ok (rw_rt w) (rw_phase w) (Suc (length (us @ vs)))"
    and held: "env_slotHeld env" by (auto simp: rw_inv_def)
  have "turn_inv rt'"
    by (rule turn_run_step [OF emit.hyps(3) _ turn_Enqueue [OF emit.prems(2) ok]
          handleEnqueue_ok [OF ok held]]) (simp add: handleInput_def)
  then show ?case by simp
next
  case (service_done w rt' reply)
  note ok = rw_ok [OF service_done.prems(1)]
  have "turn_inv rt'"
    by (rule turn_run_step [OF service_done.hyps(3) _ turn_ServiceDone [OF service_done.prems(2)]
          handleServiceDone_ok [OF ok]]) (simp add: handleInput_def)
  then show ?case by simp
next
  case (yield w a label rt')
  obtain rt1 where y: "handleYield a label (rw_rt w) = (rt1, Accepted)"
    using yield.hyps(4) by (auto simp: run_step_def handleInput_def split: prod.splits)
  have "turn_inv rt'"
    by (rule turn_run_step [OF yield.hyps(4) _ turn_Yield [OF yield.prems(2) y]
          handleYield_ok [OF rw_ok [OF yield.prems(1)] yield.hyps(1) y]]) (simp add: handleInput_def y)
  then show ?case by simp
next
  case (yield_refused w a label rt' e)
  obtain rt1 where y: "handleYield a label (rw_rt w) = (rt1, Rejected e)"
    using yield_refused.hyps(4) by (auto simp: run_step_def handleInput_def split: prod.splits)
  then have "rt1 = rw_rt w" by (rule handleYield_refused)
  with y have "turn_inv rt'"
    by (intro turn_run_step [OF yield_refused.hyps(4) _ yield_refused.prems(2)
          rw_ok [OF yield_refused.prems(1)]]) (simp add: handleInput_def)
  then show ?case by simp
next
  case (resume w a rt' reply)
  note ok = rw_ok [OF resume.prems(1)]
  have "started (rw_rt w) a"
    using rt_okD [OF ok phase_lt [OF ok, of a]] resume.hyps(1) by (simp add: act_ok_simps)
  then have "turn_inv rt'"
    by (intro turn_run_step [OF resume.hyps(3) _ turn_Resume [OF resume.prems(2) ok]
          handleResume_ok [OF ok resume.hyps(1)]]) (simp_all add: handleInput_def)
  then show ?case by simp
next
  case (finish w a rt' reply)
  note ok = rw_ok [OF finish.prems(1)]
  have "turn_inv rt'"
    by (rule turn_run_step [OF finish.hyps(3) _ turn_Done [OF finish.prems(2)]
          handleDone_ok [OF ok finish.hyps(1)]]) (simp add: handleInput_def)
  then show ?case by simp
next
  case (complete w a fn)
  have "turn_inv (execute_finish a fn (rw_rt w)) = turn_inv (rw_rt w)"
    by (rule turn_inv_cong) (simp_all add: execute_finish_def Let_def)
  with complete.prems show ?case by simp
next
  case (no_yield w a rt')
  then have "turn_inv rt' = turn_inv (rw_rt w)"
    by (intro turn_inv_cong) (auto simp: NoYield_enter_def NoYield_exit_def updAct_def split: if_splits)
  with no_yield.prems show ?case by simp
qed (auto simp: takeGrant_def updAct_def split: if_splits
    elim!: turn_inv_cong [THEN iffD1, rotated -1])

lemma rw_reachable_turn: "rw_reachable info opts w \<Longrightarrow> turn_inv (rw_rt w)"
proof -
  assume "rw_reachable info opts w"
  then obtain heap t d where "rw_step\<^sup>*\<^sup>* (rw_init (newServiceRuntime info opts heap t d)) w"
    by (auto simp: rw_reachable_def)
  then have "rw_inv w \<and> turn_inv (rw_rt w)"
  proof (induction rule: rtranclp_induct)
    case base
    show ?case by (simp add: rw_inv_init) (simp add: rw_init_def turn_inv_new)
  qed (auto intro: rw_step_inv rw_step_turn)
  then show ?thesis by simp
qed

lemma rw_reachable_step: "rw_reachable info opts w \<Longrightarrow> rw_step\<^sup>*\<^sup>* w w' \<Longrightarrow> rw_reachable info opts w'"
  unfolding rw_reachable_def by (meson rtranclp_trans)

subsection \<open>A granted turn is usable, and a stopping service can finish\<close>

lemma current_phase:
  assumes "rw_inv w" and "rt_current (rw_rt w) = Some a"
  shows "a < rt_next (rw_rt w)" "started (rw_rt w) a"
    "rw_phase w a \<in> {Running, Completed} \<and> act_grant (rt_acts (rw_rt w) a) = 0
     \<or> rw_phase w a \<in> {NotBegun, Resuming} \<and> act_grant (rt_acts (rw_rt w) a) = 1"
proof -
  note ok = rw_ok [OF assms(1)]
  show lt: "a < rt_next (rw_rt w)" using ok assms(2) by (simp add: rt_ok_def)
  from rt_okD [OF ok lt] assms(2)
  show "started (rw_rt w) a"
    "rw_phase w a \<in> {Running, Completed} \<and> act_grant (rt_acts (rw_rt w) a) = 0
     \<or> rw_phase w a \<in> {NotBegun, Resuming} \<and> act_grant (rt_acts (rw_rt w) a) = 1"
    by (auto simp: act_ok_simps split: phase.splits if_splits)
qed

text \<open>How many handler steps a phase is away from the end, when nothing yields again.\<close>

primrec togo :: "phase \<Rightarrow> nat" where
  "togo NotBegun = 3" | "togo Running = 2" | "togo Waiting = 4" | "togo Resuming = 3"
| "togo Completed = 1" | "togo Finished = 0"

definition workLeft :: "'v runtime_world \<Rightarrow> nat" where
  "workLeft w = (\<Sum>a < rt_next (rw_rt w). togo (rw_phase w a))"

lemma workLeft_less:
  fixes a n :: nat
  assumes "a < n" and "togo p < togo (ph a)"
  shows "(\<Sum>b < n. togo ((ph(a := p)) b)) < (\<Sum>b < n. togo (ph b))"
  using assms by (intro sum_strict_mono_ex1 finite_lessThan) auto

lemma workLeft_step:
  assumes "rw_step w w'" and "rt_stopping (rw_rt w')" and "rw_phase w' = (rw_phase w)(a := p)"
    and "rt_next (rw_rt w') = rt_next (rw_rt w)" and "a < rt_next (rw_rt w)"
    and "togo p < togo (rw_phase w a)"
  shows "\<exists>w'. rw_step w w' \<and> rt_stopping (rw_rt w') \<and> workLeft w' < workLeft w"
  using assms workLeft_less [of a _ p "rw_phase w", OF assms(5,6)] by (auto simp: workLeft_def)

lemma loopTop_frame:
  "rt_next (loopTop rt) = rt_next rt" "rt_stopping (loopTop rt) = rt_stopping rt"
  by (auto simp: loopTop_def schedule_def sendGrant_def updAct_def Let_def split: list.splits)

lemma run_step_frame:
  assumes "inp \<in> {InEvent (eventResume a), InEvent (eventDone a)}"
  shows "rt_next (fst (run_step inp rt)) = rt_next rt"
    "rt_stopping (fst (run_step inp rt)) = rt_stopping rt"
  using assms by (auto simp: run_step_def handleInput_def handleResume_def handleDone_def Let_def
      loopTop_frame split: if_splits)

text \<open>Some handler of a stopping service that has not returned can take a step towards the end.\<close>

lemma stopping_step:
  assumes inv: "rw_inv w" and stop: "rt_stopping (rw_rt w)" and nd: "\<not> rt_done (rw_rt w)"
  shows "\<exists>w'. rw_step w w' \<and> rt_stopping (rw_rt w') \<and> workLeft w' < workLeft w"
proof -
  note ok = rw_ok [OF inv]
  show ?thesis
  proof (cases "rt_current (rw_rt w)")
    case None
    then have "rt_suspended (rw_rt w) \<noteq> {}"
      using inv stop nd by (auto simp: rw_inv_def rt_inv_def)
    then obtain a where a: "a \<in> rt_suspended (rw_rt w)" by auto
    then have lt: "a < rt_next (rw_rt w)" using ok by (auto simp: rt_ok_def)
    have ph: "rw_phase w a = Waiting"
      using rt_okD [OF ok lt] a by (auto simp: act_ok_simps split: phase.splits if_splits)
    let ?rt = "fst (run_step (InEvent (eventResume a)) (rw_rt w))"
    have "rw_step w (setPhase a Resuming w\<lparr>rw_rt := ?rt\<rparr>)"
      by (rule rw_step.resume [OF ph nd, of ?rt NoReply]) (simp add: run_step_def handleInput_def)
    then show ?thesis
      by (rule workLeft_step [where a = a and p = Resuming]) (use lt ph stop in \<open>simp_all add: run_step_frame\<close>)
  next
    case (Some a)
    note cur = current_phase [OF inv Some]
    consider (run) "rw_phase w a = Running" | (fin) "rw_phase w a = Completed"
      | (first) "rw_phase w a = NotBegun" "act_grant (rt_acts (rw_rt w) a) > 0"
      | (again) "rw_phase w a = Resuming" "act_grant (rt_acts (rw_rt w) a) > 0"
      using cur(3) by auto
    then show ?thesis
    proof cases
      case run
      show ?thesis
        by (rule workLeft_step [where a = a and p = Completed, OF rw_step.complete [OF run, of "\<lambda>_. Panicked ''''"]])
          (use cur(1) run stop in \<open>simp_all add: execute_finish_def Let_def\<close>)
    next
      case fin
      let ?rt = "fst (run_step (InEvent (eventDone a)) (rw_rt w))"
      have "rw_step w (setPhase a Finished w\<lparr>rw_rt := ?rt\<rparr>)"
        by (rule rw_step.finish [OF fin nd, of ?rt NoReply]) (simp add: run_step_def handleInput_def)
      then show ?thesis
        by (rule workLeft_step [where a = a and p = Finished]) (use cur(1) fin stop in \<open>simp_all add: run_step_frame\<close>)
    next
      case first
      show ?thesis
        by (rule workLeft_step [where a = a and p = Running, OF rw_step.first_grant [OF cur(2,1) first]])
          (use cur(1) first stop in \<open>simp_all add: takeGrant_def updAct_def\<close>)
    next
      case again
      show ?thesis
        by (rule workLeft_step [where a = a and p = Running, OF rw_step.regain [OF again]])
          (use cur(1) again stop in \<open>simp_all add: takeGrant_def updAct_def\<close>)
    qed
  qed
qed

lemma stopping_completes:
  assumes "rw_inv w" and "rt_stopping (rw_rt w)"
  shows "\<exists>w'. rw_step\<^sup>*\<^sup>* w w' \<and> rt_done (rw_rt w')"
  using assms
proof (induction "workLeft w" arbitrary: w rule: less_induct)
  case less
  show ?case
  proof (cases "rt_done (rw_rt w)")
    case False
    from stopping_step [OF less.prems False] obtain w1 where
      w1: "rw_step w w1" "rt_stopping (rw_rt w1)" "workLeft w1 < workLeft w" by auto
    with less.hyps [OF w1(3) rw_step_inv [OF w1(1) less.prems(1)] w1(2)] show ?thesis
      by (meson converse_rtranclp_into_rtranclp)
  qed auto
qed

end
