(* ===== verification/Actor_Examples.thy ===== *)
theory Actor_Examples
  imports Actor_Turns
begin

text \<open>
  An executable form of the steps around a service, and the example service that the
  concrete instances of the runtime's theorems run on.
\<close>

subsection \<open>Scripts of steps\<close>

datatype 'v move =
    MSlot "'v serviceEnvelope" | MEmit | MStop | MFirst nat | MYield nat string | MResume nat
  | MRegain nat | MComplete nat "'v list \<Rightarrow> 'v outcome" | MFinish nat

fun rw_exec :: "'v move \<Rightarrow> 'v runtime_world \<Rightarrow> 'v runtime_world option" where
  "rw_exec (MSlot env) w =
     (if int (rt_slots (rw_rt w)) < MailboxSize (rt_opts (rw_rt w))
      then Some (w\<lparr>rw_rt := (rw_rt w)\<lparr>rt_slots := Suc (rt_slots (rw_rt w))\<rparr>,
             rw_inflight := env\<lparr>env_slotHeld := True\<rparr> # rw_inflight w\<rparr>) else None)"
| "rw_exec MEmit w =
     (case rw_inflight w of [] \<Rightarrow> None | env # rest \<Rightarrow>
        if rt_done (rw_rt w) then None
        else Some (w\<lparr>rw_rt := fst (run_step (InEvent (eventEnqueue env)) (rw_rt w)), rw_inflight := rest\<rparr>))"
| "rw_exec MStop w =
     (if rt_done (rw_rt w) \<or> \<not> rt_serviceDone (rw_rt w) then None
      else Some (w\<lparr>rw_rt := fst (run_step InServiceDone (rw_rt w))\<rparr>))"
| "rw_exec (MFirst a) w =
     (if started (rw_rt w) a \<and> a < rt_next (rw_rt w) \<and> rw_phase w a = NotBegun
         \<and> act_grant (rt_acts (rw_rt w) a) > 0
      then Some (setPhase a Running w\<lparr>rw_rt := takeGrant a (rw_rt w)\<rparr>) else None)"
| "rw_exec (MYield a label) w =
     (if rw_phase w a = Running \<and> awaitActivationTyped (rt_acts (rw_rt w) a) = AwaitYield
         \<and> \<not> rt_done (rw_rt w)
      then (case run_step (InEvent (eventYield a label)) (rw_rt w) of
              (rt, Accepted) \<Rightarrow> Some (setPhase a Waiting w\<lparr>rw_rt := rt\<rparr>)
            | (rt, Rejected e) \<Rightarrow> Some (w\<lparr>rw_rt := rt\<rparr>)
            | _ \<Rightarrow> None)
      else None)"
| "rw_exec (MResume a) w =
     (if rw_phase w a = Waiting \<and> \<not> rt_done (rw_rt w)
      then Some (setPhase a Resuming w\<lparr>rw_rt := fst (run_step (InEvent (eventResume a)) (rw_rt w))\<rparr>)
      else None)"
| "rw_exec (MRegain a) w =
     (if rw_phase w a = Resuming \<and> act_grant (rt_acts (rw_rt w) a) > 0
      then Some (setPhase a Running w\<lparr>rw_rt := takeGrant a (rw_rt w)\<rparr>) else None)"
| "rw_exec (MComplete a fn) w =
     (if rw_phase w a = Running
      then Some (setPhase a Completed w\<lparr>rw_rt := execute_finish a fn (rw_rt w)\<rparr>) else None)"
| "rw_exec (MFinish a) w =
     (if rw_phase w a = Completed \<and> \<not> rt_done (rw_rt w)
      then Some (setPhase a Finished w\<lparr>rw_rt := fst (run_step (InEvent (eventDone a)) (rw_rt w))\<rparr>)
      else None)"

lemma rw_exec_sound: "rw_exec m w = Some w' \<Longrightarrow> rw_step w w'"
proof (induction m w rule: rw_exec.induct)
  case (2 w)
  then obtain env rest where "rw_inflight w = [] @ env # rest" "\<not> rt_done (rw_rt w)"
    and w': "w' = w\<lparr>rw_rt := fst (run_step (InEvent (eventEnqueue env)) (rw_rt w)), rw_inflight := [] @ rest\<rparr>"
    by (auto split: list.splits if_splits)
  then show ?case
    unfolding w' by (intro rw_step.emit [OF _ _ prod.collapse [symmetric]])
next
  case (5 a label w)
  then show ?case
    by (auto split: prod.splits accepted.splits if_splits intro: rw_step.yield rw_step.yield_refused)
qed (auto split: if_splits intro: rw_step.intros simp: prod_eq_iff)

fun rw_execs :: "'v move list \<Rightarrow> 'v runtime_world \<Rightarrow> 'v runtime_world option" where
  "rw_execs [] w = Some w"
| "rw_execs (m # ms) w = (case rw_exec m w of None \<Rightarrow> None | Some w' \<Rightarrow> rw_execs ms w')"

lemma rw_execs_sound: "rw_execs ms w = Some w' \<Longrightarrow> rw_step\<^sup>*\<^sup>* w w'"
proof (induction ms arbitrary: w)
  case (Cons m ms)
  then obtain w1 where "rw_exec m w = Some w1" "rw_execs ms w1 = Some w'"
    by (auto split: option.splits)
  with Cons.IH show ?case
    by (meson converse_rtranclp_into_rtranclp rw_exec_sound)
qed simp

subsection \<open>An example service\<close>

definition demo_codec :: "unit Codec" where
  "demo_codec = \<lparr>PackRequest = (\<lambda>_. Inr zeroMessage), UnpackRequest = (\<lambda>_. Inr []),
     PackResponse = (\<lambda>v. Inr \<lparr>msg_payload = Some v\<rparr>), UnpackResponse = (\<lambda>_. Inr ())\<rparr>"

definition demo_env :: "unit serviceEnvelope" where
  "demo_env = \<lparr>env_drainTracked = False, env_ctx = None, env_session = 1, env_protocol = ''ping'',
     env_handler = \<lparr>h_codec = demo_codec, h_descriptor = None\<rparr>, env_request = zeroMessage,
     env_expectsResponse = True, env_slotHeld = False\<rparr>"

definition demo_opts :: ServiceOptions where
  "demo_opts = \<lparr>MailboxSize = 2, MaxSuspended = 1, AdmissionTimeout = 1, CallTimeout = 1,
     ActiveWarn = 1, SuspendedWarn = 1, NoInterleave = False\<rparr>"

definition example_info :: "ServiceOptions \<Rightarrow> service_info" where
  "example_info opts = \<lparr>si_system = 0, si_name = ''demo'', si_noInterleave = NoInterleave opts\<rparr>"

definition example_start :: "ServiceOptions \<Rightarrow> unit runtime_world" where
  "example_start opts = rw_init (newServiceRuntime (example_info opts) opts
     (\<lambda>_. newActivation None demo_env) newSessionTable None)"

text \<open>The world a script leads to (the start, if the script is not possible).\<close>

definition example_after :: "ServiceOptions \<Rightarrow> unit move list \<Rightarrow> unit runtime_world" where
  "example_after opts ms =
     (case rw_execs ms (example_start opts) of None \<Rightarrow> example_start opts | Some w \<Rightarrow> w)"

abbreviation demo_after :: "unit move list \<Rightarrow> unit runtime_world" where
  "demo_after \<equiv> example_after demo_opts"

text \<open>A system on node \<open>n1\<close> with one started service that handles \<open>ping\<close>.\<close>

definition demo_system :: "ServiceOptions \<Rightarrow> unit System" where
  "demo_system opts =
     (case Reserve ''demo'' opts ((NewSystem 0)\<lparr>sys_node := ''n1'', sys_remote := True\<rparr>) of
        Inl _ \<Rightarrow> NewSystem 0
      | Inr (p, r, sys) \<Rightarrow>
          (case handle p ''ping'' (Some demo_codec) True None sys of
             Inl _ \<Rightarrow> NewSystem 0
           | Inr sys \<Rightarrow> (case Start p sys of Inl _ \<Rightarrow> NewSystem 0 | Inr sys \<Rightarrow> sys)))"

definition demo_ref :: Ref where
  "demo_ref = \<lparr>ref_Address = 1, ref_Generation = 1, ref_system = Some 0, ref_remote = None\<rparr>"

lemma demo_reachable: "rw_reachable (example_info opts) opts (example_after opts ms)"
proof (cases "rw_execs ms (example_start opts)")
  case None
  then show ?thesis by (auto simp: example_after_def rw_reachable_def example_start_def)
next
  case (Some w)
  with rw_execs_sound [OF Some] show ?thesis
    by (auto simp: example_after_def rw_reachable_def example_start_def)
qed

definition demo_ctx :: go_context where
  "demo_ctx = executeContext '''' (example_info demo_opts) 0 demo_env"

text \<open>Two calls arrive; the first handler runs.\<close>

definition demo_two :: "unit move list" where
  "demo_two = [MSlot demo_env, MEmit, MFirst 0, MSlot demo_env, MEmit]"

text \<open>The same two calls at a service that does not interleave.\<close>

definition solo_opts :: ServiceOptions where
  "solo_opts = demo_opts\<lparr>NoInterleave := True\<rparr>"

text \<open>It awaits something; the second call runs to its end; the first one resumes.\<close>

definition demo_interleaved :: "unit move list" where
  "demo_interleaved = demo_two @ [MYield 0 ''wait'', MFirst 1, MComplete 1 (\<lambda>_. Returned ()), MFinish 1,
     MResume 0, MRegain 0]"

text \<open>The service stops while the first handler runs and the second waits.\<close>

definition demo_stopped :: "unit move list" where
  "demo_stopped = demo_two @ [MStop, MComplete 0 (\<lambda>_. Returned ()), MFinish 0]"

lemma rw_execs_append: "rw_execs (xs @ ys) w = (case rw_execs xs w of None \<Rightarrow> None | Some w' \<Rightarrow> rw_execs ys w')"
  by (induction xs arbitrary: w) (auto split: option.splits)

text \<open>A longer script continues a shorter one, if it is possible at all.\<close>

lemma demo_continue:
  assumes "\<not> Option.is_none (rw_execs (xs @ ys) (example_start opts))"
  shows "rw_step\<^sup>*\<^sup>* (example_after opts xs) (example_after opts (xs @ ys))"
  using assms rw_execs_sound
  by (auto simp: example_after_def rw_execs_append Option.is_none_def split: option.splits)

end
