(* ===== verification/Actor_Service.thy ===== *)
theory Actor_Service
  imports Actor_Examples
begin

text \<open>
  What a service promises, whatever its callers and handlers do: the theorems on the
  scheduler of \<open>actor/system_runtime.go\<close>.  Each handler goroutine is taken to run its
  own code sequentially; it may yield, resume, enter \<open>NoYield\<close> sections, fail or panic
  at any point.
\<close>

subsection \<open>What never changes\<close>

lemma finishPending_opts [simp]:
  "rt_opts (execute_finish a fn rt) = rt_opts rt" "rt_opts (takeGrant a rt) = rt_opts rt"
  by (simp_all add: execute_finish_def takeGrant_def updAct_def Let_def)

lemma run_step_opts: "run_step inp rt = (rt', reply) \<Longrightarrow> rt_opts rt' = rt_opts rt"
proof -
  have "rt_opts (loopTop rt) = rt_opts rt" for rt :: "'a serviceRuntime"
    by (auto simp: loopTop_def schedule_def sendGrant_def updAct_def Let_def split: list.splits)
  moreover have "rt_opts (fst (handleInput inp rt)) = rt_opts rt"
    by (auto simp: handleInput_def handleServiceDone_def refuseUnstarted_def
        handleEnqueue_def handleYield_def handleResume_def handleDone_def alloc_def updAct_def Let_def
        split: loop_input.splits runtimeEvent.splits)
  moreover assume "run_step inp rt = (rt', reply)"
  ultimately show ?thesis by (auto simp: run_step_def split: prod.splits)
qed

lemma rw_step_opts: "rw_step w w' \<Longrightarrow> rt_opts (rw_rt w') = rt_opts (rw_rt w)"
  by (induction rule: rw_step.induct)
    (auto simp: NoYield_enter_def NoYield_exit_def updAct_def dest: run_step_opts)

lemma rw_reachable_opts: "rw_reachable info opts w \<Longrightarrow> rt_opts (rw_rt w) = opts"
proof -
  assume "rw_reachable info opts w"
  then obtain heap t d where "rw_step\<^sup>*\<^sup>* (rw_init (newServiceRuntime info opts heap t d)) w"
    by (auto simp: rw_reachable_def)
  then show ?thesis
    by (induction rule: rtranclp_induct) (auto simp: rw_init_def newServiceRuntime_def dest: rw_step_opts)
qed

lemma handleYield_NoInterleave:
  "NoInterleave (rt_opts rt) \<Longrightarrow> snd (run_step (InEvent (eventYield a label)) rt) \<noteq> Accepted"
  by (simp add: run_step_def handleInput_def handleYield_def)

lemma rw_step_NoInterleave:
  "rw_step w w' \<Longrightarrow> NoInterleave (rt_opts (rw_rt w)) \<Longrightarrow>
     \<forall>a. rw_phase w a \<notin> {Waiting, Resuming} \<Longrightarrow> \<forall>a. rw_phase w' a \<notin> {Waiting, Resuming}"
proof (induction rule: rw_step.induct)
  case (yield w a label rt')
  then show ?case using handleYield_NoInterleave [of "rw_rt w" a label] by simp
qed auto

lemma rw_reachable_NoInterleave:
  assumes "rw_reachable info opts w" and "NoInterleave opts"
  shows "rw_phase w a \<notin> {Waiting, Resuming}"
proof -
  from assms(1) obtain heap t d where "rw_step\<^sup>*\<^sup>* (rw_init (newServiceRuntime info opts heap t d)) w"
    by (auto simp: rw_reachable_def)
  then have "rt_opts (rw_rt w) = opts \<and> (\<forall>a. rw_phase w a \<notin> {Waiting, Resuming})"
  proof (induction rule: rtranclp_induct)
    case base
    then show ?case by (simp add: rw_init_def newServiceRuntime_def)
  next
    case (step u v)
    then show ?case using rw_step_opts rw_step_NoInterleave assms(2) by metis
  qed
  then show ?thesis by simp
qed

lemma run_step_grants:
  fixes rt :: "'a serviceRuntime"
  assumes "run_step inp rt = (rt', reply)"
  shows "\<exists>new. rt_grants rt' = new @ rt_grants rt"
proof -
  have top: "\<exists>new. rt_grants (loopTop rt) = new @ rt_grants rt" for rt :: "'a serviceRuntime"
    by (auto simp: loopTop_def schedule_def sendGrant_def updAct_def Let_def split: list.splits)
  have "rt_grants (fst (handleInput inp rt)) = rt_grants rt"
    by (auto simp: handleInput_def handleServiceDone_def refuseUnstarted_def
        handleEnqueue_def handleYield_def handleResume_def handleDone_def alloc_def updAct_def Let_def
        split: loop_input.splits runtimeEvent.splits)
  with assms top [of "fst (handleInput inp rt)"] show ?thesis
    by (auto simp: run_step_def split: prod.splits)
qed

lemma rw_step_grants: "rw_step w w' \<Longrightarrow> \<exists>new. rt_grants (rw_rt w') = new @ rt_grants (rw_rt w)"
proof (induction rule: rw_step.induct)
  case (complete w a fn)
  then show ?case by (simp add: execute_finish_def Let_def)
qed (auto simp: takeGrant_def NoYield_enter_def NoYield_exit_def updAct_def dest: run_step_grants)

lemma rw_steps_grants: "rw_step\<^sup>*\<^sup>* w w' \<Longrightarrow> \<exists>new. rt_grants (rw_rt w') = new @ rt_grants (rw_rt w)"
  by (induction rule: rtranclp_induct) (auto dest!: rw_step_grants)

subsection \<open>The theorems\<close>

lemma phase_ok:
  assumes "rw_reachable info opts w" and "rw_phase w a \<noteq> NotBegun"
  shows "act_ok (rw_rt w) (rw_phase w) a"
proof -
  note ok = rw_ok [OF rw_reachable_inv [OF assms(1)]]
  show ?thesis by (rule rt_okD [OF ok phase_lt [OF ok assms(2)]])
qed



text \<open>
  C2: no accepted request is lost and none is answered twice.  At any time an
  envelope the loop has received was answered at most once, by its handler or by a
  refusal; when the loop has returned each one was answered exactly once, no slot is
  held by an activation, and no handler is left inside the service.
\<close>

theorem answered_exactly_once:
  assumes "rw_reachable info opts w"
  shows "distinct (rt_answered (rw_rt w)) \<and> set (rt_answered (rw_rt w)) \<subseteq> {..<rt_next (rw_rt w)}
    \<and> (rt_done (rw_rt w) \<longrightarrow> set (rt_answered (rw_rt w)) = {..<rt_next (rw_rt w)}
         \<and> rt_slots (rw_rt w) = length (rw_inflight w)
         \<and> (\<forall>a < rt_next (rw_rt w). started (rw_rt w) a \<longrightarrow> rw_phase w a = Finished))"
proof -
  note inv = rw_reachable_inv [OF assms]
  note ok = rw_ok [OF inv]
  have sub: "set (rt_answered (rw_rt w)) \<subseteq> {..<rt_next (rw_rt w)}" using ok by (simp add: rt_ok_def)
  have here: "a \<in> set (rt_answered (rw_rt w)) \<and> (started (rw_rt w) a \<longrightarrow> rw_phase w a = Finished)"
    if d: "rt_done (rw_rt w)" and "a < rt_next (rw_rt w)" for a
    using rt_okD [OF ok that(2)] d inv
    by (auto simp: rw_inv_def rt_inv_def act_ok_simps split: phase.splits if_splits)
  moreover have "rt_slots (rw_rt w) = length (rw_inflight w)" if "rt_done (rw_rt w)"
    using that inv by (auto simp: rw_inv_def rt_inv_def rt_ok_def)
  ultimately show ?thesis using ok sub by (auto simp: rt_ok_def)
qed

theorem answered_exactly_once_witness:
  "rt_done (rw_rt (demo_after demo_stopped)) \<and> set (rt_answered (rw_rt (demo_after demo_stopped))) = {..<2}"
proof -
  have "rt_done (rw_rt (demo_after demo_stopped))" by code_simp
  moreover have "rt_next (rw_rt (demo_after demo_stopped)) = 2" by code_simp
  ultimately show ?thesis
    using answered_exactly_once [OF demo_reachable, of demo_opts demo_stopped] by simp
qed

text \<open>
  C17: the mailbox is bounded and never leaks or blocks.  The tokens in the slots
  channel are exactly the senders that have not emitted plus the queued activations
  that have not started, there are at most \<open>MailboxSize\<close> of them, at most
  \<open>MaxSuspended\<close> activations are suspended, and the loop never blocks on a slot or a
  grant channel.
\<close>

theorem mailbox_bounded:
  assumes "rw_reachable info opts w" and "0 < MailboxSize opts" and "0 < MaxSuspended opts"
  shows "rt_slots (rw_rt w) = length (rw_inflight w) + length (unstarted (rw_rt w) (rt_ready (rw_rt w)))
    \<and> int (rt_slots (rw_rt w)) \<le> MailboxSize opts
    \<and> int (card (rt_suspended (rw_rt w))) \<le> MaxSuspended opts
    \<and> \<not> rt_blocked (rw_rt w)"
  using rw_ok [OF rw_reachable_inv [OF assms(1)]] rw_reachable_opts [OF assms(1)] assms(2,3)
  by (simp add: rt_ok_def)

theorem mailbox_bounded_witness:
  "rt_slots (rw_rt (demo_after demo_two)) = 1 \<and> int (rt_slots (rw_rt (demo_after demo_two))) \<le> 2
   \<and> \<not> rt_blocked (rw_rt (demo_after demo_two))"
proof -
  have "rt_slots (rw_rt (demo_after demo_two)) = 1" by code_simp
  moreover have "0 < MailboxSize demo_opts" "0 < MaxSuspended demo_opts" "MailboxSize demo_opts = 2"
    by (simp_all add: demo_opts_def)
  ultimately show ?thesis
    using mailbox_bounded [OF demo_reachable, of demo_opts demo_two] by simp
qed



text \<open>
  C18: a \<open>NoInterleave\<close> service runs each handler from start to end.  No handler is
  ever suspended, every activation gets exactly one turn, so between the start of a handler
  and its completion no other handler of the service runs, and no mark ever sees an
  interleaving.
\<close>

theorem no_interleave_runs_to_completion:
  assumes "rw_reachable info opts w" and "NoInterleave opts"
  shows "rt_suspended (rw_rt w) = {} \<and> distinct (rt_grants (rw_rt w))
    \<and> (\<forall>a. rw_phase w a \<noteq> Waiting \<and> rw_phase w a \<noteq> Resuming)
    \<and> (\<forall>a < rt_next (rw_rt w). act_interleaveVersion (rt_acts (rw_rt w) a) = 0)"
proof -
  have ni: "NoInterleave (rt_opts (rw_rt w))" using rw_reachable_opts [OF assms(1)] assms(2) by simp
  note t = turn_invD [OF rw_reachable_turn [OF assms(1)]]
  have "switches a xs = 0" if "distinct xs" for a and xs :: "nat list"
    using that by (induction xs) auto
  then have "\<forall>a < rt_next (rw_rt w). act_interleaveVersion (rt_acts (rw_rt w) a) = 0"
    using t(5) t(9) [OF ni] by simp
  moreover have "rt_suspended (rw_rt w) = {}"
    using rw_ok [OF rw_reachable_inv [OF assms(1)]] ni by (simp add: rt_ok_def)
  ultimately show ?thesis
    using t(9) [OF ni] rw_reachable_NoInterleave [OF assms] by auto
qed

theorem no_interleave_runs_to_completion_witness:
  "NoInterleave solo_opts \<and> rw_phase (example_after solo_opts demo_stopped) 0 = Finished
   \<and> distinct (rt_grants (rw_rt (example_after solo_opts demo_stopped)))"
proof -
  have "NoInterleave solo_opts" by (simp add: solo_opts_def)
  moreover have "rw_phase (example_after solo_opts demo_stopped) 0 = Finished" by code_simp
  ultimately show ?thesis
    using no_interleave_runs_to_completion [OF demo_reachable, of solo_opts demo_stopped] by simp
qed

text \<open>
  Handlers start in mailbox order.  If a request has started then every request
  that the loop received before it has started.
\<close>

theorem started_in_order:
  assumes "rw_reachable info opts w" and "started (rw_rt w) b" and "b < rt_next (rw_rt w)" and "a < b"
  shows "started (rw_rt w) a"
  using turn_invD(8) [OF rw_reachable_turn [OF assms(1)]] assms(2-4) by blast

theorem started_in_order_witness:
  "started (rw_rt (demo_after demo_interleaved)) 1 \<and> started (rw_rt (demo_after demo_interleaved)) 0"
proof -
  have one: "started (rw_rt (demo_after demo_interleaved)) 1" by code_simp
  have "1 < rt_next (rw_rt (demo_after demo_interleaved))" by code_simp
  with one started_in_order [OF demo_reachable, of demo_opts demo_interleaved 1 0] show ?thesis by simp
qed

text \<open>
  An accepted yield is always given its turn back.  The runtime never returns while
  a handler is waiting, resuming, running or finishing, so that \<open>Await\<close> never reports
  \<open>ErrServiceStopping\<close> after its yield was accepted and no \<open>eventDone\<close> is dropped.
\<close>

theorem runtime_outlives_handlers:
  assumes "rw_reachable info opts w" and "rt_done (rw_rt w)"
  shows "rw_phase w a = NotBegun \<or> rw_phase w a = Finished"
  using rt_inv_done [of "rw_rt w" "rw_phase w" _ a] rw_reachable_inv [OF assms(1)] assms(2)
  by (auto simp: rw_inv_def)

theorem runtime_outlives_handlers_witness:
  "rt_done (rw_rt (demo_after demo_stopped))
   \<and> (\<forall>a. rw_phase (demo_after demo_stopped) a = NotBegun \<or> rw_phase (demo_after demo_stopped) a = Finished)"
proof -
  have "rt_done (rw_rt (demo_after demo_stopped))" by code_simp
  with runtime_outlives_handlers [OF demo_reachable, of demo_opts demo_stopped] show ?thesis by blast
qed

text \<open>
  No wake-up is lost.  Whenever an activation is queued, some activation holds the
  turn, and its handler either runs or has a grant it can take.
\<close>

theorem queued_work_has_a_runner:
  assumes "rw_reachable info opts w" and "rt_ready (rw_rt w) \<noteq> []"
  shows "\<exists>a. rt_current (rw_rt w) = Some a \<and> started (rw_rt w) a
    \<and> (rw_phase w a \<in> {Running, Completed}
       \<or> rw_phase w a \<in> {NotBegun, Resuming} \<and> act_grant (rt_acts (rw_rt w) a) = 1)"
proof -
  note inv = rw_reachable_inv [OF assms(1)]
  have "rt_current (rw_rt w) \<noteq> None" using inv assms(2) by (auto simp: rw_inv_def rt_inv_def)
  then obtain a where "rt_current (rw_rt w) = Some a" by auto
  with current_phase(2,3) [OF inv this] show ?thesis by auto
qed

theorem queued_work_has_a_runner_witness:
  "rt_ready (rw_rt (demo_after demo_two)) = [1] \<and> (\<exists>a. rt_current (rw_rt (demo_after demo_two)) = Some a)"
proof -
  have "rt_ready (rw_rt (demo_after demo_two)) = [1]" by code_simp
  with queued_work_has_a_runner [OF demo_reachable, of demo_opts demo_two] show ?thesis by auto
qed

text \<open>
  C9: a stopping service can always finish.  From every reachable world of a service
  whose stop was seen by the loop there is a continuation in which the loop returns: no
  interleaving of yields, resumes, queued requests and senders is a deadlock.
\<close>

theorem shutdown_can_complete:
  assumes "rw_reachable info opts w" and "rt_stopping (rw_rt w)"
  shows "\<exists>w'. rw_step\<^sup>*\<^sup>* w w' \<and> rt_done (rw_rt w')"
  using stopping_completes [OF rw_reachable_inv [OF assms(1)] assms(2)] .

theorem shutdown_can_complete_witness:
  "rt_stopping (rw_rt (demo_after (demo_two @ [MStop])))
   \<and> (\<exists>w'. rw_step\<^sup>*\<^sup>* (demo_after (demo_two @ [MStop])) w' \<and> rt_done (rw_rt w'))"
proof -
  have "rt_stopping (rw_rt (demo_after (demo_two @ [MStop])))" by code_simp
  with shutdown_can_complete [OF demo_reachable, of demo_opts "demo_two @ [MStop]"] show ?thesis by simp
qed

end
