(* ===== verification/Actor_Call.thy ===== *)
theory Actor_Call
  imports Actor_Examples
begin

text \<open>
  The caller's side: \<open>Call\<close>, \<open>Send\<close> and \<open>TrySend\<close> of \<open>actor/system.go\<close>, admission and
  the mailbox calls of \<open>actor/system_runtime.go\<close>, the remote variants of
  \<open>actor/remote.go\<close>, and the argument helpers of \<open>actor/args.go\<close>.  A call is cut where it
  waits: everything up to the wait is a function here, the wait itself is
  \<open>callWait\<close> (theory \<open>Actor_Session\<close>) and the scheduler (theory \<open>Actor_Runtime\<close>).
  \<open>systems\<close> is the store of systems a reference's system pointer refers to, \<open>acts\<close>
  that of activations.
\<close>

subsection \<open>Routing\<close>

record CallEvent =
  ce_Caller :: string
  ce_Callee :: string
  ce_Protocol :: string
  ce_Err :: "go_error option"

text \<open>
  What a call comes to before it waits: an error (with the event the observer
  gets, if any), a mailbox call from outside any handler, or a mailbox call inside an
  await of the calling activation.
\<close>

datatype 'v call_plan =
    CallFails go_error "CallEvent option"
  | CallDirect nat nat "'v handlerEntry"
  | CallAwait nat string nat nat "'v handlerEntry"

definition callerName :: "(nat \<Rightarrow> 'v serviceActivation) \<Rightarrow> nat option \<Rightarrow> string" where
  "callerName acts act =
     (case act of
        None \<Rightarrow> ''<external>''
      | Some a \<Rightarrow> (case act_owner (acts a) of None \<Rightarrow> ''<external>'' | Some info \<Rightarrow> si_name info))"

definition Call ::
  "(nat \<Rightarrow> 'v System) \<Rightarrow> (nat \<Rightarrow> 'v serviceActivation) \<Rightarrow> go_context option \<Rightarrow> Ref \<Rightarrow> string \<Rightarrow>
     'v call_plan" where
  "Call systems acts ctx ref protocol =
     (case ctx of
        None \<Rightarrow> CallFails (Wrap ErrInvalidArgs ''nil context'') None
      | Some _ \<Rightarrow>
          (case ref_system ref of
             None \<Rightarrow> CallFails ErrStaleRef None
           | Some s \<Rightarrow>
               let sys = systems s in
               if \<not> ref_valid ref then CallFails ErrStaleRef None
               else case service ref sys of
                 Inl err \<Rightarrow> CallFails err None
               | Inr p \<Rightarrow>
                   let svc = svcAt sys p;
                       act = activationFromContext ctx;
                       observe = (\<lambda>err. Some \<lparr>ce_Caller = callerName acts act,
                          ce_Callee = svc_name svc, ce_Protocol = protocol, ce_Err = Some err\<rparr>)
                   in case handler svc protocol of
                     Inl err \<Rightarrow> CallFails err (observe err)
                   | Inr h \<Rightarrow>
                       let node = nodeID sys in
                       if (case act of None \<Rightarrow> True | Some a \<Rightarrow> act_noYield (acts a) = 0)
                          \<and> NoInterleave (svc_opts svc) \<and> callPathContains ctx node (svc_name svc)
                       then let err = Wrap ErrCallCycle
                                  (formatCallCycle ctx node (svc_name svc) protocol)
                            in CallFails err (observe err)
                       else case act of
                         Some a \<Rightarrow> CallAwait a (svc_name svc @ ''.'' @ protocol) s p h
                       | None \<Rightarrow> CallDirect s p h))"

text \<open>\<open>Send\<close> and \<open>TrySend\<close> up to their mailbox call; the two differ only in admission.\<close>

definition Send ::
  "(nat \<Rightarrow> 'v System) \<Rightarrow> go_context option \<Rightarrow> Ref \<Rightarrow> string \<Rightarrow> (nat \<times> nat \<times> 'v handlerEntry) result" where
  "Send systems ctx ref protocol =
     (case ctx of
        None \<Rightarrow> Inl (Wrap ErrInvalidArgs ''nil context'')
      | Some _ \<Rightarrow>
          (case ref_system ref of
             None \<Rightarrow> Inl ErrStaleRef
           | Some s \<Rightarrow>
               if \<not> ref_valid ref then Inl ErrStaleRef
               else case service ref (systems s) of
                 Inl err \<Rightarrow> Inl err
               | Inr p \<Rightarrow> (case handler (svcAt (systems s) p) protocol of
                     Inl err \<Rightarrow> Inl err
                   | Inr h \<Rightarrow> Inr (s, p, h))))"

subsection \<open>Admission\<close>

text \<open>
  Which case of the select in \<open>admit\<close> fires, and whether the emit that follows a
  taken slot meets a running loop.
\<close>

datatype admit_event = SlotTaken bool | AdmissionTimer | AdmitCtxDone ctx_error | AdmitServiceDone

text \<open>
  \<open>admit\<close> on the tracker and the slot count.  The deferred \<open>finishTracked\<close> runs when
  the envelope was not admitted.
\<close>

definition notAdmitted ::
  "go_error \<Rightarrow> drainTracker option \<Rightarrow> 'v serviceEnvelope \<Rightarrow> nat \<Rightarrow>
     go_error option \<times> drainTracker option \<times> 'v serviceEnvelope \<times> nat" where
  "notAdmitted err drain env slots =
     (let (drain, env, _) = finishTracked drain env None False in (Some err, drain, env, slots))"

definition emitEnqueue ::
  "bool \<Rightarrow> drainTracker option \<Rightarrow> 'v serviceEnvelope \<Rightarrow> nat \<Rightarrow>
     go_error option \<times> drainTracker option \<times> 'v serviceEnvelope \<times> nat" where
  "emitEnqueue running drain env slots =
     (if running then (None, drain, env, slots)
      else if env_slotHeld env
      then notAdmitted ErrServiceStopping drain (env\<lparr>env_slotHeld := False\<rparr>) (slots - 1)
      else notAdmitted ErrServiceStopping drain env slots)"

definition admit ::
  "nat \<Rightarrow> (nat \<Rightarrow> 'v serviceActivation) \<Rightarrow> go_context option \<Rightarrow> 'v serviceEnvelope \<Rightarrow> admit_event \<Rightarrow>
     drainTracker option \<Rightarrow> nat \<Rightarrow> go_error option \<times> drainTracker option \<times> 'v serviceEnvelope \<times> nat" where
  "admit s acts ctx env ev drain slots =
     (case trackAdmission s acts drain ctx env of
        Inl err \<Rightarrow> (Some err, drain, env, slots)
      | Inr (drain, env) \<Rightarrow>
          (case ev of
             SlotTaken running \<Rightarrow> emitEnqueue running drain (env\<lparr>env_slotHeld := True\<rparr>) (slots + 1)
           | AdmissionTimer \<Rightarrow> notAdmitted ErrMailboxTimeout drain env slots
           | AdmitCtxDone e \<Rightarrow> notAdmitted (ErrCtx e) drain env slots
           | AdmitServiceDone \<Rightarrow> notAdmitted ErrServiceStopping drain env slots))"

text \<open>\<open>tryAdmit\<close>: \<open>capacity\<close> is that of the slots channel.\<close>

definition tryAdmit ::
  "nat \<Rightarrow> (nat \<Rightarrow> 'v serviceActivation) \<Rightarrow> 'v serviceEnvelope \<Rightarrow> nat \<Rightarrow> bool \<Rightarrow>
     drainTracker option \<Rightarrow> nat \<Rightarrow> go_error option \<times> drainTracker option \<times> 'v serviceEnvelope \<times> nat" where
  "tryAdmit s acts env capacity running drain slots =
     (case trackAdmission s acts drain (env_ctx env) env of
        Inl err \<Rightarrow> (Some err, drain, env, slots)
      | Inr (drain, env) \<Rightarrow>
          if slots < capacity
          then emitEnqueue running drain (env\<lparr>env_slotHeld := True\<rparr>) (slots + 1)
          else notAdmitted ErrMailboxFull drain env slots)"

subsection \<open>Mailbox calls\<close>

text \<open>
  \<open>callMailbox\<close> up to its final select: pack, open a session, admit.  The result is
  the session to wait for, or the error the call returns.
\<close>

definition callMailbox ::
  "nat \<Rightarrow> (nat \<Rightarrow> 'v serviceActivation) \<Rightarrow> go_context option \<Rightarrow> string \<Rightarrow> 'v handlerEntry \<Rightarrow> 'v list \<Rightarrow>
     admit_event \<Rightarrow> drainTracker option \<times> nat \<times> 'v sessionTable \<Rightarrow>
     (nat \<times> 'v serviceEnvelope) result \<times> drainTracker option \<times> nat \<times> 'v sessionTable" where
  "callMailbox s acts ctx protocol h args ev st =
     (case st of (drain, slots, t) \<Rightarrow>
      (case PackRequest (h_codec h) args of
         Inl e \<Rightarrow> (Inl (Wrap ErrCodec ''request''), drain, slots, t)
       | Inr request \<Rightarrow>
           let (session, t) = nextSessionID t;
               t = registerSession session t;
               env = \<lparr>env_drainTracked = False, env_ctx = ctx, env_session = session,
                      env_protocol = protocol, env_handler = h, env_request = request,
                      env_expectsResponse = True, env_slotHeld = False\<rparr>
           in case admit s acts ctx env ev drain slots of
                (Some err, drain, env, slots) \<Rightarrow> (Inl err, drain, slots, snd (cancelSession session t))
              | (None, drain, env, slots) \<Rightarrow> (Inr (session, env), drain, slots, t)))"

definition notifyEnvelope ::
  "go_context option \<Rightarrow> string \<Rightarrow> 'v handlerEntry \<Rightarrow> 'v Message \<Rightarrow> 'v serviceEnvelope" where
  "notifyEnvelope ctx protocol h request =
     \<lparr>env_drainTracked = False, env_ctx = ctx, env_session = 0, env_protocol = protocol,
      env_handler = h, env_request = request, env_expectsResponse = False, env_slotHeld = False\<rparr>"

definition sendMailbox ::
  "nat \<Rightarrow> (nat \<Rightarrow> 'v serviceActivation) \<Rightarrow> go_context option \<Rightarrow> string \<Rightarrow> 'v handlerEntry \<Rightarrow> 'v list \<Rightarrow>
     admit_event \<Rightarrow> drainTracker option \<Rightarrow> nat \<Rightarrow> go_error option \<times> drainTracker option \<times> nat" where
  "sendMailbox s acts ctx protocol h args ev drain slots =
     (case PackRequest (h_codec h) args of
        Inl e \<Rightarrow> (Some (Wrap ErrCodec ''request''), drain, slots)
      | Inr request \<Rightarrow>
          (case admit s acts ctx (notifyEnvelope ctx protocol h request) ev drain slots of
             (err, drain, _, slots) \<Rightarrow> (err, drain, slots)))"

definition trySendMailbox ::
  "nat \<Rightarrow> (nat \<Rightarrow> 'v serviceActivation) \<Rightarrow> go_context option \<Rightarrow> string \<Rightarrow> 'v handlerEntry \<Rightarrow> 'v list \<Rightarrow>
     nat \<Rightarrow> bool \<Rightarrow> drainTracker option \<Rightarrow> nat \<Rightarrow> go_error option \<times> drainTracker option \<times> nat" where
  "trySendMailbox s acts ctx protocol h args capacity running drain slots =
     (case PackRequest (h_codec h) args of
        Inl e \<Rightarrow> (Some (Wrap ErrCodec ''request''), drain, slots)
      | Inr request \<Rightarrow>
          (case tryAdmit s acts (notifyEnvelope ctx protocol h request) capacity running drain slots of
             (err, drain, _, slots) \<Rightarrow> (err, drain, slots)))"

subsection \<open>Remote calls\<close>

text \<open>
  A codec that also encodes to bytes (\<open>WireCodec\<close>); \<open>wireOf h\<close> is the type assertion
  on the handler's codec, none when the handler is registered with another codec.
\<close>

record 'v WireCodec =
  Fingerprint :: string
  MarshalRequest :: "'v list \<Rightarrow> nat list result"
  UnmarshalRequest :: "nat list \<Rightarrow> 'v list result"
  MarshalResponse :: "'v \<Rightarrow> nat list result"
  UnmarshalResponse :: "nat list \<Rightarrow> 'v result"

text \<open>What \<open>callRemote\<close> and \<open>sendRemote\<close> hand to the transport.\<close>

record transport_request =
  tr_target :: RemoteTarget
  tr_protocol :: string
  tr_fingerprint :: string
  tr_payload :: "nat list"
  tr_path :: "CallFrame list"

definition remoteRequest ::
  "'v System \<Rightarrow> go_context option \<Rightarrow> Ref \<Rightarrow> string \<Rightarrow> 'v WireCodec \<Rightarrow> 'v list \<Rightarrow> transport_request result" where
  "remoteRequest sys ctx ref protocol codec args =
     (if ctx = None then Inl (Wrap ErrInvalidArgs ''nil context'')
      else case (sys_remote sys, ref_remote ref) of
        (True, Some target) \<Rightarrow>
          (case MarshalRequest codec args of
             Inl e \<Rightarrow> Inl (Wrap ErrCodec ''request'')
           | Inr payload \<Rightarrow> Inr \<lparr>tr_target = target, tr_protocol = protocol,
               tr_fingerprint = Fingerprint codec, tr_payload = payload, tr_path = CallPath ctx\<rparr>)
      | _ \<Rightarrow> Inl ErrRemoteUnavailable)"

text \<open>
  \<open>callRemote\<close> from the transport's answer on, and the await plan in front of it.
\<close>

definition callRemote_plan ::
  "(nat \<Rightarrow> 'v serviceActivation) \<Rightarrow> go_context option \<Rightarrow> await_plan" where
  "callRemote_plan acts ctx =
     (case activationFromContext ctx of None \<Rightarrow> AwaitDirect | Some a \<Rightarrow> awaitActivationTyped (acts a))"

definition callRemote_answer :: "'v WireCodec \<Rightarrow> nat list result \<Rightarrow> 'v result" where
  "callRemote_answer codec response =
     (case response of
        Inl e \<Rightarrow> Inl e
      | Inr bytes \<Rightarrow> (case UnmarshalResponse codec bytes of
            Inl e \<Rightarrow> Inl (Wrap ErrCodec ''response'')
          | Inr v \<Rightarrow> Inr v))"

text \<open>
  \<open>DispatchRemoteAsync\<close> up to the admission of the request: the service and handler
  it is for and the decoded arguments, or the error returned to the peer.
\<close>

definition DispatchRemote_check ::
  "('v handlerEntry \<Rightarrow> 'v WireCodec option) \<Rightarrow> 'v System \<Rightarrow> go_context option \<Rightarrow> RemoteTarget \<Rightarrow>
     string \<Rightarrow> string \<Rightarrow> nat list \<Rightarrow> bool \<Rightarrow> (nat \<times> 'v handlerEntry \<times> 'v WireCodec \<times> 'v list) result" where
  "DispatchRemote_check wireOf sys ctx target protocol fingerprint payload notify =
     (if tgt_Node target \<noteq> '''' \<and> nodeID sys \<noteq> '''' \<and> tgt_Node target \<noteq> nodeID sys then Inl ErrStaleRef
      else
        let ref = \<lparr>ref_Address = tgt_Address target, ref_Generation = tgt_Generation target,
                   ref_system = Some (sys_id sys), ref_remote = None\<rparr>
        in case service ref sys of
          Inl err \<Rightarrow> Inl err
        | Inr p \<Rightarrow>
            let svc = svcAt sys p in
            case handler svc protocol of
              Inl err \<Rightarrow> Inl err
            | Inr h \<Rightarrow>
                (case wireOf h of
                   None \<Rightarrow> Inl (Wrap ErrProtocolTypeMismatch
                             (''service='' @ svc_name svc @ '' protocol='' @ protocol))
                 | Some wire \<Rightarrow>
                     if Fingerprint wire \<noteq> fingerprint
                     then Inl (Wrap ErrProtocolTypeMismatch
                             (''service='' @ svc_name svc @ '' protocol='' @ protocol))
                     else case UnmarshalRequest wire payload of
                       Inl e \<Rightarrow> Inl (Wrap ErrCodec ''request'')
                     | Inr args \<Rightarrow>
                         if notify then Inr (p, h, wire, args)
                         else if NoInterleave (svc_opts svc)
                                 \<and> callPathContains ctx (nodeID sys) (svc_name svc)
                         then Inl (Wrap ErrCallCycle
                                (formatCallCycle ctx (nodeID sys) (svc_name svc) protocol))
                         else Inr (p, h, wire, args)))"

text \<open>
  Its session and admission for a call.  The session is opened before the request is
  packed, unlike in \<open>callMailbox\<close>.
\<close>

definition DispatchRemote_admit ::
  "nat \<Rightarrow> (nat \<Rightarrow> 'v serviceActivation) \<Rightarrow> go_context option \<Rightarrow> string \<Rightarrow> 'v handlerEntry \<Rightarrow> 'v list \<Rightarrow>
     admit_event \<Rightarrow> drainTracker option \<times> nat \<times> 'v sessionTable \<Rightarrow>
     (nat \<times> 'v serviceEnvelope) result \<times> drainTracker option \<times> nat \<times> 'v sessionTable" where
  "DispatchRemote_admit s acts ctx protocol h args ev st =
     (case st of (drain, slots, t) \<Rightarrow>
      let (session, t) = nextSessionID t;
          t = registerSession session t
      in case PackRequest (h_codec h) args of
           Inl e \<Rightarrow> (Inl (Wrap ErrCodec ''request''), drain, slots, snd (cancelSession session t))
         | Inr request \<Rightarrow>
             let env = \<lparr>env_drainTracked = False, env_ctx = ctx, env_session = session,
                        env_protocol = protocol, env_handler = h, env_request = request,
                        env_expectsResponse = True, env_slotHeld = False\<rparr>
             in case admit s acts ctx env ev drain slots of
                  (Some err, drain, env, slots) \<Rightarrow> (Inl err, drain, slots, snd (cancelSession session t))
                | (None, drain, env, slots) \<Rightarrow> (Inr (session, env), drain, slots, t))"

text \<open>The tail of its goroutine: the result that the future delivers.\<close>

definition RemoteResult :: "'v handlerEntry \<Rightarrow> 'v WireCodec \<Rightarrow> 'v callResult \<Rightarrow> nat list result" where
  "RemoteResult h wire r =
     (case unpackCallResult h r of
        Inl e \<Rightarrow> Inl e
      | Inr v \<Rightarrow> (case MarshalResponse wire v of
            Inl e \<Rightarrow> Inl (Wrap ErrCodec ''response'')
          | Inr bytes \<Rightarrow> Inr bytes))"

subsection \<open>Dynamic arguments\<close>

definition RequireArgs :: "'v list \<Rightarrow> int \<Rightarrow> unit result" where
  "RequireArgs args count =
     (if int (length args) \<noteq> count then Inl (Wrap ErrInvalidArgs
       (''got '' @ show_nat (length args) @ '' arguments, want '' @ show_int count)) else Inr ())"

text \<open>\<open>Arg\<close>; \<open>asserts\<close> is the type assertion to the wanted type.\<close>

definition Arg :: "('v \<Rightarrow> 'a option) \<Rightarrow> 'v list \<Rightarrow> int \<Rightarrow> 'a result" where
  "Arg asserts args index =
     (if index < 0 \<or> index \<ge> int (length args) then Inl (Wrap ErrInvalidArgs
       (''argument '' @ show_int index @ '' is missing''))
      else case asserts (args ! nat index) of
             None \<Rightarrow> Inl (Wrap ErrInvalidArgs (''argument '' @ show_int index @ '' has type''))
           | Some v \<Rightarrow> Inr v)"

text \<open>A wire codec for the example service.\<close>

definition demo_wire :: "unit WireCodec" where
  "demo_wire = \<lparr>Fingerprint = ''unit'', MarshalRequest = (\<lambda>args. Inr (map (\<lambda>_. 0) args)),
     UnmarshalRequest = (\<lambda>bytes. Inr (map (\<lambda>_. ()) bytes)), MarshalResponse = (\<lambda>_. Inr []),
     UnmarshalResponse = (\<lambda>_. Inr ())\<rparr>"

subsection \<open>Contexts of a call chain\<close>

text \<open>
  The contexts that code running on behalf of a handler can hold: the handler's own
  context, the contexts of the handlers it calls (the callee's envelope carries the
  caller's context), contexts rebuilt on another node from a transmitted path, and
  whatever the application derives without touching the runtime's private key.
\<close>

inductive on_behalf :: "CallFrame \<Rightarrow> go_context \<Rightarrow> bool" for f where
  own: "on_behalf f (handlerContext (WithoutCancel base) a f)"
| callee: "on_behalf f ctx \<Longrightarrow> on_behalf f (handlerContext (WithoutCancel ctx) a g)"
| hop: "on_behalf f ctx \<Longrightarrow> on_behalf f (WithCallPath base (CallPath (Some ctx)))"
| derived: "on_behalf f ctx \<Longrightarrow> ctx_actor ctx' = ctx_actor ctx \<Longrightarrow> on_behalf f ctx'"

text \<open>The first two rules are what \<open>execute\<close> does.\<close>

lemma on_behalf_execute:
  "on_behalf \<lparr>frame_Node = node, frame_Service = si_name info, frame_Protocol = env_protocol env\<rparr>
     (executeContext node info a env)"
  "on_behalf f ctx \<Longrightarrow> env_ctx env = Some ctx \<Longrightarrow> on_behalf f (executeContext node info a env)"
  by (auto simp: executeContext_def intro: on_behalf.own on_behalf.callee)

lemma CallPath_background: "CallPath (Some background) = []"
  by (simp add: CallPath_def actorState_def background_def)

lemma on_behalf_path: "on_behalf f ctx \<Longrightarrow> f \<in> set (CallPath (Some ctx))"
proof (induction rule: on_behalf.induct)
  case (derived ctx ctx')
  then show ?case by (simp add: CallPath_def actorState_def)
qed auto

lemma on_behalf_contains:
  "on_behalf f ctx \<Longrightarrow> callPathContains (Some ctx) (frame_Node f) (frame_Service f)"
  by (auto simp: callPathContains_iff dest: on_behalf_path)

subsection \<open>Admission is balanced\<close>

lemma trackAdmission_None [simp]: "trackAdmission s acts None ctx env = Inr (None, env)"
  by (simp add: trackAdmission_def)

lemma trackAdmission_slotHeld:
  "trackAdmission s acts drain ctx env = Inr (drain', env') \<Longrightarrow> env_slotHeld env' = env_slotHeld env"
  by (auto simp: trackAdmission_def Let_def split: option.splits if_splits)

lemma notAdmitted_tracks:
  assumes "tracks d (Suc n)" and "env_drainTracked env"
  shows "\<exists>d' env'. notAdmitted err (Some d) env slots = (Some err, Some d', env', slots) \<and> tracks d' n"
  using finishTracked_tracked [OF assms, of None False] by (auto simp: notAdmitted_def)

lemma emitEnqueue_tracks:
  assumes "tracks d (Suc n)" and "env_drainTracked env" and "env_slotHeld env"
  shows "(if running then \<exists>d' env'. emitEnqueue running (Some d) env (Suc slots) = (None, Some d', env', Suc slots)
             \<and> tracks d' (Suc n)
          else \<exists>d' env'. emitEnqueue running (Some d) env (Suc slots) = (Some ErrServiceStopping, Some d', env', slots)
             \<and> tracks d' n)"
  using assms notAdmitted_tracks [OF assms(1), of "env\<lparr>env_slotHeld := False\<rparr>"]
  by (auto simp: emitEnqueue_def)

lemma admit_balance:
  assumes "tracks d n" and "admit s acts ctx env ev (Some d) slots = (err, drain', env', slots')"
  shows "\<exists>d'. drain' = Some d' \<and>
    (if err = None then tracks d' (Suc n) \<and> slots' = Suc slots \<and> env_slotHeld env' \<and> env_drainTracked env'
     else tracks d' n \<and> slots' = slots)"
proof (cases "trackAdmission s acts (Some d) ctx env")
  case (Inl e)
  with assms show ?thesis by (auto simp: admit_def)
next
  case (Inr r)
  then obtain dr env1 where r: "r = (dr, env1)" by (cases r)
  from trackAdmission_tracks [OF assms(1) Inr [unfolded r]] obtain d1 where
    d1: "dr = Some d1" "tracks d1 (Suc n)" "env_drainTracked env1" by auto
  have refused: ?thesis if "notAdmitted e (Some d1) env1 slots = (err, drain', env', slots')" for e
    using notAdmitted_tracks [OF d1(2,3), of e slots] that by auto
  show ?thesis
  proof (cases ev)
    case (SlotTaken running)
    let ?env = "env1\<lparr>env_slotHeld := True\<rparr>"
    have "admit s acts ctx env ev (Some d) slots = emitEnqueue running (Some d1) ?env (Suc slots)"
      using Inr r d1 SlotTaken by (simp add: admit_def)
    with assms(2) emitEnqueue_tracks [OF d1(2), of ?env running slots] d1 show ?thesis
      by (cases running) (auto simp: emitEnqueue_def)
  qed (use assms(2) Inr r d1 refused in \<open>simp_all add: admit_def\<close>)
qed

subsection \<open>The theorems\<close>



lemma service_not_cycle: "service ref sys = Inl e \<Longrightarrow> \<not> errors_Is e ErrCallCycle"
  by (auto simp: service_def split: if_splits option.splits serviceState.splits)

lemma handler_not_cycle: "handler svc protocol = Inl e \<Longrightarrow> \<not> errors_Is e ErrCallCycle"
  by (auto simp: handler_def split: option.splits)

text \<open>
  Only genuine cycles are rejected.  When \<open>Call\<close> reports \<open>ErrCallCycle\<close>, the target
  does not interleave and a handler of that very service on that very node is on the
  call path; an ordinary service is never refused for re-entrance.
\<close>

theorem call_cycle_is_genuine:
  assumes "Call systems acts ctx ref protocol = CallFails e event" and "errors_Is e ErrCallCycle"
  shows "\<exists>s p f. ref_system ref = Some s \<and> service ref (systems s) = Inr p
    \<and> NoInterleave (svc_opts (svcAt (systems s) p))
    \<and> f \<in> set (CallPath ctx) \<and> frame_Node f = nodeID (systems s)
    \<and> frame_Service f = svc_name (svcAt (systems s) p)"
proof -
  from assms(1) obtain c where c: "ctx = Some c"
    using assms(2) by (cases ctx) (auto simp: Call_def)
  from assms obtain s where s: "ref_system ref = Some s" "ref_valid ref"
    by (cases "ref_system ref") (auto simp: Call_def c Let_def split: if_splits)
  from assms obtain p where p: "service ref (systems s) = Inr p"
    by (cases "service ref (systems s)") (auto simp: Call_def c s Let_def dest: service_not_cycle)
  from assms obtain h where h: "handler (svcAt (systems s) p) protocol = Inr h"
    by (cases "handler (svcAt (systems s) p) protocol")
      (auto simp: Call_def c s p Let_def dest: handler_not_cycle)
  from assms(1) have "NoInterleave (svc_opts (svcAt (systems s) p))
      \<and> callPathContains ctx (nodeID (systems s)) (svc_name (svcAt (systems s) p))"
    by (auto simp: Call_def c s p h Let_def split: if_splits option.splits)
  then show ?thesis using s p by (auto simp: callPathContains_iff)
qed

theorem call_cycle_is_genuine_witness:
  "\<exists>s p f. ref_system demo_ref = Some s \<and> service demo_ref (demo_system solo_opts) = Inr p
    \<and> NoInterleave (svc_opts (svcAt (demo_system solo_opts) p))
    \<and> f \<in> set (CallPath (Some (executeContext ''n1'' (example_info solo_opts) 0 demo_env)))
    \<and> frame_Node f = nodeID (demo_system solo_opts)
    \<and> frame_Service f = svc_name (svcAt (demo_system solo_opts) p)"
proof -
  let ?c = "Some (executeContext ''n1'' (example_info solo_opts) 0 demo_env)"
  have "\<exists>e ev. Call (\<lambda>_. demo_system solo_opts) (\<lambda>_. newActivation None demo_env) ?c demo_ref ''ping''
      = CallFails e ev \<and> errors_Is e ErrCallCycle"
    by (simp add: demo_ref_def Call_def demo_system_def Reserve_def Reserve_check_def Reserve_locked_def
        NewSystem_def Let_def handle_def Start_def updSvc_def handler_def ref_valid_def service_def
        nodeID_def callPathContains_def CallPath_background example_info_def demo_env_def
        newActivation_def executeContext_def solo_opts_def demo_opts_def withDefaults_def)
  then show ?thesis using call_cycle_is_genuine by blast
qed

text \<open>
  A \<open>NoYield\<close> section sends nothing.  A call made by an activation inside such a
  section goes to an await of that activation, which refuses it with
  \<open>ErrYieldForbidden\<close>; this takes precedence over the cycle check.
\<close>

theorem no_yield_refuses_calls:
  assumes "activationFromContext ctx = Some a" and "act_noYield (acts a) > 0"
    and "ref_system ref = Some s" and "service ref (systems s) = Inr p"
    and "handler (svcAt (systems s) p) protocol = Inr h"
  shows "Call systems acts ctx ref protocol =
      CallAwait a (svc_name (svcAt (systems s) p) @ ''.'' @ protocol) s p h
    \<and> awaitActivationTyped (acts a) = AwaitFail ErrYieldForbidden"
proof -
  have "ref_valid ref" using assms(4) by (auto simp: service_def split: if_splits)
  moreover obtain c where "ctx = Some c"
    using assms(1) by (cases ctx) (auto simp: activationFromContext_def)
  ultimately show ?thesis
    using assms by (auto simp: Call_def Let_def awaitActivationTyped_def)
qed

theorem no_yield_refuses_calls_witness:
  "Call (\<lambda>_. demo_system solo_opts) (\<lambda>_. (newActivation None demo_env)\<lparr>act_noYield := 1\<rparr>)
      (Some demo_ctx) demo_ref ''ping'' =
      CallAwait 0 ''demo.ping'' 0 0 \<lparr>h_codec = demo_codec, h_descriptor = None\<rparr>
   \<and> awaitActivationTyped ((newActivation None demo_env)\<lparr>act_noYield := 1\<rparr>) = AwaitFail ErrYieldForbidden"
proof -
  let ?acts = "\<lambda>_ :: nat. (newActivation None demo_env)\<lparr>act_noYield := 1\<rparr>"
  have h: "handler (svcAt (demo_system solo_opts) 0) ''ping'' = Inr \<lparr>h_codec = demo_codec, h_descriptor = None\<rparr>"
    and nm: "svc_name (svcAt (demo_system solo_opts) 0) = ''demo''"
    by (simp_all add: demo_system_def Reserve_def Reserve_check_def Reserve_locked_def NewSystem_def Let_def
        handle_def Start_def updSvc_def handler_def)
  have sv: "service demo_ref (demo_system solo_opts) = Inr 0" by code_simp
  have "activationFromContext (Some demo_ctx) = Some 0" by (simp add: demo_ctx_def executeContext_def)
  moreover have "act_noYield (?acts 0) > 0" by simp
  moreover have "ref_system demo_ref = Some 0" by (simp add: demo_ref_def)
  ultimately show ?thesis
    using no_yield_refuses_calls [of "Some demo_ctx" 0 ?acts demo_ref 0 "\<lambda>_. demo_system solo_opts" 0 "''ping''"]
      sv h nm by simp
qed

text \<open>
  Admission is all or nothing.  A refused admission (maintenance, timeout,
  cancellation, stop, or a loop that has returned) leaves the count of outstanding work
  and the slots as they were; a successful one adds one of each, and both are recorded in
  the envelope.
\<close>

theorem admission_all_or_nothing:
  assumes "tracks d n" and "admit s acts ctx env ev (Some d) slots = (err, drain', env', slots')"
  shows "\<exists>d'. drain' = Some d' \<and>
    (if err = None then tracks d' (Suc n) \<and> slots' = Suc slots \<and> env_slotHeld env' \<and> env_drainTracked env'
     else tracks d' n \<and> slots' = slots)"
  by (rule admit_balance [OF assms])

theorem admission_all_or_nothing_witness:
  "\<exists>d'. fst (snd (admit 0 (\<lambda>_. newActivation None demo_env) None demo_env AdmissionTimer
      (Some newDrainTracker) 5)) = Some d' \<and> tracks d' 0"
proof -
  obtain drain' env' slots' where "admit 0 (\<lambda>_. newActivation None demo_env) None demo_env AdmissionTimer
      (Some newDrainTracker) 5 = (Some ErrMailboxTimeout, drain', env', slots')"
    by (auto simp: admit_def trackAdmission_def newDrainTracker_def notAdmitted_def
        finishTracked_def Let_def)
  with admission_all_or_nothing [OF tracks_new this] show ?thesis by auto
qed

text \<open>
  A call that fails before it waits leaves no session behind; a call that waits
  owns a fresh session that its envelope carries.
\<close>

theorem call_session_opened_or_cancelled:
  assumes "callMailbox s acts ctx protocol h args ev (drain, slots, t) = (r, drain', slots', t')"
    and "Suc (st_nextSession t) \<notin> st_pending t"
  shows "case r of
      Inl err \<Rightarrow> st_pending t' = st_pending t
    | Inr (session, env) \<Rightarrow> session = Suc (st_nextSession t) \<and> st_pending t' = insert session (st_pending t)
        \<and> env_session env = session \<and> env_expectsResponse env"
proof (cases "PackRequest (h_codec h) args")
  case (Inl e)
  with assms show ?thesis by (auto simp: callMailbox_def)
next
  case (Inr request)
  let ?env = "\<lparr>env_drainTracked = False, env_ctx = ctx, env_session = Suc (st_nextSession t),
                env_protocol = protocol, env_handler = h, env_request = request,
                env_expectsResponse = True, env_slotHeld = False\<rparr>"
  obtain err d1 env1 sl1 where ad: "admit s acts ctx ?env ev drain slots = (err, d1, env1, sl1)"
    by (metis prod_cases4)
  have "env_session env1 = env_session ?env \<and> env_expectsResponse env1 = env_expectsResponse ?env"
    using ad by (auto simp: admit_def trackAdmission_def emitEnqueue_def notAdmitted_def finishTracked_def
        Let_def split: option.splits admit_event.splits if_splits sum.splits)
  with assms ad Inr show ?thesis
    by (cases err) (auto simp: callMailbox_def nextSessionID_def registerSession_def cancelSession_def
        Let_def)
qed

theorem call_session_opened_or_cancelled_witness:
  "\<exists>r drain' slots' t'. callMailbox 0 (\<lambda>_. newActivation None demo_env) None ''ping''
      \<lparr>h_codec = demo_codec, h_descriptor = None\<rparr> [] AdmissionTimer (None, 0, newSessionTable)
      = (r, drain', slots', t') \<and> (case r of Inl err \<Rightarrow> st_pending t' = {} | Inr _ \<Rightarrow> False)"
proof -
  let ?r = "callMailbox 0 (\<lambda>_. newActivation None demo_env) None ''ping''
      \<lparr>h_codec = demo_codec, h_descriptor = None\<rparr> [] AdmissionTimer (None, 0, newSessionTable)"
  obtain e drain' slots' t' where r: "?r = (Inl e, drain', slots', t')"
    by (auto simp: callMailbox_def demo_codec_def nextSessionID_def admit_def notAdmitted_def
        finishTracked_def Let_def)
  have "Suc (st_nextSession newSessionTable) \<notin> st_pending newSessionTable"
    by (simp add: newSessionTable_def)
  from call_session_opened_or_cancelled [OF r this] r show ?thesis
    by (auto simp: newSessionTable_def)
qed

text \<open>
  A remote request arrives as it was sent.  If a request built for a target node is
  dispatched there, the service still runs with the same generation, its handler uses a
  codec with the same fingerprint that decodes what the sender's codec encodes, and no
  cycle is closed, then the dispatch accepts exactly the arguments the caller passed.
\<close>

theorem remote_request_roundtrip:
  assumes "remoteRequest sender ctx ref protocol codec args = Inr req"
    and "tgt_Node (tr_target req) = nodeID sys"
    and "service \<lparr>ref_Address = tgt_Address (tr_target req), ref_Generation = tgt_Generation (tr_target req),
            ref_system = Some (sys_id sys), ref_remote = None\<rparr> sys = Inr p"
    and "handler (svcAt sys p) protocol = Inr h" and "wireOf h = Some wire"
    and "Fingerprint wire = Fingerprint codec"
    and "\<And>bytes. MarshalRequest codec args = Inr bytes \<Longrightarrow> UnmarshalRequest wire bytes = Inr args"
    and "\<not> (NoInterleave (svc_opts (svcAt sys p)) \<and>
            callPathContains (Some (WithCallPath None (tr_path req))) (nodeID sys) (svc_name (svcAt sys p)))"
  shows "DispatchRemote_check wireOf sys (Some (WithCallPath None (tr_path req))) (tr_target req)
      (tr_protocol req) (tr_fingerprint req) (tr_payload req) notify = Inr (p, h, wire, args)"
  using assms
  by (auto simp: remoteRequest_def DispatchRemote_check_def Let_def
      split: if_splits option.splits sum.splits bool.splits prod.splits)

theorem remote_request_roundtrip_witness:
  "\<exists>req. remoteRequest (demo_system demo_opts) (Some background)
      (demo_ref\<lparr>ref_remote := Some \<lparr>tgt_Node = ''n1'', tgt_Incarnation = ''i'', tgt_Service = ''demo'',
         tgt_Address = 1, tgt_Generation = 1\<rparr>\<rparr>) ''ping'' demo_wire [(), ()] = Inr req
    \<and> DispatchRemote_check (\<lambda>_. Some demo_wire) (demo_system demo_opts)
        (Some (WithCallPath None (tr_path req))) (tr_target req) (tr_protocol req) (tr_fingerprint req)
        (tr_payload req) False
      = Inr (0, \<lparr>h_codec = demo_codec, h_descriptor = None\<rparr>, demo_wire, [(), ()])"
proof -
  let ?t = "\<lparr>tgt_Node = ''n1'', tgt_Incarnation = ''i'', tgt_Service = ''demo'',
         tgt_Address = 1, tgt_Generation = 1\<rparr>"
  let ?req = "\<lparr>tr_target = ?t, tr_protocol = ''ping'', tr_fingerprint = ''unit'', tr_payload = [0, 0],
      tr_path = []\<rparr>"
  have remote: "sys_remote (demo_system demo_opts)" by code_simp
  have node: "nodeID (demo_system demo_opts) = ''n1''" by code_simp
  have req: "remoteRequest (demo_system demo_opts) (Some background)
      (demo_ref\<lparr>ref_remote := Some ?t\<rparr>) ''ping'' demo_wire [(), ()] = Inr ?req"
    using remote by (simp add: remoteRequest_def demo_wire_def CallPath_background)
  have sv: "service \<lparr>ref_Address = 1, ref_Generation = 1, ref_system = Some (sys_id (demo_system demo_opts)),
      ref_remote = None\<rparr> (demo_system demo_opts) = Inr 0" by code_simp
  have h: "handler (svcAt (demo_system demo_opts) 0) ''ping'' = Inr \<lparr>h_codec = demo_codec, h_descriptor = None\<rparr>"
    by (simp add: demo_system_def Reserve_def Reserve_check_def Reserve_locked_def NewSystem_def Let_def
        handle_def Start_def updSvc_def handler_def)
  have ni: "\<not> NoInterleave (svc_opts (svcAt (demo_system demo_opts) 0))" by code_simp
  from req sv h ni node remote_request_roundtrip [OF req, of "demo_system demo_opts" 0
      "\<lparr>h_codec = demo_codec, h_descriptor = None\<rparr>" "\<lambda>_. Some demo_wire" demo_wire False]
  show ?thesis by (auto simp: demo_wire_def)
qed

end
