(* ===== verification/Actor_Retrier.thy ===== *)
theory Actor_Retrier
  imports Sky_Prelude
begin

text \<open>
  The dispatch retrier of \<open>actor/dispatch_retrier.go\<close>.  A closure is named by a number, a buffered channel
  is a list with its capacity, and each goroutine of \<open>runLevel\<close> is a worker whose state is its place in the
  loop of \<open>processBatch\<close>.  One step is one channel operation or one return of a closure, so steps of different
  workers and of callers of \<open>Enqueue\<close> interleave in any order.  The log records what happens to each task.
\<close>

record RetryConfig =
  Interval :: int
  MaxTries :: int

record retryTask =
  task_label :: string
  task_fn :: nat
  tries :: int

text \<open>\<open>Batch n\<close>: at the loop head with \<open>n\<close> rounds left; \<open>Trying n t\<close>: inside \<open>t\<close>'s closure.\<close>

datatype worker = Waiting | Batch nat | Trying nat retryTask | Exited

datatype retry_log =
    Attempt nat
  | Succeeded nat retryTask
  | DroppedFirst retryTask
  | DroppedAgain nat retryTask
  | DroppedPromotion nat retryTask
  | Exhausted retryTask

record DispatchRetrier =
  levels :: "RetryConfig list"
  queues :: "retryTask list list"
  qcaps :: "nat list"
  stopCh :: bool
  workers :: "(nat \<times> worker) list"
  rlog :: "retry_log list"

text \<open>\<open>None\<close> is a panic: no level, or a negative channel size.\<close>

definition cap_of :: "int list \<Rightarrow> nat \<Rightarrow> int" where
  "cap_of caps i = (if i < length caps then caps ! i else 256)"

definition NewDispatchRetrier :: "RetryConfig list \<Rightarrow> int list \<Rightarrow> DispatchRetrier option" where
  "NewDispatchRetrier ls caps =
     (if ls = [] then None
      else if \<exists>i \<in> set [0..<length ls]. cap_of caps i < 0 then None
      else Some \<lparr>levels = ls, queues = replicate (length ls) [],
                 qcaps = map (\<lambda>i. nat (cap_of caps i)) [0..<length ls],
                 stopCh = False, workers = [], rlog = []\<rparr>)"

definition retrier_Start :: "DispatchRetrier \<Rightarrow> DispatchRetrier" where
  "retrier_Start r = r\<lparr>workers := workers r @ map (\<lambda>i. (i, Waiting)) [0..<length (levels r)]\<rparr>"

definition retrier_Stop :: "DispatchRetrier \<Rightarrow> DispatchRetrier" where
  "retrier_Stop r = r\<lparr>stopCh := True\<rparr>"

text \<open>A non-blocking send: the channel takes the task, or the reason for the drop is logged.\<close>

definition send_or :: "nat \<Rightarrow> retryTask \<Rightarrow> retry_log \<Rightarrow> DispatchRetrier \<Rightarrow> DispatchRetrier" where
  "send_or i t why r =
     (if length (queues r ! i) < qcaps r ! i then r\<lparr>queues := (queues r)[i := queues r ! i @ [t]]\<rparr>
      else r\<lparr>rlog := rlog r @ [why]\<rparr>)"

definition retrier_Enqueue :: "string \<Rightarrow> nat \<Rightarrow> DispatchRetrier \<Rightarrow> DispatchRetrier" where
  "retrier_Enqueue label f r =
     (let t = \<lparr>task_label = label, task_fn = f, tries = MaxTries (levels r ! 0)\<rparr>
      in send_or 0 t (DroppedFirst t) r)"

definition set_worker :: "nat \<Rightarrow> worker \<Rightarrow> DispatchRetrier \<Rightarrow> DispatchRetrier" where
  "set_worker w s r = r\<lparr>workers := (workers r)[w := (fst (workers r ! w), s)]\<rparr>"

text \<open>\<open>runLevel\<close>: the ticker fires, or the closed stop channel is seen.\<close>

definition runLevel_tick :: "nat \<Rightarrow> DispatchRetrier \<Rightarrow> DispatchRetrier" where
  "runLevel_tick w r =
     (case workers r ! w of (level, Waiting) \<Rightarrow> set_worker w (Batch (length (queues r ! level))) r | _ \<Rightarrow> r)"

definition runLevel_stop :: "nat \<Rightarrow> DispatchRetrier \<Rightarrow> DispatchRetrier" where
  "runLevel_stop w r = (case workers r ! w of (level, Waiting) \<Rightarrow> if stopCh r then set_worker w Exited r else r | _ \<Rightarrow> r)"

text \<open>The head of the loop: the closure of a task that could be received is called.\<close>

definition processBatch_recv :: "nat \<Rightarrow> DispatchRetrier \<Rightarrow> DispatchRetrier" where
  "processBatch_recv w r =
     (case workers r ! w of
        (level, Batch 0) \<Rightarrow> set_worker w Waiting r
      | (level, Batch (Suc n)) \<Rightarrow>
          (case queues r ! level of
             [] \<Rightarrow> set_worker w Waiting r
           | t # q \<Rightarrow> set_worker w (Trying n t)
               (r\<lparr>queues := (queues r)[level := q], rlog := rlog r @ [Attempt (task_fn t)]\<rparr>))
      | _ \<Rightarrow> r)"

text \<open>The rest of the round, after the closure has returned nil (\<open>ok\<close>) or an error.\<close>

definition after_failure :: "nat \<Rightarrow> retryTask \<Rightarrow> DispatchRetrier \<Rightarrow> DispatchRetrier" where
  "after_failure level t0 r =
     (let t = t0\<lparr>tries := tries t0 - 1\<rparr>
      in if tries t > 0 then send_or level t (DroppedAgain level t) r
         else let nextLevel = level + 1
              in if nextLevel \<ge> length (levels r) then r\<lparr>rlog := rlog r @ [Exhausted t]\<rparr>
                 else let promoted = \<lparr>task_label = task_label t, task_fn = task_fn t, tries = MaxTries (levels r ! nextLevel)\<rparr>
                      in send_or nextLevel promoted (DroppedPromotion nextLevel promoted) r)"

definition processBatch_result :: "nat \<Rightarrow> bool \<Rightarrow> DispatchRetrier \<Rightarrow> DispatchRetrier" where
  "processBatch_result w ok r =
     (case workers r ! w of
        (level, Trying n t) \<Rightarrow>
          (if ok then set_worker w (Batch n) (r\<lparr>rlog := rlog r @ [Succeeded level t]\<rparr>)
           else after_failure level t (set_worker w (Batch n) r))
      | _ \<Rightarrow> r)"

datatype retry_event =
    EvEnqueue string nat | EvStart | EvStop | EvTick nat | EvSeeStop nat | EvRecv nat | EvResult nat bool

fun retry_step :: "retry_event \<Rightarrow> DispatchRetrier \<Rightarrow> DispatchRetrier" where
  "retry_step (EvEnqueue label f) r = retrier_Enqueue label f r"
| "retry_step EvStart r = retrier_Start r"
| "retry_step EvStop r = retrier_Stop r"
| "retry_step (EvTick w) r = (if w < length (workers r) then runLevel_tick w r else r)"
| "retry_step (EvSeeStop w) r = (if w < length (workers r) then runLevel_stop w r else r)"
| "retry_step (EvRecv w) r = (if w < length (workers r) then processBatch_recv w r else r)"
| "retry_step (EvResult w ok) r = (if w < length (workers r) then processBatch_result w ok r else r)"

section \<open>The budget of a task\<close>

text \<open>A level tries a task \<open>MaxTries\<close> times, and once even when \<open>MaxTries\<close> is not positive.\<close>

definition level_budget :: "RetryConfig \<Rightarrow> int" where
  "level_budget c = max 1 (MaxTries c)"

definition budget :: "RetryConfig list \<Rightarrow> int" where
  "budget ls = sum_list (map level_budget ls)"

text \<open>The attempts a task in level \<open>i\<close> with \<open>k\<close> tries can still cost.\<close>

definition pot :: "RetryConfig list \<Rightarrow> nat \<Rightarrow> int \<Rightarrow> int" where
  "pot ls i k = max 1 k + budget (drop (Suc i) ls)"

definition queue_pot :: "RetryConfig list \<Rightarrow> nat \<Rightarrow> nat \<Rightarrow> retryTask list \<Rightarrow> int" where
  "queue_pot ls f i q = sum_list (map (\<lambda>t. if task_fn t = f then pot ls i (tries t) else 0) q)"

fun worker_pot :: "RetryConfig list \<Rightarrow> nat \<Rightarrow> nat \<times> worker \<Rightarrow> int" where
  "worker_pot ls f (i, Trying n t) = (if task_fn t = f then pot ls i (tries t) - 1 else 0)"
| "worker_pot ls f _ = 0"

text \<open>What a task gives up when it succeeds or is dropped.\<close>

fun forgone :: "RetryConfig list \<Rightarrow> nat \<Rightarrow> retry_log \<Rightarrow> int" where
  "forgone ls f (Succeeded i t) = (if task_fn t = f then pot ls i (tries t) - 1 else 0)"
| "forgone ls f (DroppedFirst t) = (if task_fn t = f then pot ls 0 (tries t) else 0)"
| "forgone ls f (DroppedAgain i t) = (if task_fn t = f then pot ls i (tries t) else 0)"
| "forgone ls f (DroppedPromotion i t) = (if task_fn t = f then pot ls i (tries t) else 0)"
| "forgone ls f _ = 0"

definition attempts :: "nat \<Rightarrow> DispatchRetrier \<Rightarrow> nat" where
  "attempts f r = count_list (rlog r) (Attempt f)"

definition in_queues :: "nat \<Rightarrow> DispatchRetrier \<Rightarrow> int" where
  "in_queues f r = (\<Sum>i<length (queues r). queue_pot (levels r) f i (queues r ! i))"

definition in_hands :: "nat \<Rightarrow> DispatchRetrier \<Rightarrow> int" where
  "in_hands f r = sum_list (map (worker_pot (levels r) f) (workers r))"

definition given_up :: "nat \<Rightarrow> DispatchRetrier \<Rightarrow> int" where
  "given_up f r = sum_list (map (forgone (levels r) f) (rlog r))"

definition spent :: "nat \<Rightarrow> DispatchRetrier \<Rightarrow> int" where
  "spent f r = int (attempts f r) + in_queues f r + in_hands f r + given_up f r"

definition retrier_wf :: "DispatchRetrier \<Rightarrow> bool" where
  "retrier_wf r \<longleftrightarrow> levels r \<noteq> [] \<and> length (queues r) = length (levels r) \<and> length (qcaps r) = length (levels r) \<and>
     (\<forall>i < length (queues r). length (queues r ! i) \<le> qcaps r ! i) \<and>
     list_all (\<lambda>(i, s). i < length (levels r)) (workers r)"

definition enqueues :: "nat \<Rightarrow> retry_event list \<Rightarrow> nat" where
  "enqueues f evs = length (filter (\<lambda>e. case e of EvEnqueue l g \<Rightarrow> g = f | _ \<Rightarrow> False) evs)"

lemma sum_nth_update:
  fixes h :: "nat \<Rightarrow> 'a \<Rightarrow> int"
  assumes "k < length xs"
  shows "(\<Sum>i<length xs. h i (xs[k := q] ! i)) = (\<Sum>i<length xs. h i (xs ! i)) + h k q - h k (xs ! k)"
proof -
  have "(\<Sum>i<length xs. h i (xs[k := q] ! i)) = (\<Sum>i<length xs. h i (xs ! i) + (if i = k then h k q - h k (xs ! k) else 0))"
    by (rule sum.cong) (auto simp: nth_list_update)
  then show ?thesis using assms by (simp add: sum.distrib)
qed

lemma sum_list_map_update:
  fixes g :: "'a \<Rightarrow> int"
  assumes "k < length xs"
  shows "sum_list (map g (xs[k := x])) = sum_list (map g xs) + g x - g (xs ! k)"
  using sum_nth_update [OF assms, of "\<lambda>_. g" x] by (simp add: sum_list_sum_nth lessThan_atLeast0)

lemma budget_drop: "i < length ls \<Longrightarrow> budget (drop i ls) = level_budget (ls ! i) + budget (drop (Suc i) ls)"
  by (simp add: budget_def Cons_nth_drop_Suc [symmetric])

lemma budget_nonneg: "0 \<le> budget ls"
  by (induction ls) (auto simp: budget_def level_budget_def)

lemma pot_pos: "0 < pot ls i k"
  using budget_nonneg [of "drop (Suc i) ls"] by (simp add: pot_def)

lemma pot_first: "ls \<noteq> [] \<Longrightarrow> pot ls 0 (MaxTries (ls ! 0)) = budget ls"
  using budget_drop [of 0 ls] by (simp add: pot_def level_budget_def)

lemma pot_promoted: "Suc i < length ls \<Longrightarrow> k \<le> 1 \<Longrightarrow> pot ls (Suc i) (MaxTries (ls ! Suc i)) = pot ls i k - 1"
  using budget_drop [of "Suc i" ls] by (simp add: pot_def level_budget_def)

lemma pot_last: "\<not> Suc i < length ls \<Longrightarrow> k \<le> 1 \<Longrightarrow> pot ls i k = 1"
  by (simp add: pot_def budget_def)

lemma pot_again: "1 < k \<Longrightarrow> pot ls i (k - 1) = pot ls i k - 1"
  by (simp add: pot_def)

lemma queue_pot_simps [simp]:
  "queue_pot ls f i [] = 0"
  "queue_pot ls f i (t # q) = (if task_fn t = f then pot ls i (tries t) else 0) + queue_pot ls f i q"
  "queue_pot ls f i (q @ q') = queue_pot ls f i q + queue_pot ls f i q'"
  by (simp_all add: queue_pot_def)

lemma spent_queue:
  "i < length (queues r) \<Longrightarrow> spent f (r\<lparr>queues := (queues r)[i := q]\<rparr>) =
     spent f r + queue_pot (levels r) f i q - queue_pot (levels r) f i (queues r ! i)"
  by (simp add: spent_def attempts_def in_queues_def in_hands_def given_up_def sum_nth_update)

lemma spent_log:
  "spent f (r\<lparr>rlog := rlog r @ [e]\<rparr>) = spent f r + forgone (levels r) f e + (if e = Attempt f then 1 else 0)"
  by (simp add: spent_def attempts_def in_queues_def in_hands_def given_up_def)

lemma spent_send_or:
  assumes "i < length (queues r)" and "forgone (levels r) f why = (if task_fn t = f then pot (levels r) i (tries t) else 0)"
    and "why \<noteq> Attempt f"
  shows "spent f (send_or i t why r) = spent f r + (if task_fn t = f then pot (levels r) i (tries t) else 0)"
  using assms by (simp add: send_or_def spent_queue spent_log)

lemma wf_send_or: "retrier_wf r \<Longrightarrow> retrier_wf (send_or i t why r)"
  by (cases "i < length (queues r)") (auto simp: retrier_wf_def send_or_def nth_list_update)

lemma send_or_same [simp]:
  "qcaps (send_or i t why r) = qcaps r"
  "levels (send_or i t why r) = levels r" "workers (send_or i t why r) = workers r"
  by (simp_all add: send_or_def)

lemma spent_set_worker:
  "w < length (workers r) \<Longrightarrow> spent f (set_worker w s r) =
     spent f r + worker_pot (levels r) f (fst (workers r ! w), s) - worker_pot (levels r) f (workers r ! w)"
  by (simp add: spent_def attempts_def in_queues_def in_hands_def given_up_def set_worker_def sum_list_map_update)

lemma set_worker_same [simp]: "qcaps (set_worker w s r) = qcaps r" "levels (set_worker w s r) = levels r" "queues (set_worker w s r) = queues r"
  by (simp_all add: set_worker_def)

lemma wf_set_worker: "retrier_wf r \<Longrightarrow> retrier_wf (set_worker w s r)"
  by (cases "w < length (workers r)")
     (auto simp: retrier_wf_def set_worker_def list_all_length nth_list_update case_prod_beta)

lemma wf_log [simp]: "retrier_wf (r\<lparr>rlog := l\<rparr>) = retrier_wf r"
  by (simp add: retrier_wf_def)

lemma worker_level: "retrier_wf r \<Longrightarrow> w < length (workers r) \<Longrightarrow> workers r ! w = (i, s) \<Longrightarrow> i < length (queues r)"
  by (auto simp: retrier_wf_def list_all_length)

lemma after_failure_spent:
  assumes "retrier_wf r" and "i < length (queues r)"
  shows "spent f (after_failure i t r) = spent f r + (if task_fn t = f then pot (levels r) i (tries t) - 1 else 0)"
proof (cases "tries t > 1")
  case True
  then show ?thesis using assms by (simp add: after_failure_def Let_def spent_send_or pot_again)
next
  case False
  show ?thesis
  proof (cases "Suc i < length (levels r)")
    case True
    with assms have "Suc i < length (queues r)" by (simp add: retrier_wf_def)
    then show ?thesis using True False by (simp add: after_failure_def Let_def spent_send_or pot_promoted [of _ _ "tries t"])
  next
    case F: False
    then show ?thesis using False by (simp add: after_failure_def Let_def pot_last spent_log)
  qed
qed

lemma after_failure_wf: "retrier_wf r \<Longrightarrow> retrier_wf (after_failure i t r)"
  by (auto simp: after_failure_def wf_send_or Let_def)

lemma recv_spent:
  assumes "retrier_wf r" and "w < length (workers r)"
  shows "spent f (processBatch_recv w r) = spent f r" and "retrier_wf (processBatch_recv w r)"
proof -
  obtain i s where w: "workers r ! w = (i, s)" by (cases "workers r ! w")
  from worker_level [OF assms w] have i: "i < length (queues r)" .
  have take: "spent f (set_worker w (Trying n t) (r\<lparr>queues := (queues r)[i := q], rlog := rlog r @ [Attempt (task_fn t)]\<rparr>))
      = spent f r" if "queues r ! i = t # q" "s = Batch (Suc n)" for n t q
    using assms(2) w i that spent_log [of f "r\<lparr>queues := (queues r)[i := q]\<rparr>" "Attempt (task_fn t)"]
    by (simp add: spent_set_worker spent_queue)
  have "retrier_wf (r\<lparr>queues := (queues r)[i := q]\<rparr>)" if "queues r ! i = t # q" for t q
  proof -
    have "length (t # q) \<le> qcaps r ! i" using assms(1) i that by (metis retrier_wf_def)
    then show ?thesis using assms(1) i by (auto simp: retrier_wf_def nth_list_update)
  qed
  then have wf: "retrier_wf (r\<lparr>queues := (queues r)[i := q], rlog := l\<rparr>)" if "queues r ! i = t # q" for t q l
    using that by (simp add: retrier_wf_def)
  have "spent f (processBatch_recv w r) = spent f r \<and> retrier_wf (processBatch_recv w r)"
  proof (cases "\<exists>n t q. s = Batch (Suc n) \<and> queues r ! i = t # q")
    case True
    then obtain n t q where s: "s = Batch (Suc n)" and q: "queues r ! i = t # q" by blast
    then have "processBatch_recv w r = set_worker w (Trying n t) (r\<lparr>queues := (queues r)[i := q], rlog := rlog r @ [Attempt (task_fn t)]\<rparr>)"
      by (simp add: processBatch_recv_def w)
    then show ?thesis by (simp only: take [OF q s] wf_set_worker [OF wf [OF q]] simp_thms)
  next
    case False
    then have "processBatch_recv w r = r \<or> (processBatch_recv w r = set_worker w Waiting r \<and> (\<exists>n. s = Batch n))"
      by (auto simp: processBatch_recv_def w split: worker.splits nat.splits list.splits)
    then show ?thesis using assms w by (auto simp: spent_set_worker wf_set_worker)
  qed
  then show "spent f (processBatch_recv w r) = spent f r" and "retrier_wf (processBatch_recv w r)" by simp_all
qed

lemma result_spent:
  assumes "retrier_wf r" and "w < length (workers r)"
  shows "spent f (processBatch_result w ok r) = spent f r" and "retrier_wf (processBatch_result w ok r)"
proof -
  obtain i s where w: "workers r ! w = (i, s)" by (cases "workers r ! w")
  from worker_level [OF assms w] have i: "i < length (queues r)" .
  have "spent f (processBatch_result w ok r) = spent f r \<and> retrier_wf (processBatch_result w ok r)"
  proof (cases s)
    case (Trying n t)
    let ?r = "set_worker w (Batch n) r"
    show ?thesis
    proof (cases ok)
      case True
      with assms w Trying show ?thesis
        by (simp add: processBatch_result_def spent_set_worker spent_log wf_set_worker)
    next
      case False
      then have "processBatch_result w ok r = after_failure i t ?r" by (simp add: processBatch_result_def w Trying)
      with assms w Trying i after_failure_spent [of ?r i f t] show ?thesis
        by (simp add: spent_set_worker wf_set_worker after_failure_wf)
    qed
  qed (use assms w in \<open>simp_all add: processBatch_result_def\<close>)
  then show "spent f (processBatch_result w ok r) = spent f r" and "retrier_wf (processBatch_result w ok r)" by simp_all
qed

lemma tick_spent:
  assumes "retrier_wf r" and "w < length (workers r)"
  shows "spent f (runLevel_tick w r) = spent f r" and "retrier_wf (runLevel_tick w r)"
    and "spent f (runLevel_stop w r) = spent f r" and "retrier_wf (runLevel_stop w r)"
  using assms by (auto simp: runLevel_tick_def runLevel_stop_def spent_set_worker wf_set_worker split: prod.splits worker.splits)

lemma start_spent: "spent f (retrier_Start r) = spent f r"
proof -
  have "sum_list (map (worker_pot (levels r) f) (map (\<lambda>i. (i, Waiting)) xs)) = 0" for xs
    by (induction xs) auto
  then show ?thesis
    by (simp add: spent_def attempts_def in_queues_def in_hands_def given_up_def retrier_Start_def del: map_map)
qed

lemma enqueue_spent:
  "retrier_wf r \<Longrightarrow> spent f (retrier_Enqueue l g r) = spent f r + (if g = f then budget (levels r) else 0)"
  by (simp add: retrier_Enqueue_def Let_def spent_send_or pot_first retrier_wf_def)

lemmas retry_step_defs = retrier_Enqueue_def retrier_Start_def retrier_Stop_def runLevel_tick_def runLevel_stop_def
  processBatch_recv_def processBatch_result_def after_failure_def Let_def

lemma retry_step_levels [simp]: "levels (retry_step e r) = levels r"
  by (cases e) (auto simp: retry_step_defs split: prod.splits worker.splits nat.splits list.splits)

lemma retry_step_qcaps [simp]: "qcaps (retry_step e r) = qcaps r"
  by (cases e) (auto simp: retry_step_defs split: prod.splits worker.splits nat.splits list.splits)

lemma retry_step_wf: "retrier_wf r \<Longrightarrow> retrier_wf (retry_step e r)"
proof (cases e)
  case EvStart
  then show "retrier_wf r \<Longrightarrow> ?thesis" by (auto simp: retrier_Start_def retrier_wf_def list_all_iff)
next
  case EvStop
  then show "retrier_wf r \<Longrightarrow> ?thesis" by (simp add: retrier_Stop_def retrier_wf_def)
qed (simp_all add: retrier_Enqueue_def Let_def wf_send_or tick_spent recv_spent result_spent)

lemma retry_step_spent:
  "retrier_wf r \<Longrightarrow> spent f (retry_step e r) = spent f r + budget (levels r) * int (enqueues f [e])"
proof (cases e)
  case EvStop
  then show ?thesis
    by (simp add: retrier_Stop_def spent_def attempts_def in_queues_def in_hands_def given_up_def enqueues_def)
qed (simp_all add: start_spent enqueue_spent tick_spent recv_spent result_spent enqueues_def)

lemma retry_run:
  assumes "retrier_wf r"
  shows "retrier_wf (fold retry_step evs r)" and "qcaps (fold retry_step evs r) = qcaps r" and "levels (fold retry_step evs r) = levels r"
    and "spent f (fold retry_step evs r) = spent f r + budget (levels r) * int (enqueues f evs)"
proof -
  show "retrier_wf (fold retry_step evs r)" using assms by (induction evs arbitrary: r) (simp_all add: retry_step_wf)
  show "qcaps (fold retry_step evs r) = qcaps r" by (induction evs arbitrary: r) simp_all
  show "levels (fold retry_step evs r) = levels r" by (induction evs arbitrary: r) simp_all
  have enq: "enqueues f (e # evs) = enqueues f [e] + enqueues f evs" for e evs by (simp add: enqueues_def)
  show "spent f (fold retry_step evs r) = spent f r + budget (levels r) * int (enqueues f evs)"
    using assms
  proof (induction evs arbitrary: r)
    case (Cons e evs)
    then show ?case by (simp add: retry_step_wf retry_step_spent enq [of e evs] distrib_left)
  qed (simp add: enqueues_def)
qed

lemma new_spent:
  assumes "NewDispatchRetrier ls caps = Some r"
  shows "retrier_wf r" and "spent f r = 0" and "levels r = ls"
  using assms by (auto simp: NewDispatchRetrier_def retrier_wf_def spent_def attempts_def in_queues_def in_hands_def
      given_up_def split: if_splits)

lemma queue_pot_nonneg: "0 \<le> queue_pot ls f i q"
  by (induction q) (simp_all add: pot_pos order_less_imp_le)

lemma worker_pot_nonneg: "0 \<le> worker_pot ls f x"
  by (cases "(ls, f, x)" rule: worker_pot.cases) (auto simp: pot_pos)

lemma forgone_nonneg: "0 \<le> forgone ls f e"
  by (cases e) (simp_all add: pot_pos order_less_imp_le)

lemma spent_parts_nonneg: "0 \<le> in_queues f r" "0 \<le> in_hands f r" "0 \<le> given_up f r"
  by (auto simp: in_queues_def in_hands_def given_up_def queue_pot_nonneg worker_pot_nonneg forgone_nonneg
      intro!: sum_nonneg sum_list_nonneg)

text \<open>The closure \<open>f\<close> is nowhere any more, and every task with it ended by exhausting its last level.\<close>

definition abandoned :: "nat \<Rightarrow> DispatchRetrier \<Rightarrow> bool" where
  "abandoned f r \<longleftrightarrow> list_all (list_all (\<lambda>t. task_fn t \<noteq> f)) (queues r) \<and>
     list_all (\<lambda>(i, s). case s of Trying n t \<Rightarrow> task_fn t \<noteq> f | _ \<Rightarrow> True) (workers r) \<and>
     list_all (\<lambda>e. case e of Succeeded i t \<Rightarrow> task_fn t \<noteq> f | DroppedFirst t \<Rightarrow> task_fn t \<noteq> f
        | DroppedAgain i t \<Rightarrow> task_fn t \<noteq> f | DroppedPromotion i t \<Rightarrow> task_fn t \<noteq> f | _ \<Rightarrow> True) (rlog r)"

lemma abandoned_parts:
  assumes "abandoned f r"
  shows "in_queues f r = 0" and "in_hands f r = 0" and "given_up f r = 0"
proof -
  have "queue_pot ls f i q = 0" if "list_all (\<lambda>t. task_fn t \<noteq> f) q" for ls i q
    using that by (induction q) auto
  then show "in_queues f r = 0" using assms by (auto simp: in_queues_def abandoned_def list_all_length intro!: sum.neutral)
  have "worker_pot (levels r) f x = 0" if "x \<in> set (workers r)" for x
    using assms that by (cases "(levels r, f, x)" rule: worker_pot.cases) (auto simp: abandoned_def list_all_iff)
  then show "in_hands f r = 0" by (simp add: in_hands_def cong: map_cong)
  have "forgone (levels r) f e = 0" if "e \<in> set (rlog r)" for e
    using assms that by (cases e) (auto simp: abandoned_def list_all_iff)
  then show "given_up f r = 0" by (simp add: given_up_def cong: map_cong)
qed

text \<open>
  C22: However the workers of all levels, the callers of Enqueue and the results of the closures interleave, a
  closure is called at most as often as all levels together allow (\<open>MaxTries\<close> each, at least once) for each
  time it was enqueued, and no queue exceeds its capacity.  A closure that has left the retrier without
  succeeding and without being dropped by a full queue was called exactly that often.
\<close>

theorem retry_attempts_bounded:
  assumes "NewDispatchRetrier ls caps = Some r0" and "r = fold retry_step evs r0"
  shows "int (attempts f r) \<le> budget ls * int (enqueues f evs) \<and>
    (abandoned f r \<longrightarrow> int (attempts f r) = budget ls * int (enqueues f evs)) \<and>
    (\<forall>i < length (queues r). length (queues r ! i) \<le> qcaps r0 ! i)"
proof -
  note new = new_spent [OF assms(1)]
  note run = retry_run [OF new(1), where evs = evs, folded assms(2)]
  have "int (attempts f r) + in_queues f r + in_hands f r + given_up f r = budget ls * int (enqueues f evs)"
    using run(4) [where f = f, unfolded new(2,3)] by (simp add: spent_def)
  then show ?thesis using spent_parts_nonneg [of f r] abandoned_parts [of f r] run(1,2)
    by (auto simp: retrier_wf_def)
qed

definition demo_levels :: "RetryConfig list" where
  "demo_levels = [\<lparr>Interval = 1, MaxTries = 2\<rparr>, \<lparr>Interval = 3, MaxTries = 0\<rparr>]"

definition demo_retrier :: DispatchRetrier where
  "demo_retrier = \<lparr>levels = demo_levels, queues = [[], []], qcaps = [2, 1], stopCh = False, workers = [], rlog = []\<rparr>"

definition demo_events :: "retry_event list" where
  "demo_events = [EvStart, EvEnqueue ''a'' 7, EvTick 0, EvRecv 0, EvResult 0 False, EvRecv 0, EvTick 0, EvRecv 0,
     EvResult 0 False, EvTick 1, EvRecv 1, EvResult 1 False]"

lemma demo_retrier_new: "NewDispatchRetrier demo_levels [2, 1] = Some demo_retrier"
  by code_simp

lemma demo_abandoned: "abandoned 7 (fold retry_step demo_events demo_retrier)" "enqueues 7 demo_events = 1"
  by code_simp+

theorem retry_attempts_bounded_witness:
  "NewDispatchRetrier demo_levels [2, 1] = Some demo_retrier \<and> budget demo_levels = 3 \<and>
   int (attempts 7 (fold retry_step demo_events demo_retrier)) = 3"
  using retry_attempts_bounded [OF demo_retrier_new refl, of 7 demo_events] demo_abandoned demo_retrier_new
  by (simp add: budget_def demo_levels_def level_budget_def)

end
