(* ===== verification/Frame_Codec.thy ===== *)
theory Frame_Codec
  imports Sky_Prelude "HOL-Library.Word" "HOL-Library.Sublist"
begin

text \<open>
  The length-prefixed wire format of \<open>frame/frame.go\<close>.  A reader is the list of bytes
  that remain before end of file; how the bytes arrive in pieces is hidden by
  \<open>io.ReadFull\<close>.  A writer is what was written so far and a script of how it
  answers its next calls: how many bytes it takes and which error it returns.  Every writer
  that obeys the contract of \<open>io.Writer\<close> behaves like one of these.
\<close>

type_synonym byte = "8 word"

subsection \<open>Readers, writers and errors\<close>

datatype frame_error = EOF | UnexpectedEOF | ErrShortWrite | ErrPayloadTooLarge nat | ErrWriter string

record writer =
  wr_out :: "byte list"
  wr_script :: "(nat \<times> frame_error option) list"

text \<open>One call of \<open>w.Write\<close>; a writer whose script has ended takes everything.\<close>

definition Write_call :: "writer \<Rightarrow> byte list \<Rightarrow> writer \<times> nat \<times> frame_error option" where
  "Write_call w data =
     (case wr_script w of
        [] \<Rightarrow> (w\<lparr>wr_out := wr_out w @ data\<rparr>, length data, None)
      | (n, err) # rest \<Rightarrow>
          (w\<lparr>wr_out := wr_out w @ take n data, wr_script := rest\<rparr>, min n (length data), err))"

text \<open>\<open>io.ReadFull\<close> for \<open>n\<close> bytes: the bytes and the rest, or the error and the rest.\<close>

definition ReadFull :: "nat \<Rightarrow> byte list \<Rightarrow> (frame_error + byte list) \<times> byte list" where
  "ReadFull n r =
     (if n \<le> length r then (Inr (take n r), drop n r)
      else if r = [] then (Inl EOF, []) else (Inl UnexpectedEOF, []))"

subsection \<open>The length prefix\<close>

definition HeadLen :: nat where "HeadLen = 4"

definition MaxPayload :: nat where "MaxPayload = 4 * 1024 * 1024"

text \<open>\<open>binary.BigEndian\<close>: the low \<open>k\<close> bytes of a number, most significant first.\<close>

fun putUint :: "nat \<Rightarrow> nat \<Rightarrow> byte list" where
  "putUint 0 n = []"
| "putUint (Suc k) n = putUint k (n div 256) @ [word_of_nat n]"

definition getUint :: "byte list \<Rightarrow> nat" where
  "getUint bs = foldl (\<lambda>acc b. acc * 256 + unat b) 0 bs"

subsection \<open>Reading\<close>

definition ReadLimit :: "byte list \<Rightarrow> nat \<Rightarrow> (frame_error + byte list) \<times> byte list" where
  "ReadLimit r limit =
     (case ReadFull HeadLen r of
        (Inl err, r) \<Rightarrow> (Inl err, r)
      | (Inr head, r) \<Rightarrow>
          let dataLen = getUint head;
              limit = (if limit = 0 then MaxPayload else limit)
          in if dataLen > limit then (Inl (ErrPayloadTooLarge dataLen), r)
             else case ReadFull dataLen r of
               (Inl err, r) \<Rightarrow> (Inl err, r)
             | (Inr buf, r) \<Rightarrow> (Inr buf, r))"

definition Read :: "byte list \<Rightarrow> (frame_error + byte list) \<times> byte list" where
  "Read r = ReadLimit r MaxPayload"

subsection \<open>Writing\<close>

text \<open>The loop of \<open>writeFull\<close>; \<open>None\<close> is a nil error.\<close>

function writeFull :: "writer \<Rightarrow> byte list \<Rightarrow> frame_error option \<times> writer" where
  "writeFull w data =
     (if data = [] then (None, w)
      else case Write_call w data of (w, n, err) \<Rightarrow>
        (case err of
           Some e \<Rightarrow> (Some e, w)
         | None \<Rightarrow> if n = 0 then (Some ErrShortWrite, w) else writeFull w (drop n data)))"
  by pat_completeness auto
termination
  by (relation "measure (\<lambda>(w, data). length data)") auto

declare writeFull.simps [simp del]

definition WriteUnchecked :: "writer \<Rightarrow> byte list \<Rightarrow> frame_error option \<times> writer" where
  "WriteUnchecked w payload =
     (if length payload > 2 ^ 32 - 1 then (Some (ErrPayloadTooLarge (length payload)), w)
      else case writeFull w (putUint 4 (length payload)) of
        (Some err, w) \<Rightarrow> (Some err, w)
      | (None, w) \<Rightarrow> writeFull w payload)"

definition WriteLimit :: "writer \<Rightarrow> byte list \<Rightarrow> nat \<Rightarrow> frame_error option \<times> writer" where
  "WriteLimit w payload limit =
     (let limit = (if limit = 0 then MaxPayload else limit)
      in if length payload > limit then (Some (ErrPayloadTooLarge (length payload)), w)
         else WriteUnchecked w payload)"

definition Write :: "writer \<Rightarrow> byte list \<Rightarrow> frame_error option \<times> writer" where
  "Write w payload = WriteLimit w payload MaxPayload"

text \<open>The bytes of one frame, and reading \<open>n\<close> frames in a row.\<close>

definition frameOf :: "byte list \<Rightarrow> byte list" where
  "frameOf payload = putUint 4 (length payload) @ payload"

fun readAll :: "nat \<Rightarrow> byte list \<Rightarrow> nat \<Rightarrow> (frame_error + byte list list) \<times> byte list" where
  "readAll 0 r limit = (Inr [], r)"
| "readAll (Suc n) r limit =
     (case ReadLimit r limit of
        (Inl e, r) \<Rightarrow> (Inl e, r)
      | (Inr p, r) \<Rightarrow> (case readAll n r limit of (Inl e, r) \<Rightarrow> (Inl e, r) | (Inr ps, r) \<Rightarrow> (Inr (p # ps), r)))"

fun writeAll :: "writer \<Rightarrow> byte list list \<Rightarrow> nat \<Rightarrow> frame_error option \<times> writer" where
  "writeAll w [] limit = (None, w)"
| "writeAll w (p # ps) limit =
     (case WriteLimit w p limit of (Some e, w) \<Rightarrow> (Some e, w) | (None, w) \<Rightarrow> writeAll w ps limit)"

definition demo_payloads :: "byte list list" where
  "demo_payloads = [[7, 8], []]"

definition demo_writer :: writer where
  "demo_writer = \<lparr>wr_out = [], wr_script = [(1, None), (2, None)]\<rparr>"

subsection \<open>The prefix round trip\<close>

lemma length_putUint [simp]: "length (putUint k n) = k"
  by (induction k arbitrary: n) auto

lemma putUint_4:
  "putUint 4 n = [word_of_nat (n div 256 div 256 div 256), word_of_nat (n div 256 div 256),
     word_of_nat (n div 256), word_of_nat n]"
proof -
  have "putUint (Suc (Suc (Suc (Suc 0)))) n = [word_of_nat (n div 256 div 256 div 256),
      word_of_nat (n div 256 div 256), word_of_nat (n div 256), word_of_nat n]"
    by (simp only: putUint.simps append.simps)
  moreover have "Suc (Suc (Suc (Suc 0))) = 4" by simp
  ultimately show ?thesis by metis
qed

lemma getUint_append [simp]: "getUint (xs @ [b]) = getUint xs * 256 + unat b"
  by (simp add: getUint_def)

lemma unat_byte: "unat (word_of_nat n :: byte) = n mod 256"
  by (simp add: unat_of_nat)

lemma getUint_putUint: "n < 256 ^ k \<Longrightarrow> getUint (putUint k n) = n"
proof (induction k arbitrary: n)
  case (Suc k)
  then have "n div 256 < 256 ^ k" by (simp add: less_mult_imp_div_less mult.commute)
  with Suc.IH show ?case by (simp add: unat_byte)
qed (simp add: getUint_def)

lemma getUint_bound: "getUint bs < 256 ^ length bs"
proof (induction bs rule: rev_induct)
  case (snoc b bs)
  have "unat b < 256" using unsigned_less [of b] by simp
  then have "getUint bs * 256 + unat b < Suc (getUint bs) * 256" by simp
  also have "\<dots> \<le> 256 ^ length bs * 256" using snoc by (intro mult_le_mono1) simp
  finally show ?case by (simp add: mult.commute)
qed (simp add: getUint_def)

subsection \<open>What writing does\<close>

text \<open>
  Success means that exactly the data was written; an error means that a proper part of
  it was.
\<close>

lemma writeFull_out:
  "case writeFull w data of
     (None, w') \<Rightarrow> wr_out w' = wr_out w @ data
   | (Some e, w') \<Rightarrow> \<exists>done. prefix done data \<and> wr_out w' = wr_out w @ done"
proof (induction w data rule: writeFull.induct)
  case (1 w data)
  show ?case
  proof (cases "data = []")
    case True
    then show ?thesis by (simp add: writeFull.simps)
  next
    case False
    obtain w1 n err where c: "Write_call w data = (w1, n, err)" by (metis prod_cases3)
    then have out: "wr_out w1 = wr_out w @ take n data" "n \<le> length data"
      by (auto simp: Write_call_def min_def split: list.splits prod.splits)
    show ?thesis
    proof (cases err)
      case (Some e)
      with False c out show ?thesis
        by (auto simp: writeFull.simps [of w data] intro!: exI [of _ "take n data"] take_is_prefix)
    next
      case None
      show ?thesis
      proof (cases "n = 0")
        case True
        with False c None out show ?thesis
          by (simp add: writeFull.simps [of w data])
      next
        case n: False
        have step: "writeFull w data = writeFull w1 (drop n data)"
          using False c None n by (simp add: writeFull.simps [of w data])
        have "case writeFull w1 (drop n data) of
            (None, w') \<Rightarrow> wr_out w' = wr_out w1 @ drop n data
          | (Some e, w') \<Rightarrow> \<exists>done. prefix done (drop n data) \<and> wr_out w' = wr_out w1 @ done"
          using "1.IH" [OF False c [symmetric] refl None n] .
        then show ?thesis
          unfolding step
          by (auto simp: out split: prod.splits option.splits)
            (metis append_take_drop_id same_prefix_prefix)
      qed
    qed
  qed
qed

lemma frame_length: "length (frameOf payload) = HeadLen + length payload"
  by (simp add: frameOf_def HeadLen_def)

lemma WriteUnchecked_out:
  "case WriteUnchecked w payload of
     (None, w') \<Rightarrow> wr_out w' = wr_out w @ frameOf payload \<and> length payload < 2 ^ 32
   | (Some e, w') \<Rightarrow> \<exists>done. prefix done (frameOf payload) \<and> wr_out w' = wr_out w @ done"
proof (cases "length payload > 2 ^ 32 - 1")
  case True
  then show ?thesis by (simp add: WriteUnchecked_def)
next
  case False
  obtain e1 w1 where c1: "writeFull w (putUint 4 (length payload)) = (e1, w1)" by (cases "writeFull w (putUint 4 (length payload))")
  obtain e2 w2 where c2: "writeFull w1 payload = (e2, w2)" by (cases "writeFull w1 payload")
  note o1 = writeFull_out [of w "putUint 4 (length payload)", unfolded c1]
  note o2 = writeFull_out [of w1 payload, unfolded c2]
  show ?thesis
    using False o1 o2
    by (auto simp: WriteUnchecked_def c1 c2 frameOf_def split: option.splits intro: prefixI
        dest: prefix_prefix)
qed

lemma WriteLimit_out:
  "case WriteLimit w payload limit of
     (None, w') \<Rightarrow> wr_out w' = wr_out w @ frameOf payload \<and> length payload < 2 ^ 32
       \<and> length payload \<le> (if limit = 0 then MaxPayload else limit)
   | (Some e, w') \<Rightarrow> \<exists>done. prefix done (frameOf payload) \<and> wr_out w' = wr_out w @ done"
  using WriteUnchecked_out [of w payload]
  by (auto simp: WriteLimit_def Let_def split: prod.splits option.splits)

subsection \<open>What reading does\<close>

lemma ReadLimit_frame:
  assumes "length payload < 2 ^ 32" and "length payload \<le> (if limit = 0 then MaxPayload else limit)"
  shows "ReadLimit (frameOf payload @ rest) limit = (Inr payload, rest)"
proof -
  have "getUint (putUint 4 (length payload)) = length payload"
    using assms(1) by (intro getUint_putUint) simp
  with assms(2) show ?thesis
    by (simp add: ReadLimit_def ReadFull_def frameOf_def HeadLen_def Let_def)
qed

lemma ReadLimit_cases:
  assumes "ReadLimit r limit = (res, r')"
  shows "suffix r' r" "res = Inr p \<Longrightarrow> length p \<le> (if limit = 0 then MaxPayload else limit)
      \<and> length r = HeadLen + length p + length r'"
  using assms
  by (auto simp: ReadLimit_def ReadFull_def Let_def suffix_drop split: if_splits)

subsection \<open>The theorems\<close>

lemma writeAll_readAll:
  "writeAll w ps limit = (None, w') \<Longrightarrow>
     \<exists>bytes. wr_out w' = wr_out w @ bytes \<and> readAll (length ps) (bytes @ rest) limit = (Inr ps, rest)"
proof (induction ps arbitrary: w)
  case (Cons p ps)
  then obtain w1 where w1: "WriteLimit w p limit = (None, w1)" "writeAll w1 ps limit = (None, w')"
    by (auto split: prod.splits option.splits)
  from WriteLimit_out [of w p limit] w1(1) have p: "wr_out w1 = wr_out w @ frameOf p" "length p < 2 ^ 32"
    "length p \<le> (if limit = 0 then MaxPayload else limit)" by auto
  from Cons.IH [OF w1(2)] obtain bytes where
    b: "wr_out w' = wr_out w1 @ bytes" "readAll (length ps) (bytes @ rest) limit = (Inr ps, rest)" by auto
  have "readAll (length (p # ps)) ((frameOf p @ bytes) @ rest) limit = (Inr (p # ps), rest)"
    using ReadLimit_frame [OF p(2,3), of "bytes @ rest"] b(2) by simp
  with b(1) p(1) show ?case by (metis append.assoc)
qed simp

text \<open>
  Frames survive the wire.  Whatever the writers accept piecemeal, if the frames
  were written without an error then a peer with the same limit reads back exactly
  these payloads, in order, and leaves the bytes that follow untouched.
\<close>

theorem frames_roundtrip:
  assumes "writeAll w ps limit = (None, w')"
  shows "\<exists>bytes. wr_out w' = wr_out w @ bytes
    \<and> (\<forall>rest. readAll (length ps) (bytes @ rest) limit = (Inr ps, rest))"
proof -
  from writeAll_readAll [OF assms] obtain bytes where b: "wr_out w' = wr_out w @ bytes" by blast
  have "readAll (length ps) (bytes @ rest) limit = (Inr ps, rest)" for rest
    using writeAll_readAll [OF assms, of rest] b by auto
  with b show ?thesis by blast
qed

theorem frames_roundtrip_witness:
  "\<exists>bytes. wr_out (snd (writeAll demo_writer demo_payloads 0)) = wr_out demo_writer @ bytes
    \<and> (\<forall>rest. readAll (length demo_payloads) (bytes @ rest) 0 = (Inr demo_payloads, rest))"
proof (rule frames_roundtrip)
  have "fst (writeAll demo_writer demo_payloads 0) = None"
    by (simp add: demo_writer_def demo_payloads_def WriteLimit_def WriteUnchecked_def putUint_4
        writeFull.simps Write_call_def MaxPayload_def Let_def)
  then show "writeAll demo_writer demo_payloads 0 = (None, snd (writeAll demo_writer demo_payloads 0))"
    by (simp add: prod_eq_iff)
qed

text \<open>
  A failed write never forges bytes.  Whatever error \<open>WriteLimit\<close> returns, what has
  gone out is a beginning of the frame; success means that all of it has.
\<close>

theorem write_outputs_prefix:
  "case WriteLimit w payload limit of
     (None, w') \<Rightarrow> wr_out w' = wr_out w @ frameOf payload
   | (Some e, w') \<Rightarrow> \<exists>done. prefix done (frameOf payload) \<and> wr_out w' = wr_out w @ done"
  using WriteLimit_out [of w payload limit] by (auto split: prod.splits option.splits)

text \<open>
  Reading is bounded.  A payload that \<open>ReadLimit\<close> returns is never longer than the
  limit, the bytes consumed are exactly its prefix and itself, and a declared length above
  the limit is rejected with nothing but the prefix consumed.
\<close>

theorem read_bounded:
  assumes "ReadLimit r limit = (res, r')"
  shows "case res of
      Inr p \<Rightarrow> length p \<le> (if limit = 0 then MaxPayload else limit)
        \<and> length r = HeadLen + length p + length r' \<and> suffix r' r
    | Inl (ErrPayloadTooLarge n) \<Rightarrow> n > (if limit = 0 then MaxPayload else limit) \<and> n < 2 ^ 32
        \<and> r' = drop HeadLen r
    | Inl _ \<Rightarrow> r' = []"
proof -
  have "getUint (take 4 r) < 2 ^ 32" if "4 \<le> length r"
    using getUint_bound [of "take 4 r"] that by simp
  with assms show ?thesis
    by (auto simp: ReadLimit_def ReadFull_def HeadLen_def Let_def suffix_drop split: if_splits)
qed

theorem read_bounded_witness:
  "ReadLimit [0, 0, 0, 9, 1] 8 = (Inl (ErrPayloadTooLarge 9), [1]) \<and> (9::nat) < 2 ^ 32"
proof -
  have r: "ReadLimit [0, 0, 0, 9, 1] 8 = (Inl (ErrPayloadTooLarge 9), [1])"
    by (simp add: ReadLimit_def ReadFull_def HeadLen_def getUint_def)
  from read_bounded [OF r] r show ?thesis by simp
qed

end
