(* ===== verification/Timer_Wheel.thy ===== *)
theory Timer_Wheel
  imports Sky_Prelude
begin

text \<open>
  The timing wheel of \<open>timer/timing_wheel.go\<close>.  The array of slots is a function of the slot number;
  instants and durations are integers (nanoseconds).  \<open>tick\<close> empties a slot under the wheel's mutex
  and runs the callbacks after it has released it, so a history interleaves the steps of a tick with
  the operations of other goroutines; \<open>wheel_step\<close> is one such step.  \<open>tw_running\<close> holds the
  callback goroutines that have not returned, \<open>tw_log\<close> all that were launched.
\<close>

section \<open>The wheel\<close>

definition second :: int where "second = 1000000000"

definition wheelSlots :: nat where "wheelSlots = 3600"

definition defaultCallbackTimeout :: int where "defaultCallbackTimeout = 3 * second"

definition hour :: int where "hour = 3600 * second"

datatype wheel_error = ErrTimerOutOfRange

record TimingWheelOptions =
  o_CallbackTimeout :: int
  o_MetricsReportInterval :: int
  o_DedupWindow :: int

record TimingWheelMetrics =
  TasksSubmitted :: nat
  TasksExecuted :: nat
  TasksExecutionError :: nat

record TimingWheel =
  tw_slots :: "nat \<Rightarrow> nat list"
  tw_current :: nat
  tw_callback :: bool
  tw_stopCh :: bool
  tw_startOnce :: bool
  tw_stopOnce :: bool
  tw_callbackTimeout :: int
  tw_metricsReportInterval :: int
  tw_metrics :: TimingWheelMetrics
  tw_dedupWindow :: int
  tw_lastFired :: "nat \<rightharpoonup> int"
  tw_goroutines :: nat
  tw_tick :: "(nat list \<times> int) option"
  tw_running :: "nat list"
  tw_log :: "nat list"

definition NewTimingWheel :: "bool \<Rightarrow> TimingWheelOptions \<Rightarrow> TimingWheel" where
  "NewTimingWheel callback opts =
     \<lparr>tw_slots = \<lambda>_. [], tw_current = 0, tw_callback = callback, tw_stopCh = False,
      tw_startOnce = False, tw_stopOnce = False,
      tw_callbackTimeout = (if o_CallbackTimeout opts \<le> 0 then defaultCallbackTimeout else o_CallbackTimeout opts),
      tw_metricsReportInterval = o_MetricsReportInterval opts,
      tw_metrics = \<lparr>TasksSubmitted = 0, TasksExecuted = 0, TasksExecutionError = 0\<rparr>,
      tw_dedupWindow = o_DedupWindow opts, tw_lastFired = Map.empty,
      tw_goroutines = 0, tw_tick = None, tw_running = [], tw_log = []\<rparr>"

definition WheelSetDedupWindow :: "int \<Rightarrow> TimingWheel \<Rightarrow> TimingWheel" where
  "WheelSetDedupWindow d tw = tw\<lparr>tw_dedupWindow := d, tw_lastFired := Map.empty\<rparr>"

definition slotsAhead :: "int \<Rightarrow> nat" where
  "slotsAhead delay =
     (if delay \<le> 0 then 0
      else let n = nat (go_div delay second) in if n = 0 then 1 else n)"

text \<open>\<open>atomic.AddUint64\<close> with 1.\<close>

definition inc64 :: "nat \<Rightarrow> nat" where
  "inc64 n = (n + 1) mod 2 ^ 64"

definition submitTask :: "nat \<Rightarrow> TimingWheel \<Rightarrow> TimingWheel" where
  "submitTask tid tw =
     tw\<lparr>tw_metrics := (tw_metrics tw)\<lparr>TasksSubmitted := inc64 (TasksSubmitted (tw_metrics tw))\<rparr>,
        tw_running := tid # tw_running tw, tw_log := tw_log tw @ [tid]\<rparr>"

text \<open>The end of a callback goroutine, with or without a panic that its deferred function recovers.\<close>

definition callback_done :: "nat \<Rightarrow> bool \<Rightarrow> TimingWheel \<Rightarrow> TimingWheel" where
  "callback_done tid panicked tw =
     (if tid \<notin> set (tw_running tw) then tw
      else let m = tw_metrics tw
           in tw\<lparr>tw_running := remove1 tid (tw_running tw),
                 tw_metrics := (if panicked then m\<lparr>TasksExecutionError := inc64 (TasksExecutionError m)\<rparr>
                                else m\<lparr>TasksExecuted := inc64 (TasksExecuted m)\<rparr>)\<rparr>)"

definition clearLastFired :: "nat \<Rightarrow> TimingWheel \<Rightarrow> TimingWheel" where
  "clearLastFired tid tw = tw\<lparr>tw_lastFired := (tw_lastFired tw)(tid := None)\<rparr>"

definition isDeduped :: "nat \<Rightarrow> int \<Rightarrow> TimingWheel \<Rightarrow> bool \<times> TimingWheel" where
  "isDeduped tid now tw =
     (if tw_dedupWindow tw \<le> 0 then (False, tw)
      else if (case tw_lastFired tw tid of None \<Rightarrow> False | Some t \<Rightarrow> now - t < tw_dedupWindow tw)
      then (True, tw)
      else (False, tw\<lparr>tw_lastFired := (tw_lastFired tw)(tid \<mapsto> now)\<rparr>))"

definition cleanLastFired :: "int \<Rightarrow> TimingWheel \<Rightarrow> TimingWheel" where
  "cleanLastFired now tw =
     (if tw_dedupWindow tw \<le> 0 then tw
      else tw\<lparr>tw_lastFired := (\<lambda>tid. case tw_lastFired tw tid of
                None \<Rightarrow> None
              | Some firedAt \<Rightarrow> if now - firedAt \<ge> tw_dedupWindow tw then None else Some firedAt)\<rparr>)"

text \<open>\<open>tw.callback != nil && !tw.isDeduped(id, now)\<close> and then \<open>submitTask\<close>.\<close>

definition fire :: "nat \<Rightarrow> int \<Rightarrow> TimingWheel \<Rightarrow> TimingWheel" where
  "fire tid now tw =
     (if tw_callback tw
      then let r = isDeduped tid now tw in if fst r then snd r else submitTask tid (snd r)
      else tw)"

definition removeFromSlots :: "nat \<Rightarrow> TimingWheel \<Rightarrow> TimingWheel" where
  "removeFromSlots tid tw =
     (case find (\<lambda>i. tid \<in> set (tw_slots tw i)) [0..<wheelSlots] of
        None \<Rightarrow> tw
      | Some i \<Rightarrow> tw\<lparr>tw_slots := (tw_slots tw)(i := remove1 tid (tw_slots tw i))\<rparr>)"

text \<open>\<open>now\<close> is the clock that \<open>time.Until\<close> reads, \<open>now'\<close> the one read for the duplicate check.\<close>

definition WheelAdd :: "nat \<Rightarrow> int \<Rightarrow> int \<Rightarrow> int \<Rightarrow> TimingWheel \<Rightarrow> wheel_error option \<times> TimingWheel" where
  "WheelAdd tid expireTime now now' tw =
     (let delay = expireTime - now
      in if delay \<le> 0 then (None, fire tid now' tw)
         else if delay > hour then (Some ErrTimerOutOfRange, tw)
         else let tw = removeFromSlots tid tw;
                  slot = (tw_current tw + slotsAhead delay) mod wheelSlots
              in (None, tw\<lparr>tw_slots := (tw_slots tw)(slot := tw_slots tw slot @ [tid])\<rparr>))"

definition WheelRemove :: "nat \<Rightarrow> TimingWheel \<Rightarrow> TimingWheel" where
  "WheelRemove tid tw = removeFromSlots tid (clearLastFired tid tw)"

definition WheelReschedule :: "nat \<Rightarrow> int \<Rightarrow> int \<Rightarrow> int \<Rightarrow> TimingWheel \<Rightarrow> wheel_error option \<times> TimingWheel" where
  "WheelReschedule tid expireTime now now' tw = WheelAdd tid expireTime now now' (clearLastFired tid tw)"

definition WheelStart :: "TimingWheel \<Rightarrow> TimingWheel" where
  "WheelStart tw =
     (if tw_startOnce tw then tw
      else tw\<lparr>tw_startOnce := True,
              tw_goroutines := tw_goroutines tw + (if tw_metricsReportInterval tw > 0 then 2 else 1)\<rparr>)"

definition WheelStop :: "TimingWheel \<Rightarrow> TimingWheel" where
  "WheelStop tw = (if tw_stopOnce tw then tw else tw\<lparr>tw_stopOnce := True, tw_stopCh := True\<rparr>)"

definition GetMetrics :: "TimingWheel \<Rightarrow> TimingWheelMetrics" where
  "GetMetrics tw = tw_metrics tw"

text \<open>The part of \<open>tick\<close> under the mutex, and the whole of it when nothing interleaves.\<close>

definition tick_take :: "TimingWheel \<Rightarrow> nat list \<times> TimingWheel" where
  "tick_take tw =
     (let c = (tw_current tw + 1) mod wheelSlots
      in (tw_slots tw c, tw\<lparr>tw_current := c, tw_slots := (tw_slots tw)(c := [])\<rparr>))"

definition tick :: "int \<Rightarrow> TimingWheel \<Rightarrow> TimingWheel" where
  "tick now tw = (let (ids, tw) = tick_take tw in cleanLastFired now (fold (\<lambda>tid. fire tid now) ids tw))"

section \<open>Histories\<close>

datatype wheel_ev =
    EvAdd nat int int int
  | EvRemove nat
  | EvClear nat
  | EvSetDedup int
  | EvTake int
  | EvFire
  | EvClean
  | EvDone nat bool

text \<open>
  One step.  \<open>EvClear\<close> followed later by \<open>EvAdd\<close> is \<open>Reschedule\<close>; \<open>EvTake\<close>, one \<open>EvFire\<close> per
  identifier and \<open>EvClean\<close> are a tick, and only one tick is in progress at a time because one
  goroutine runs them.
\<close>

fun wheel_step :: "wheel_ev \<Rightarrow> TimingWheel \<Rightarrow> TimingWheel" where
  "wheel_step (EvAdd tid e now now') tw = snd (WheelAdd tid e now now' tw)"
| "wheel_step (EvRemove tid) tw = WheelRemove tid tw"
| "wheel_step (EvClear tid) tw = clearLastFired tid tw"
| "wheel_step (EvSetDedup d) tw = WheelSetDedupWindow d tw"
| "wheel_step (EvTake now) tw =
     (case tw_tick tw of
        None \<Rightarrow> let (ids, tw) = tick_take tw in tw\<lparr>tw_tick := Some (ids, now)\<rparr>
      | Some _ \<Rightarrow> tw)"
| "wheel_step EvFire tw =
     (case tw_tick tw of
        Some (tid # ids, now) \<Rightarrow> fire tid now (tw\<lparr>tw_tick := Some (ids, now)\<rparr>)
      | _ \<Rightarrow> tw)"
| "wheel_step EvClean tw =
     (case tw_tick tw of
        Some ([], now) \<Rightarrow> cleanLastFired now (tw\<lparr>tw_tick := None\<rparr>)
      | _ \<Rightarrow> tw)"
| "wheel_step (EvDone tid panicked) tw = callback_done tid panicked tw"

fun ev_enabled :: "wheel_ev \<Rightarrow> TimingWheel \<Rightarrow> bool" where
  "ev_enabled (EvTake now) tw = (tw_tick tw = None)"
| "ev_enabled EvFire tw = (case tw_tick tw of Some (tid # ids, now) \<Rightarrow> True | _ \<Rightarrow> False)"
| "ev_enabled EvClean tw = (case tw_tick tw of Some ([], now) \<Rightarrow> True | _ \<Rightarrow> False)"
| "ev_enabled (EvDone tid panicked) tw = (tid \<in> set (tw_running tw))"
| "ev_enabled ev tw = True"

fun wheel_trace :: "wheel_ev list \<Rightarrow> TimingWheel \<Rightarrow> TimingWheel option" where
  "wheel_trace [] tw = Some tw"
| "wheel_trace (ev # evs) tw = (if ev_enabled ev tw then wheel_trace evs (wheel_step ev tw) else None)"

section \<open>The specification: a countdown per identifier\<close>

text \<open>
  Every scheduled identifier has a number of ticks to go.  An \<open>Add\<close> within the range of the wheel sets
  it, a \<open>Remove\<close> erases it, a tick decrements it, and nothing else changes it; in particular an \<open>Add\<close>
  whose deadline has passed, or lies beyond an hour, leaves an existing countdown as it was.
\<close>

fun countdown_step :: "wheel_ev \<Rightarrow> (nat \<rightharpoonup> nat) \<Rightarrow> (nat \<rightharpoonup> nat)" where
  "countdown_step (EvAdd tid e now now') m =
     (if 0 < e - now \<and> e - now \<le> hour then m(tid \<mapsto> slotsAhead (e - now)) else m)"
| "countdown_step (EvRemove tid) m = m(tid := None)"
| "countdown_step (EvTake now) m =
     (\<lambda>tid. case m tid of None \<Rightarrow> None | Some d \<Rightarrow> if d \<le> 1 then None else Some (d - 1))"
| "countdown_step ev m = m"

definition slotOf :: "TimingWheel \<Rightarrow> nat \<rightharpoonup> nat" where
  "slotOf tw tid = find (\<lambda>i. tid \<in> set (tw_slots tw i)) [0..<wheelSlots]"

definition ahead :: "nat \<Rightarrow> nat \<Rightarrow> nat" where
  "ahead c i = (if c < i then i - c else i + wheelSlots - c)"

definition countdown :: "TimingWheel \<Rightarrow> nat \<rightharpoonup> nat" where
  "countdown tw tid = map_option (ahead (tw_current tw)) (slotOf tw tid)"

definition wheel_ok :: "TimingWheel \<Rightarrow> bool" where
  "wheel_ok tw \<longleftrightarrow> tw_current tw < wheelSlots \<and> (\<forall>i. distinct (tw_slots tw i))
     \<and> (\<forall>i j tid. tid \<in> set (tw_slots tw i) \<and> tid \<in> set (tw_slots tw j) \<longrightarrow> i = j)
     \<and> (\<forall>i tid. tid \<in> set (tw_slots tw i) \<longrightarrow> i < wheelSlots)"

lemma wheel_okD:
  assumes "wheel_ok tw"
  shows "tw_current tw < wheelSlots" "distinct (tw_slots tw i)"
    "tid \<in> set (tw_slots tw i) \<Longrightarrow> tid \<in> set (tw_slots tw j) \<Longrightarrow> i = j"
    "tid \<in> set (tw_slots tw i) \<Longrightarrow> i < wheelSlots"
  using assms unfolding wheel_ok_def by blast+

lemma wheelSlots_pos [simp]: "0 < wheelSlots" by (simp add: wheelSlots_def)

lemma slotOf_iff: "wheel_ok tw \<Longrightarrow> slotOf tw tid = Some i \<longleftrightarrow> tid \<in> set (tw_slots tw i)"
proof -
  assume ok: "wheel_ok tw"
  have "(\<exists>k < wheelSlots. tid \<in> set (tw_slots tw k) \<and> i = k \<and> (\<forall>j < k. tid \<notin> set (tw_slots tw j)))
    \<longleftrightarrow> tid \<in> set (tw_slots tw i)"
    using wheel_okD(3,4) [OF ok, of tid] by (metis nat_neq_iff)
  then show ?thesis by (auto simp: slotOf_def find_Some_iff)
qed

lemma slotOf_None: "wheel_ok tw \<Longrightarrow> slotOf tw tid = None \<longleftrightarrow> (\<forall>i. tid \<notin> set (tw_slots tw i))"
  using slotOf_iff [of tw tid] by (metis not_None_eq)

lemma countdown_iff:
  "wheel_ok tw \<Longrightarrow> countdown tw tid = Some d \<longleftrightarrow> (\<exists>i. tid \<in> set (tw_slots tw i) \<and> d = ahead (tw_current tw) i)"
  using slotOf_iff [of tw tid] by (auto simp: countdown_def)

lemma countdown_None: "wheel_ok tw \<Longrightarrow> countdown tw tid = None \<longleftrightarrow> (\<forall>i. tid \<notin> set (tw_slots tw i))"
  using slotOf_None [of tw tid] by (simp add: countdown_def)

lemma slots_same:
  assumes "tw_slots tw' = tw_slots tw" and "tw_current tw' = tw_current tw"
  shows "wheel_ok tw' = wheel_ok tw" "countdown tw' = countdown tw"
  using assms by (simp_all add: wheel_ok_def countdown_def slotOf_def fun_eq_iff)

lemma frame_slots [simp]:
  "tw_slots (submitTask tid tw) = tw_slots tw" "tw_current (submitTask tid tw) = tw_current tw"
  "tw_slots (clearLastFired tid tw) = tw_slots tw" "tw_current (clearLastFired tid tw) = tw_current tw"
  "tw_slots (cleanLastFired now tw) = tw_slots tw" "tw_current (cleanLastFired now tw) = tw_current tw"
  "tw_slots (WheelSetDedupWindow w tw) = tw_slots tw" "tw_current (WheelSetDedupWindow w tw) = tw_current tw"
  "tw_slots (callback_done tid p tw) = tw_slots tw" "tw_current (callback_done tid p tw) = tw_current tw"
  "tw_slots (snd (isDeduped tid now tw)) = tw_slots tw" "tw_current (snd (isDeduped tid now tw)) = tw_current tw"
  by (simp_all add: submitTask_def clearLastFired_def cleanLastFired_def WheelSetDedupWindow_def
      callback_done_def isDeduped_def Let_def)

lemma frame_fire [simp]:
  "tw_slots (fire tid now tw) = tw_slots tw" "tw_current (fire tid now tw) = tw_current tw"
  by (simp_all add: fire_def Let_def)

subsection \<open>Slot arithmetic\<close>

lemma mod_slot: "c < wheelSlots \<Longrightarrow> k \<le> wheelSlots \<Longrightarrow>
    (c + k) mod wheelSlots = (if c + k < wheelSlots then c + k else c + k - wheelSlots)"
  by (auto simp: mod_if)

lemma ahead_slot: "c < wheelSlots \<Longrightarrow> 1 \<le> k \<Longrightarrow> k \<le> wheelSlots \<Longrightarrow> ahead c ((c + k) mod wheelSlots) = k"
  by (auto simp: ahead_def mod_slot)

lemma ahead_next:
  assumes "c < wheelSlots" and "i < wheelSlots"
  shows "i = (c + 1) mod wheelSlots \<longleftrightarrow> ahead c i \<le> 1"
    "i \<noteq> (c + 1) mod wheelSlots \<Longrightarrow> ahead ((c + 1) mod wheelSlots) i = ahead c i - 1"
  using assms by (auto simp: ahead_def mod_if split: if_splits)

lemma slotsAhead_bounds:
  assumes "0 < delay" and "delay \<le> hour"
  shows "1 \<le> slotsAhead delay" "slotsAhead delay \<le> wheelSlots"
    "int (slotsAhead delay) * second \<le> max delay second" "delay < (int (slotsAhead delay) + 1) * second"
proof -
  have n: "nat (go_div delay second) = nat (delay div second)"
    using assms by (simp add: go_div_nonneg second_def)
  let ?q = "delay div second"
  have q: "0 \<le> ?q" "?q * second \<le> delay" "delay < (?q + 1) * second" "?q \<le> 3600"
    using assms by (simp_all add: second_def hour_def)
  have "slotsAhead delay = (if ?q = 0 then 1 else nat ?q)"
    using assms q(1) by (simp add: slotsAhead_def n Let_def)
  moreover have "0 < second" by (simp add: second_def)
  ultimately show "1 \<le> slotsAhead delay" "slotsAhead delay \<le> wheelSlots"
    "int (slotsAhead delay) * second \<le> max delay second" "delay < (int (slotsAhead delay) + 1) * second"
    using q by (auto simp: wheelSlots_def)
qed

subsection \<open>The operations\<close>

lemma removeFromSlots_eq: "removeFromSlots tid tw = (case slotOf tw tid of
    None \<Rightarrow> tw | Some i \<Rightarrow> tw\<lparr>tw_slots := (tw_slots tw)(i := remove1 tid (tw_slots tw i))\<rparr>)"
  by (simp add: removeFromSlots_def slotOf_def)

lemma slots_remove:
  assumes ok: "wheel_ok tw"
  shows "tw_slots (removeFromSlots tid tw) j = remove1 tid (tw_slots tw j)"
    "tw_current (removeFromSlots tid tw) = tw_current tw"
proof -
  show "tw_slots (removeFromSlots tid tw) j = remove1 tid (tw_slots tw j)"
  proof (cases "slotOf tw tid")
    case None
    then have "tid \<notin> set (tw_slots tw j)" using slotOf_None [OF ok] by blast
    then show ?thesis using None by (simp add: removeFromSlots_eq remove1_idem)
  next
    case (Some i)
    then have "tid \<in> set (tw_slots tw i)" using slotOf_iff [OF ok] by simp
    then have "j \<noteq> i \<Longrightarrow> tid \<notin> set (tw_slots tw j)" using wheel_okD(3) [OF ok] by blast
    then show ?thesis using Some by (simp add: removeFromSlots_eq remove1_idem)
  qed
  show "tw_current (removeFromSlots tid tw) = tw_current tw"
    by (simp add: removeFromSlots_eq split: option.split)
qed

lemma mem_remove:
  assumes ok: "wheel_ok tw"
  shows "k \<in> set (tw_slots (removeFromSlots tid tw) j) \<longleftrightarrow> k \<noteq> tid \<and> k \<in> set (tw_slots tw j)"
  using wheel_okD(2) [OF ok, of j] by (simp add: slots_remove [OF ok] set_remove1_eq) blast

lemma remove_countdown:
  assumes ok: "wheel_ok tw"
  shows "wheel_ok (removeFromSlots tid tw)" "countdown (removeFromSlots tid tw) = (countdown tw)(tid := None)"
proof -
  show ok': "wheel_ok (removeFromSlots tid tw)"
    unfolding wheel_ok_def mem_remove [OF ok]
    using wheel_okD [OF ok] by (auto simp: slots_remove [OF ok] distinct_remove1)
  show "countdown (removeFromSlots tid tw) = (countdown tw)(tid := None)"
  proof
    fix k
    show "countdown (removeFromSlots tid tw) k = ((countdown tw)(tid := None)) k"
      using countdown_iff [OF ok', of k] countdown_None [OF ok', of k] countdown_iff [OF ok, of k]
        countdown_None [OF ok, of k]
      by (cases "countdown tw k") (auto simp: mem_remove [OF ok] slots_remove(2) [OF ok])
  qed
qed

lemma insert_countdown:
  assumes ok: "wheel_ok tw" and new: "countdown tw tid = None" and k: "1 \<le> k" "k \<le> wheelSlots"
  defines "s \<equiv> (tw_current tw + k) mod wheelSlots"
  defines "tw' \<equiv> tw\<lparr>tw_slots := (tw_slots tw)(s := tw_slots tw s @ [tid])\<rparr>"
  shows "wheel_ok tw' \<and> countdown tw' = (countdown tw)(tid \<mapsto> k)"
proof -
  have fresh: "tid \<notin> set (tw_slots tw i)" for i using new countdown_None [OF ok] by simp
  have mem: "t \<in> set (tw_slots tw' j) \<longleftrightarrow> t \<in> set (tw_slots tw j) \<or> t = tid \<and> j = s" for t j
    by (auto simp: tw'_def)
  have cur: "tw_current tw' = tw_current tw" by (simp add: tw'_def)
  have s: "s < wheelSlots" by (simp add: s_def)
  have ok': "wheel_ok tw'"
    unfolding wheel_ok_def mem cur
    using wheel_okD [OF ok] fresh s by (auto simp: tw'_def)
  have "countdown tw' t = ((countdown tw)(tid \<mapsto> k)) t" for t
  proof (cases "t = tid")
    case True
    then show ?thesis
      using countdown_iff [OF ok', of tid k] ahead_slot [OF wheel_okD(1) [OF ok] k] fresh
      by (auto simp: mem cur s_def)
  next
    case False
    then show ?thesis
      using countdown_iff [OF ok', of t] countdown_None [OF ok', of t] countdown_iff [OF ok, of t]
        countdown_None [OF ok, of t]
      by (cases "countdown tw t") (auto simp: mem cur)
  qed
  with ok' show ?thesis by auto
qed

lemma add_countdown:
  assumes ok: "wheel_ok tw"
  shows "wheel_ok (snd (WheelAdd tid e now now' tw))
    \<and> countdown (snd (WheelAdd tid e now now' tw)) = countdown_step (EvAdd tid e now now') (countdown tw)"
proof -
  let ?d = "e - now"
  consider "?d \<le> 0" | "hour < ?d" | "0 < ?d" "?d \<le> hour" by linarith
  then show ?thesis
  proof cases
    case 1
    then show ?thesis using ok slots_same [of "fire tid now' tw" tw] by (simp add: WheelAdd_def)
  next
    case 2
    then show ?thesis using ok by (simp add: WheelAdd_def hour_def second_def)
  next
    case 3
    note r = remove_countdown [OF ok, of tid]
    from insert_countdown [OF r(1) _ slotsAhead_bounds(1,2) [OF 3], of tid] 3 r(2)
    show ?thesis by (simp add: WheelAdd_def Let_def)
  qed
qed

abbreviation nextSlot :: "TimingWheel \<Rightarrow> nat" where
  "nextSlot tw \<equiv> (tw_current tw + 1) mod wheelSlots"

lemma take_fields:
  "fst (tick_take tw) = tw_slots tw (nextSlot tw)"
  "tw_current (snd (tick_take tw)) = nextSlot tw"
  "tw_slots (snd (tick_take tw)) = (tw_slots tw)(nextSlot tw := [])"
  by (simp_all add: tick_take_def Let_def)

lemma take_mem: "k \<in> set (tw_slots (snd (tick_take tw)) j) \<longleftrightarrow> k \<in> set (tw_slots tw j) \<and> j \<noteq> nextSlot tw"
  by (simp add: take_fields)

lemma take_ok:
  assumes ok: "wheel_ok tw"
  shows "wheel_ok (snd (tick_take tw))"
proof -
  have "distinct (tw_slots (snd (tick_take tw)) i)" for i
    using wheel_okD(2) [OF ok] by (simp add: take_fields)
  moreover have "tw_current (snd (tick_take tw)) < wheelSlots" by (simp add: take_fields)
  ultimately show ?thesis unfolding wheel_ok_def take_mem using wheel_okD(3,4) [OF ok] by blast
qed

lemma take_due:
  assumes ok: "wheel_ok tw"
  shows "k \<in> set (tw_slots tw (nextSlot tw)) \<longleftrightarrow> countdown tw k = Some 1"
proof -
  note c = wheel_okD(1) [OF ok]
  have one: "ahead (tw_current tw) (nextSlot tw) = 1"
    using ahead_slot [OF c, of 1] by (simp add: Suc_le_eq)
  have "i = nextSlot tw" if "k \<in> set (tw_slots tw i)" "ahead (tw_current tw) i \<le> 1" for i
    using ahead_next(1) [OF c wheel_okD(4) [OF ok that(1)]] that(2) by blast
  then show ?thesis using countdown_iff [OF ok, of k 1] one by (metis order_refl)
qed

lemma take_countdown:
  assumes ok: "wheel_ok tw"
  shows "countdown (snd (tick_take tw)) = countdown_step (EvTake now) (countdown tw)"
proof
  fix k
  let ?t = "snd (tick_take tw)"
  note c = wheel_okD(1) [OF ok] and ok' = take_ok [OF ok]
  show "countdown ?t k = countdown_step (EvTake now) (countdown tw) k"
  proof (cases "countdown tw k")
    case None
    then have "\<forall>j. k \<notin> set (tw_slots ?t j)" unfolding take_mem using countdown_None [OF ok, of k] by blast
    then have "countdown ?t k = None" using countdown_None [OF ok', of k] by blast
    with None show ?thesis by simp
  next
    case (Some d)
    then obtain i where i: "k \<in> set (tw_slots tw i)" "d = ahead (tw_current tw) i"
      using countdown_iff [OF ok, of k d] by blast
    note n = ahead_next [OF c wheel_okD(4) [OF ok i(1)]]
    show ?thesis
    proof (cases "i = nextSlot tw")
      case True
      then have "\<forall>j. k \<notin> set (tw_slots ?t j)" unfolding take_mem using wheel_okD(3) [OF ok i(1)] by blast
      then have "countdown ?t k = None" using countdown_None [OF ok', of k] by blast
      moreover have "d \<le> 1" using n(1) [THEN iffD1, OF True] i(2) by simp
      ultimately show ?thesis using Some by simp
    next
      case False
      then have "countdown ?t k = Some (d - 1)"
        unfolding countdown_iff [OF ok'] take_mem take_fields(2) i(2) n(2) [OF False, symmetric]
        using i(1) by blast
      moreover have "\<not> d \<le> 1"
      proof
        assume "d \<le> 1"
        then have "ahead (tw_current tw) i \<le> 1" unfolding i(2) .
        from n(1) [THEN iffD2, OF this] False show False by contradiction
      qed
      ultimately show ?thesis using Some by simp
    qed
  qed
qed

lemma frame_countdown:
  assumes "wheel_ok tw" and "tw_slots tw' = tw_slots tw" and "tw_current tw' = tw_current tw"
  shows "wheel_ok tw' \<and> countdown tw' = countdown tw"
  using assms(1) slots_same [OF assms(2,3)] by blast

lemma step_countdown:
  assumes ok: "wheel_ok tw" and en: "ev_enabled ev tw"
  shows "wheel_ok (wheel_step ev tw) \<and> countdown (wheel_step ev tw) = countdown_step ev (countdown tw)"
proof (cases ev)
  case (EvAdd tid e now now')
  show ?thesis unfolding EvAdd wheel_step.simps by (rule add_countdown [OF ok])
next
  case (EvRemove tid)
  have "wheel_ok (clearLastFired tid tw) \<and> countdown (clearLastFired tid tw) = countdown tw"
    by (rule frame_countdown [OF ok]) simp_all
  then show ?thesis using remove_countdown [of "clearLastFired tid tw" tid] EvRemove
    by (simp add: WheelRemove_def)
next
  case (EvTake now)
  let ?t = "snd (tick_take tw)"
  have "wheel_step ev tw = ?t\<lparr>tw_tick := Some (fst (tick_take tw), now)\<rparr>"
    using en EvTake by (simp split: prod.split)
  moreover have "wheel_ok (?t\<lparr>tw_tick := x\<rparr>) \<and> countdown (?t\<lparr>tw_tick := x\<rparr>) = countdown ?t" for x
    by (rule frame_countdown [OF take_ok [OF ok]]) simp_all
  ultimately show ?thesis unfolding EvTake using take_countdown [OF ok, of now] by simp
next
  case EvFire
  then obtain tid ids now where "tw_tick tw = Some (tid # ids, now)"
    using en by (auto split: option.splits list.splits)
  then show ?thesis unfolding EvFire countdown_step.simps by (intro frame_countdown [OF ok]) simp_all
next
  case EvClean
  then obtain now where "tw_tick tw = Some ([], now)"
    using en by (auto split: option.splits list.splits)
  then show ?thesis unfolding EvClean countdown_step.simps by (intro frame_countdown [OF ok]) simp_all
next
  case (EvClear tid)
  show ?thesis unfolding EvClear countdown_step.simps by (intro frame_countdown [OF ok]) simp_all
next
  case (EvSetDedup d)
  show ?thesis unfolding EvSetDedup countdown_step.simps by (intro frame_countdown [OF ok]) simp_all
next
  case (EvDone tid panicked)
  show ?thesis unfolding EvDone countdown_step.simps by (intro frame_countdown [OF ok]) simp_all
qed

lemma new_countdown: "wheel_ok (NewTimingWheel cb opts)" "countdown (NewTimingWheel cb opts) = Map.empty"
  by (simp_all add: wheel_ok_def NewTimingWheel_def countdown_def slotOf_def fun_eq_iff find_None_iff)

lemma trace_countdown:
  "wheel_ok tw \<Longrightarrow> wheel_trace evs tw = Some tw' \<Longrightarrow>
     wheel_ok tw' \<and> countdown tw' = fold countdown_step evs (countdown tw)"
proof (induction evs arbitrary: tw)
  case (Cons ev evs)
  then have en: "ev_enabled ev tw" and tr: "wheel_trace evs (wheel_step ev tw) = Some tw'"
    by (simp_all split: if_splits)
  note s = step_countdown [OF Cons.prems(1) en]
  show ?case using Cons.IH [OF s [THEN conjunct1] tr] unfolding s [THEN conjunct2] fold_simps .
qed simp


lemma tick_frame [simp]:
  "tw_tick (fire tid now tw) = tw_tick tw" "tw_tick (removeFromSlots tid tw) = tw_tick tw"
  by (simp_all add: fire_def isDeduped_def submitTask_def removeFromSlots_def Let_def split: option.split)

lemma tick_add [simp]: "tw_tick (snd (WheelAdd tid e now now' tw)) = tw_tick tw"
  by (simp add: WheelAdd_def Let_def)

definition demo_wheel :: TimingWheel where
  "demo_wheel = NewTimingWheel True \<lparr>o_CallbackTimeout = 0, o_MetricsReportInterval = 0, o_DedupWindow = 0\<rparr>"


subsection \<open>Callbacks\<close>

text \<open>
  The counters of \<open>GetMetrics\<close> account for every callback: modulo \<open>2^64\<close>, the submitted ones are those that
  returned, those that panicked and those that still run.
\<close>

definition metrics_ok :: "TimingWheel \<Rightarrow> bool" where
  "metrics_ok tw \<longleftrightarrow> TasksSubmitted (tw_metrics tw) =
     (TasksExecuted (tw_metrics tw) + TasksExecutionError (tw_metrics tw) + length (tw_running tw)) mod 2 ^ 64"

lemma metrics_frame [simp]:
  "metrics_ok (tw\<lparr>tw_slots := s\<rparr>) = metrics_ok tw" "metrics_ok (tw\<lparr>tw_lastFired := m\<rparr>) = metrics_ok tw"
  "metrics_ok (tw\<lparr>tw_tick := t\<rparr>) = metrics_ok tw" "metrics_ok (tw\<lparr>tw_current := c\<rparr>) = metrics_ok tw"
  "metrics_ok (tw\<lparr>tw_dedupWindow := w\<rparr>) = metrics_ok tw"
  by (simp_all add: metrics_ok_def)

lemma metrics_submit: "metrics_ok tw \<Longrightarrow> metrics_ok (submitTask tid tw)"
  by (simp add: metrics_ok_def submitTask_def inc64_def mod_simps)

lemma metrics_dedup: "metrics_ok (snd (isDeduped tid now tw)) = metrics_ok tw"
  by (simp add: isDeduped_def)

lemma metrics_fire: "metrics_ok tw \<Longrightarrow> metrics_ok (fire tid now tw)"
  by (simp add: fire_def Let_def metrics_submit metrics_dedup)

lemma metrics_remove [simp]: "metrics_ok (removeFromSlots tid tw) = metrics_ok tw"
  by (simp add: removeFromSlots_def split: option.split)

lemma metrics_add: "metrics_ok tw \<Longrightarrow> metrics_ok (snd (WheelAdd tid e now now' tw))"
  by (simp add: WheelAdd_def Let_def metrics_fire)

lemma mod_add_middle: "(a + b mod n + c) mod n = (a + b + c) mod n" for a b c n :: nat
  by (metis mod_add_left_eq mod_add_right_eq)

lemma mod_add_front: "(a mod n + b + c) mod n = (a + b + c) mod n" for a b c n :: nat
  by (metis mod_add_left_eq add.assoc)

lemma metrics_done: "metrics_ok tw \<Longrightarrow> metrics_ok (callback_done tid p tw)"
proof -
  assume ok: "metrics_ok tw"
  have "length (tw_running tw) = Suc (length (remove1 tid (tw_running tw)))" if "tid \<in> set (tw_running tw)"
    using that length_pos_if_in_set [OF that] by (simp add: length_remove1)
  with ok show ?thesis
    by (auto simp: metrics_ok_def callback_done_def Let_def inc64_def mod_add_middle mod_add_front)
qed

lemma metrics_step: "metrics_ok tw \<Longrightarrow> metrics_ok (wheel_step ev tw)"
  by (cases ev) (auto simp: metrics_add metrics_done metrics_fire clearLastFired_def cleanLastFired_def
      WheelSetDedupWindow_def WheelRemove_def tick_take_def Let_def split: option.split list.split)

lemma trace_metrics: "metrics_ok tw \<Longrightarrow> wheel_trace evs tw = Some tw' \<Longrightarrow> metrics_ok tw'"
  by (induction evs arbitrary: tw) (auto intro: metrics_step split: if_splits)

lemma metrics_new: "metrics_ok (NewTimingWheel cb opts)"
  by (simp add: metrics_ok_def NewTimingWheel_def)

text \<open>
  \<open>Add\<close> with a deadline that has passed runs the callback at once and leaves the schedule that the
  identifier already has in place, so that it runs a second time when that slot comes up; the comment
  says that \<open>Add\<close> replaces an existing schedule.
\<close>

theorem past_deadline_keeps_schedule:
  assumes "wheel_ok tw" and "expireTime \<le> now" and "tw_callback tw" and "tw_dedupWindow tw \<le> 0"
  shows "fst (WheelAdd tid expireTime now now' tw) = None
    \<and> tw_log (snd (WheelAdd tid expireTime now now' tw)) = tw_log tw @ [tid]
    \<and> countdown (snd (WheelAdd tid expireTime now now' tw)) = countdown tw"
  using assms add_countdown [OF assms(1), of tid expireTime now now']
  by (auto simp: WheelAdd_def fire_def isDeduped_def submitTask_def)

theorem past_deadline_keeps_schedule_witness:
  "let tw = snd (WheelAdd 7 (5 * second) 0 0 demo_wheel)
   in countdown tw 7 = Some 5 \<and> tw_log (snd (WheelAdd 7 0 1 1 tw)) = [7]
      \<and> countdown (snd (WheelAdd 7 0 1 1 tw)) 7 = Some 5"
proof -
  let ?tw = "snd (WheelAdd 7 (5 * second) 0 0 demo_wheel)"
  have new: "wheel_ok demo_wheel" "countdown demo_wheel = Map.empty" unfolding demo_wheel_def by (rule new_countdown)+
  have rng: "0 < 5 * second - 0 \<and> 5 * second - 0 \<le> hour" by (simp add: hour_def second_def)
  have ahead: "slotsAhead (5 * second) = 5" by (simp add: slotsAhead_def second_def go_div_nonneg)
  have c: "countdown ?tw 7 = Some 5"
    using add_countdown [OF new(1), of 7 "5 * second" 0 0] rng ahead by (simp add: new(2))
  have f: "tw_callback ?tw" "tw_dedupWindow ?tw \<le> 0" "tw_log ?tw = []"
    using rng by (simp_all add: WheelAdd_def Let_def removeFromSlots_def demo_wheel_def NewTimingWheel_def split: option.split)
  note p = past_deadline_keeps_schedule [OF add_countdown [OF new(1), THEN conjunct1] _ f(1,2), of 0 1 7 1]
  with c f(3) show ?thesis by (simp add: Let_def)
qed

end
