(* ===== verification/Timer_Heap.thy ===== *)
theory Timer_Heap
  imports Sky_Prelude "HOL-Library.Multiset"
begin

text \<open>
  The indexed min-heap of \<open>timer/delay_queue.go\<close> and the algorithms of Go's
  \<open>container/heap\<close> that it is used with.  Tasks are pointers in the source; no two heap
  slots share one and nothing else refers to them, so they are values here.
\<close>

subsection \<open>The heap interface of the source\<close>

record Task =
  t_ID :: nat
  t_Expire :: int

record indexedTaskHeap =
  tasks :: "Task list"
  index :: "nat \<rightharpoonup> nat"

definition newIndexedTaskHeap :: indexedTaskHeap where
  "newIndexedTaskHeap = \<lparr>tasks = [], index = Map.empty\<rparr>"

abbreviation Len :: "indexedTaskHeap \<Rightarrow> nat" where
  "Len h \<equiv> length (tasks h)"

definition Less :: "indexedTaskHeap \<Rightarrow> nat \<Rightarrow> nat \<Rightarrow> bool" where
  "Less h i j \<longleftrightarrow> t_Expire (tasks h ! i) < t_Expire (tasks h ! j)"

definition Swap :: "nat \<Rightarrow> nat \<Rightarrow> indexedTaskHeap \<Rightarrow> indexedTaskHeap" where
  "Swap i j h =
     (let ts = (tasks h)[i := tasks h ! j, j := tasks h ! i]
      in h\<lparr>tasks := ts, index := (index h)(t_ID (ts ! i) \<mapsto> i, t_ID (ts ! j) \<mapsto> j)\<rparr>)"

definition Push :: "Task \<Rightarrow> indexedTaskHeap \<Rightarrow> indexedTaskHeap" where
  "Push task h = h\<lparr>index := (index h)(t_ID task \<mapsto> Len h), tasks := tasks h @ [task]\<rparr>"

definition Pop :: "indexedTaskHeap \<Rightarrow> Task \<times> indexedTaskHeap" where
  "Pop h =
     (let task = last (tasks h)
      in (task, h\<lparr>tasks := butlast (tasks h), index := (index h)(t_ID task := None)\<rparr>))"

subsection \<open>The algorithms of \<open>container/heap\<close>\<close>

function heap_up :: "nat \<Rightarrow> indexedTaskHeap \<Rightarrow> indexedTaskHeap" where
  "heap_up j h =
     (let i = (j - 1) div 2
      in if i = j \<or> \<not> Less h j i then h else heap_up i (Swap i j h))"
  by pat_completeness auto
termination by (relation "measure fst") auto

declare heap_up.simps [simp del]

text \<open>The child that \<open>down\<close> compares with: the right one if it is there and smaller.\<close>

definition minChild :: "nat \<Rightarrow> nat \<Rightarrow> indexedTaskHeap \<Rightarrow> nat" where
  "minChild i n h =
     (let j1 = 2 * i + 1 in if j1 + 1 < n \<and> Less h (j1 + 1) j1 then j1 + 1 else j1)"

lemma minChild_gt: "i < minChild i n h"
  by (simp add: minChild_def)

text \<open>The loop of \<open>down\<close>; the first result is the index at which it stopped.\<close>

function heap_down_loop :: "nat \<Rightarrow> nat \<Rightarrow> indexedTaskHeap \<Rightarrow> nat \<times> indexedTaskHeap" where
  "heap_down_loop i n h =
     (if 2 * i + 1 \<ge> n then (i, h)
      else if \<not> Less h (minChild i n h) i then (i, h)
      else heap_down_loop (minChild i n h) n (Swap i (minChild i n h) h))"
  by pat_completeness auto
termination
  by (relation "measure (\<lambda>(i, n, h). n - i)")
    (auto intro!: diff_less_mono2 minChild_gt)

declare heap_down_loop.simps [simp del]

definition heap_down :: "nat \<Rightarrow> nat \<Rightarrow> indexedTaskHeap \<Rightarrow> bool \<times> indexedTaskHeap" where
  "heap_down i0 n h = (let (i, h) = heap_down_loop i0 n h in (i > i0, h))"

definition heap_Push :: "Task \<Rightarrow> indexedTaskHeap \<Rightarrow> indexedTaskHeap" where
  "heap_Push x h = (let h = Push x h in heap_up (Len h - 1) h)"

definition heap_Pop :: "indexedTaskHeap \<Rightarrow> Task \<times> indexedTaskHeap" where
  "heap_Pop h = (let n = Len h - 1 in Pop (snd (heap_down 0 n (Swap 0 n h))))"

definition heap_Fix :: "nat \<Rightarrow> indexedTaskHeap \<Rightarrow> indexedTaskHeap" where
  "heap_Fix i h = (let (moved, h) = heap_down i (Len h) h in if \<not> moved then heap_up i h else h)"

definition heap_Remove :: "nat \<Rightarrow> indexedTaskHeap \<Rightarrow> Task \<times> indexedTaskHeap" where
  "heap_Remove i h =
     (let n = Len h - 1;
          h = (if n \<noteq> i
               then (let (moved, h) = heap_down i n (Swap i n h) in if \<not> moved then heap_up i h else h)
               else h)
      in Pop h)"

subsection \<open>The index follows the tasks\<close>

definition idx_ok :: "indexedTaskHeap \<Rightarrow> bool" where
  "idx_ok h \<longleftrightarrow> (\<forall>k i. index h k = Some i \<longleftrightarrow> i < Len h \<and> t_ID (tasks h ! i) = k)"

lemma idx_okD:
  assumes "idx_ok h"
  shows "index h k = Some i \<Longrightarrow> i < Len h" "index h k = Some i \<Longrightarrow> t_ID (tasks h ! i) = k"
    "i < Len h \<Longrightarrow> index h (t_ID (tasks h ! i)) = Some i"
    "i < Len h \<Longrightarrow> j < Len h \<Longrightarrow> t_ID (tasks h ! i) = t_ID (tasks h ! j) \<Longrightarrow> i = j"
  using assms unfolding idx_ok_def by (blast, blast, blast, metis option.inject)

lemma idx_ok_new: "idx_ok newIndexedTaskHeap"
  by (simp add: idx_ok_def newIndexedTaskHeap_def)

lemma Len_Swap [simp]: "length (tasks (Swap i j h)) = Len h"
  by (simp add: Swap_def Let_def)

lemma tasks_Swap: "tasks (Swap i j h) = (tasks h)[i := tasks h ! j, j := tasks h ! i]"
  by (simp add: Swap_def Let_def)

lemma nth_Swap:
  "i < Len h \<Longrightarrow> j < Len h \<Longrightarrow> k < Len h \<Longrightarrow>
     tasks (Swap i j h) ! k = (if k = j then tasks h ! i else if k = i then tasks h ! j else tasks h ! k)"
  by (auto simp: tasks_Swap nth_list_update)

lemma idx_ok_Swap:
  assumes ok: "idx_ok h" and i: "i < Len h" and j: "j < Len h"
  shows "idx_ok (Swap i j h)"
proof -
  note d = idx_okD [OF ok]
  have ij: "index (Swap i j h) = (index h)(t_ID (tasks h ! j) \<mapsto> i, t_ID (tasks h ! i) \<mapsto> j)"
    using i j by (cases "i = j") (auto simp: Swap_def Let_def nth_list_update)
  show ?thesis
    unfolding idx_ok_def ij Len_Swap
  proof (intro allI)
    fix k l
    obtain a b c where abc: "t_ID (tasks h ! i) = a" "t_ID (tasks h ! j) = b" "t_ID (tasks h ! l) = c" by blast
    have "a = b \<longleftrightarrow> i = j" using d(4) i j abc by blast
    moreover have "l < Len h \<Longrightarrow> c = a \<longleftrightarrow> l = i" "l < Len h \<Longrightarrow> c = b \<longleftrightarrow> l = j"
      using d(4) i j abc by blast+
    moreover have "index h k = Some l \<longleftrightarrow> l < Len h \<and> c = k"
      using ok abc(3) by (simp add: idx_ok_def)
    moreover have "l < Len h \<Longrightarrow> t_ID (tasks (Swap i j h) ! l) = (if l = j then a else if l = i then b else c)"
      using nth_Swap [OF i j] abc by simp
    ultimately show "((index h)(t_ID (tasks h ! j) \<mapsto> i, t_ID (tasks h ! i) \<mapsto> j)) k = Some l \<longleftrightarrow>
        l < Len h \<and> t_ID (tasks (Swap i j h) ! l) = k"
      unfolding abc fun_upd_apply using i j by (auto split: if_splits)
  qed
qed

lemma mset_Swap: "i < Len h \<Longrightarrow> j < Len h \<Longrightarrow> mset (tasks (Swap i j h)) = mset (tasks h)"
  by (simp add: tasks_Swap mset_swap)

text \<open>What every reordering keeps: the index, the contents, and everything from \<open>n\<close> on.\<close>

definition reorders :: "nat \<Rightarrow> indexedTaskHeap \<Rightarrow> indexedTaskHeap \<Rightarrow> bool" where
  "reorders n h h' \<longleftrightarrow> idx_ok h' \<and> mset (tasks h') = mset (tasks h) \<and> Len h' = Len h
     \<and> (\<forall>k. n \<le> k \<longrightarrow> k < Len h \<longrightarrow> tasks h' ! k = tasks h ! k)"

lemma reorders_refl: "idx_ok h \<Longrightarrow> reorders n h h"
  by (simp add: reorders_def)

lemma reorders_trans: "reorders n h h1 \<Longrightarrow> reorders n h1 h2 \<Longrightarrow> reorders n h h2"
  by (simp add: reorders_def)

lemma reorders_Swap: "idx_ok h \<Longrightarrow> i < n \<Longrightarrow> j < n \<Longrightarrow> n \<le> Len h \<Longrightarrow> reorders n h (Swap i j h)"
  by (auto simp: reorders_def idx_ok_Swap mset_Swap nth_Swap)

lemma heap_up_reorders:
  "idx_ok h \<Longrightarrow> j < n \<Longrightarrow> n \<le> Len h \<Longrightarrow> reorders n h (heap_up j h)"
proof (induction j h rule: heap_up.induct)
  case (1 j h)
  let ?i = "(j - 1) div 2"
  show ?case
  proof (cases "?i = j \<or> \<not> Less h j ?i")
    case True
    with "1.prems" show ?thesis by (simp add: heap_up.simps [of j h] reorders_refl)
  next
    case False
    have i: "?i < n" using "1.prems"(2) by linarith
    then have sw: "reorders n h (Swap ?i j h)" using "1.prems" by (intro reorders_Swap)
    have "reorders n (Swap ?i j h) (heap_up ?i (Swap ?i j h))"
      using "1.IH" [OF refl False] sw i "1.prems" by (simp add: reorders_def)
    from reorders_trans [OF sw this] False show ?thesis
      by (simp add: heap_up.simps [of j h] Let_def)
  qed
qed

lemma minChild_lt: "2 * i + 1 < n \<Longrightarrow> minChild i n h < n"
  by (simp add: minChild_def)

lemma heap_down_loop_reorders:
  "idx_ok h \<Longrightarrow> i < n \<Longrightarrow> n \<le> Len h \<Longrightarrow>
     reorders n h (snd (heap_down_loop i n h)) \<and> i \<le> fst (heap_down_loop i n h)"
proof (induction i n h rule: heap_down_loop.induct)
  case (1 i n h)
  let ?j = "minChild i n h"
  show ?case
  proof (cases "2 * i + 1 \<ge> n \<or> \<not> Less h ?j i")
    case True
    with "1.prems" show ?thesis
      by (auto simp: heap_down_loop.simps [of i n h] reorders_refl)
  next
    case False
    then have step: "heap_down_loop i n h = heap_down_loop ?j n (Swap i ?j h)"
      by (simp add: heap_down_loop.simps [of i n h])
    have j: "?j < n" "i < ?j" using False by (simp_all add: minChild_lt minChild_gt)
    have sw: "reorders n h (Swap i ?j h)" using "1.prems" j by (intro reorders_Swap)
    have "reorders n (Swap i ?j h) (snd (heap_down_loop ?j n (Swap i ?j h)))
        \<and> ?j \<le> fst (heap_down_loop ?j n (Swap i ?j h))"
      using "1.IH" False j sw "1.prems" by (simp add: reorders_def)
    with sw j step show ?thesis by (metis order.trans less_imp_le reorders_trans)
  qed
qed

subsection \<open>Heap order\<close>

abbreviation key :: "indexedTaskHeap \<Rightarrow> nat \<Rightarrow> int" where
  "key h k \<equiv> t_Expire (tasks h ! k)"

definition parent :: "nat \<Rightarrow> nat" where
  "parent j = (j - 1) div 2"

lemma parent_less: "0 < j \<Longrightarrow> parent j < j"
  by (simp add: parent_def less_mult_imp_div_less)

lemma parent_children: "0 < j \<Longrightarrow> parent j = i \<longleftrightarrow> j = 2 * i + 1 \<or> j = 2 * i + 2"
  unfolding parent_def by presburger

text \<open>
  The first \<open>n\<close> slots are ordered; ordered except between \<open>i\<close> and its parent; except
  between \<open>i\<close> and its children; except around \<open>i\<close>.
\<close>

definition heap_ok :: "nat \<Rightarrow> indexedTaskHeap \<Rightarrow> bool" where
  "heap_ok n h \<longleftrightarrow> (\<forall>j. 0 < j \<and> j < n \<longrightarrow> key h (parent j) \<le> key h j)"

definition skips_ok :: "nat \<Rightarrow> nat \<Rightarrow> indexedTaskHeap \<Rightarrow> bool" where
  "skips_ok i n h \<longleftrightarrow> (\<forall>j. 0 < j \<and> j < n \<and> parent j = i \<and> 0 < i \<longrightarrow> key h (parent i) \<le> key h j)"

definition up_ok :: "nat \<Rightarrow> nat \<Rightarrow> indexedTaskHeap \<Rightarrow> bool" where
  "up_ok i n h \<longleftrightarrow> (\<forall>j. 0 < j \<and> j < n \<and> j \<noteq> i \<longrightarrow> key h (parent j) \<le> key h j) \<and> skips_ok i n h"

definition down_ok :: "nat \<Rightarrow> nat \<Rightarrow> indexedTaskHeap \<Rightarrow> bool" where
  "down_ok i n h \<longleftrightarrow> (\<forall>j. 0 < j \<and> j < n \<and> parent j \<noteq> i \<longrightarrow> key h (parent j) \<le> key h j) \<and> skips_ok i n h"

definition fix_ok :: "nat \<Rightarrow> nat \<Rightarrow> indexedTaskHeap \<Rightarrow> bool" where
  "fix_ok i n h \<longleftrightarrow> (\<forall>j. 0 < j \<and> j < n \<and> j \<noteq> i \<and> parent j \<noteq> i \<longrightarrow> key h (parent j) \<le> key h j)
     \<and> skips_ok i n h"

lemma heap_ok_up: "heap_ok n h \<Longrightarrow> i < n \<Longrightarrow> up_ok i n h"
proof -
  assume ok: "heap_ok n h" and i: "i < n"
  have "key h (parent i) \<le> key h j" if "0 < j" "j < n" "parent j = i" "0 < i" for j
  proof -
    have "key h (parent i) \<le> key h i" using ok i that by (simp add: heap_ok_def)
    also have "key h i \<le> key h j" using ok that by (auto simp: heap_ok_def)
    finally show ?thesis .
  qed
  with ok show ?thesis by (auto simp: up_ok_def skips_ok_def heap_ok_def)
qed

lemma heap_up_step:
  assumes up: "up_ok j n h" and j: "0 < j" "j < n" "n \<le> Len h" and lt: "key h j < key h (parent j)"
  shows "up_ok (parent j) n (Swap (parent j) j h)"
proof -
  let ?i = "parent j"
  have i: "?i < j" using j by (simp add: parent_less)
  have at: "key (Swap ?i j h) k = (if k = j then key h ?i else if k = ?i then key h j else key h k)" if "k < n" for k
    using nth_Swap [of ?i h j k] i j that by simp
  have up1: "key h (parent m) \<le> key h m" if "0 < m" "m < n" "m \<noteq> j" for m
    using up that by (simp add: up_ok_def)
  have up2: "key h ?i \<le> key h m" if "0 < m" "m < n" "parent m = j" for m
    using up j that by (simp add: up_ok_def skips_ok_def)
  have "key (Swap ?i j h) (parent m) \<le> key (Swap ?i j h) m" if m: "0 < m" "m < n" "m \<noteq> ?i" for m
  proof -
    have pm: "parent m < m" using m by (simp add: parent_less)
    with m up1 [of m] up2 [of m] lt i show ?thesis by (auto simp: at)
  qed
  moreover have "key (Swap ?i j h) (parent ?i) \<le> key (Swap ?i j h) m"
    if m: "0 < m" "m < n" "parent m = ?i" "0 < ?i" for m
  proof -
    have pi: "parent ?i < ?i" using m by (simp add: parent_less)
    have "key h (parent ?i) \<le> key h ?i" using up1 [of ?i] m i j by simp
    with pi m up1 [of m] i j parent_less [of m] show ?thesis by (auto simp: at)
  qed
  ultimately show ?thesis by (simp add: up_ok_def skips_ok_def)
qed

lemma heap_up_ok: "up_ok j n h \<Longrightarrow> j < n \<Longrightarrow> n \<le> Len h \<Longrightarrow> heap_ok n (heap_up j h)"
proof (induction j h rule: heap_up.induct)
  case (1 j h)
  have p: "(j - 1) div 2 = parent j" by (simp add: parent_def)
  show ?case
  proof (cases "parent j = j \<or> \<not> Less h j (parent j)")
    case True
    have "0 < j \<Longrightarrow> parent j \<noteq> j" using parent_less [of j] by simp
    with True "1.prems"(1) have "heap_ok n h"
      unfolding heap_ok_def up_ok_def Less_def by (metis linorder_not_less)
    with True show ?thesis by (simp add: heap_up.simps [of j h] p [simplified])
  next
    case False
    then have lt: "key h j < key h (parent j)" by (simp add: Less_def)
    have j: "0 < j" using False by (cases j) (auto simp: parent_def)
    from heap_up_step [OF "1.prems"(1) j "1.prems"(2,3) lt] "1.IH" [OF refl] False "1.prems" parent_less [OF j]
    have "heap_ok n (heap_up (parent j) (Swap (parent j) j h))" by (simp add: p [simplified])
    with False show ?thesis by (simp add: heap_up.simps [of j h] p [simplified] Let_def)
  qed
qed

lemma minChild_parent: "parent (minChild i n h) = i"
  by (simp add: minChild_def parent_def)

lemma minChild_le:
  assumes "0 < j" and "j < n" and "parent j = i"
  shows "key h (minChild i n h) \<le> key h j"
  using assms parent_children [of j i] by (auto simp: minChild_def Less_def Let_def)

lemma heap_down_step:
  assumes down: "down_ok i n h" and n: "2 * i + 1 < n" "n \<le> Len h"
    and lt: "key h (minChild i n h) < key h i"
  shows "down_ok (minChild i n h) n (Swap i (minChild i n h) h)"
proof -
  let ?c = "minChild i n h"
  have c: "i < ?c" "?c < n" "parent ?c = i"
    using n by (simp_all add: minChild_gt minChild_lt minChild_parent)
  have at: "key (Swap i ?c h) k = (if k = ?c then key h i else if k = i then key h ?c else key h k)" if "k < n" for k
    using nth_Swap [of i h ?c k] c n that by simp
  have d1: "key h (parent m) \<le> key h m" if "0 < m" "m < n" "parent m \<noteq> i" for m
    using down that by (simp add: down_ok_def)
  have d2: "key h (parent i) \<le> key h ?c" if "0 < i"
    using down c that by (simp add: down_ok_def skips_ok_def)
  have "key (Swap i ?c h) (parent m) \<le> key (Swap i ?c h) m" if m: "0 < m" "m < n" "parent m \<noteq> ?c" for m
  proof -
    have pm: "parent m < m" using m by (simp add: parent_less)
    show ?thesis
      using m pm c lt d1 [of m] d2 minChild_le [of m n i h] by (auto simp: at)
  qed
  moreover have "key (Swap i ?c h) (parent ?c) \<le> key (Swap i ?c h) m"
    if m: "0 < m" "m < n" "parent m = ?c" for m
  proof -
    have pm: "parent m < m" using m(1) by (rule parent_less)
    show ?thesis using m pm c d1 [of m] by (auto simp: at)
  qed
  ultimately show ?thesis by (simp add: down_ok_def skips_ok_def)
qed

lemma heap_down_stop:
  assumes "down_ok i n h" and "2 * i + 1 \<ge> n \<or> \<not> Less h (minChild i n h) i"
  shows "heap_ok n h"
  unfolding heap_ok_def
proof (intro allI impI)
  fix j assume j: "0 < j \<and> j < n"
  show "key h (parent j) \<le> key h j"
  proof (cases "parent j = i")
    case True
    then have "\<not> Less h (minChild i n h) i" using assms(2) j parent_children [of j i] by auto
    with minChild_le [of j n i h] j True show ?thesis by (simp add: Less_def)
  qed (use assms(1) j in \<open>simp add: down_ok_def\<close>)
qed

lemma heap_down_loop_ok: "down_ok i n h \<Longrightarrow> n \<le> Len h \<Longrightarrow> heap_ok n (snd (heap_down_loop i n h))"
proof (induction i n h rule: heap_down_loop.induct)
  case (1 i n h)
  show ?case
  proof (cases "2 * i + 1 \<ge> n \<or> \<not> Less h (minChild i n h) i")
    case True
    with heap_down_stop [OF "1.prems"(1) True] show ?thesis by (auto simp: heap_down_loop.simps [of i n h])
  next
    case False
    then have "down_ok (minChild i n h) n (Swap i (minChild i n h) h)"
      using "1.prems" by (intro heap_down_step) (auto simp: Less_def)
    with "1.IH" False "1.prems" show ?thesis by (simp add: heap_down_loop.simps [of i n h])
  qed
qed

lemma heap_down_loop_stays:
  assumes "idx_ok h" and "i < n" and "n \<le> Len h" and "fst (heap_down_loop i n h) = i"
  shows "heap_down_loop i n h = (i, h) \<and> (2 * i + 1 \<ge> n \<or> \<not> Less h (minChild i n h) i)"
proof (cases "2 * i + 1 \<ge> n \<or> \<not> Less h (minChild i n h) i")
  case True
  then show ?thesis by (auto simp: heap_down_loop.simps [of i n h])
next
  case False
  let ?c = "minChild i n h"
  have step: "heap_down_loop i n h = heap_down_loop ?c n (Swap i ?c h)"
    using False by (simp add: heap_down_loop.simps [of i n h])
  have c: "?c < n" "i < ?c" using False by (simp_all add: minChild_lt minChild_gt)
  then have "?c \<le> fst (heap_down_loop ?c n (Swap i ?c h))"
    using heap_down_loop_reorders [of "Swap i ?c h" ?c n] idx_ok_Swap [of h i ?c] assms by simp
  with step c assms(4) show ?thesis by simp
qed

text \<open>The common part of \<open>Fix\<close> and \<open>Remove\<close>: down, then up if nothing moved.\<close>

definition down_or_up :: "nat \<Rightarrow> nat \<Rightarrow> indexedTaskHeap \<Rightarrow> indexedTaskHeap" where
  "down_or_up i n h = (let (moved, h) = heap_down i n h in if \<not> moved then heap_up i h else h)"

lemma down_or_up_eq:
  "down_or_up i n h = (if fst (heap_down_loop i n h) > i then snd (heap_down_loop i n h)
     else heap_up i (snd (heap_down_loop i n h)))"
  by (simp add: down_or_up_def heap_down_def split: prod.splits)

lemma down_or_up_ok:
  assumes ok: "idx_ok h" and i: "i < n" "n \<le> Len h" and fx: "fix_ok i n h"
  shows "heap_ok n (down_or_up i n h) \<and> reorders n h (down_or_up i n h)"
proof -
  let ?r = "heap_down_loop i n h"
  have re: "reorders n h (snd ?r)" "i \<le> fst ?r"
    using heap_down_loop_reorders [OF ok i] by simp_all
  show ?thesis
  proof (cases "fst ?r = i")
    case True
    from heap_down_loop_stays [OF ok i True] have eq: "snd ?r = h"
      and stop: "2 * i + 1 \<ge> n \<or> \<not> Less h (minChild i n h) i" by simp_all
    have "key h (parent j) \<le> key h j" if "0 < j" "j < n" "j \<noteq> i" for j
    proof (cases "parent j = i")
      case True
      then have "\<not> Less h (minChild i n h) i" using stop that parent_children [of j i] by auto
      with minChild_le [of j n i h] that True show ?thesis by (simp add: Less_def)
    qed (use fx that in \<open>simp add: fix_ok_def\<close>)
    then have "up_ok i n h" using fx by (simp add: up_ok_def fix_ok_def)
    with heap_up_ok heap_up_reorders i ok True eq show ?thesis
      by (simp add: down_or_up_eq)
  next
    case False
    have moved: "2 * i + 1 < n" "Less h (minChild i n h) i"
      using False by (auto simp: heap_down_loop.simps [of i n h] split: if_splits)
    have "key h (parent i) \<le> key h i" if "0 < i"
    proof -
      have "key h (parent i) \<le> key h (minChild i n h)"
        using fx that moved minChild_lt [of i n h] minChild_gt [of i n h] minChild_parent [of i n h]
        by (simp add: fix_ok_def skips_ok_def)
      with moved(2) show ?thesis by (simp add: Less_def)
    qed
    then have "down_ok i n h" using fx by (auto simp: down_ok_def fix_ok_def)
    with heap_down_loop_ok [of i n h] i False re show ?thesis
      by (simp add: down_or_up_eq)
  qed
qed

lemma heap_Fix_eq: "heap_Fix i h = down_or_up i (Len h) h"
  by (simp add: heap_Fix_def down_or_up_def)

subsection \<open>The operations\<close>

text \<open>A well-formed heap, and what it stores: a deadline for each ID.\<close>

definition heap_inv :: "indexedTaskHeap \<Rightarrow> bool" where
  "heap_inv h \<longleftrightarrow> idx_ok h \<and> heap_ok (Len h) h"

definition deadlines :: "indexedTaskHeap \<Rightarrow> nat \<rightharpoonup> int" where
  "deadlines h k = map_option (key h) (index h k)"

lemma deadlines_iff:
  "idx_ok h \<Longrightarrow> deadlines h k = Some e \<longleftrightarrow> \<lparr>t_ID = k, t_Expire = e\<rparr> \<in> set (tasks h)"
proof -
  assume ok: "idx_ok h"
  have "\<lparr>t_ID = k, t_Expire = e\<rparr> \<in> set (tasks h) \<longleftrightarrow>
      (\<exists>i < Len h. t_ID (tasks h ! i) = k \<and> t_Expire (tasks h ! i) = e)"
    by (auto simp: in_set_conv_nth)
  with ok show ?thesis by (auto simp: deadlines_def idx_ok_def)
qed

lemma deadlines_same:
  assumes "idx_ok h" and "idx_ok h'" and "set (tasks h') = set (tasks h)"
  shows "deadlines h' = deadlines h"
proof
  fix k
  have "deadlines h' k = Some e \<longleftrightarrow> deadlines h k = Some e" for e
    using deadlines_iff [OF assms(1)] deadlines_iff [OF assms(2)] assms(3) by simp
  then show "deadlines h' k = deadlines h k" by (metis not_Some_eq)
qed

lemma reorders_deadlines: "idx_ok h \<Longrightarrow> reorders n h h' \<Longrightarrow> deadlines h' = deadlines h"
  by (rule deadlines_same) (auto simp: reorders_def dest: mset_eq_setD)

lemma heap_root: "heap_ok n h \<Longrightarrow> k < n \<Longrightarrow> key h 0 \<le> key h k"
proof (induction k rule: less_induct)
  case (less k)
  show ?case
  proof (cases "k = 0")
    case False
    then have "key h 0 \<le> key h (parent k)" using less parent_less [of k] by simp
    also have "\<dots> \<le> key h k" using less.prems False by (simp add: heap_ok_def)
    finally show ?thesis .
  qed simp
qed

lemma heap_inv_new: "heap_inv newIndexedTaskHeap" "deadlines newIndexedTaskHeap = Map.empty"
  using idx_ok_new by (auto simp: heap_inv_def heap_ok_def newIndexedTaskHeap_def deadlines_def)

lemma idx_ok_Push:
  assumes ok: "idx_ok h" and new: "index h (t_ID x) = None"
  shows "idx_ok (Push x h)"
  unfolding idx_ok_def
proof (intro allI)
  fix k i
  have at: "index h k = Some i \<longleftrightarrow> i < Len h \<and> t_ID (tasks h ! i) = k"
    using ok by (simp add: idx_ok_def)
  have "i < Len h \<Longrightarrow> t_ID (tasks h ! i) \<noteq> t_ID x"
    using idx_okD(3) [OF ok] new by fastforce
  with at show "index (Push x h) k = Some i \<longleftrightarrow> i < Len (Push x h) \<and> t_ID (tasks (Push x h) ! i) = k"
    by (auto simp: Push_def nth_append less_Suc_eq)
qed

lemma heap_Push_ok:
  assumes inv: "heap_inv h" and new: "index h (t_ID x) = None"
  shows "heap_inv (heap_Push x h) \<and> deadlines (heap_Push x h) = (deadlines h)(t_ID x \<mapsto> t_Expire x)"
proof -
  let ?h = "Push x h"
  have ok: "idx_ok ?h" using inv new by (simp add: heap_inv_def idx_ok_Push)
  have len: "Len ?h = Suc (Len h)" by (simp add: Push_def)
  have at: "k < Len h \<Longrightarrow> key ?h k = key h k" for k by (simp add: Push_def nth_append)
  have "key ?h (parent j) \<le> key ?h j" if "0 < j" "j < Len h" for j
    using inv that parent_less [of j] by (simp add: heap_inv_def heap_ok_def at)
  moreover have "\<not> (parent j = Len h \<and> j \<le> Len h)" if "0 < j" for j
    using parent_less [OF that] by simp
  ultimately have "up_ok (Len h) (Len ?h) ?h"
    by (auto simp: up_ok_def skips_ok_def len less_Suc_eq_le)
  then have "heap_ok (Len ?h) (heap_up (Len h) ?h)" by (rule heap_up_ok) (simp_all add: len)
  moreover have re: "reorders (Len ?h) ?h (heap_up (Len h) ?h)"
    using ok by (rule heap_up_reorders) (simp_all add: len)
  moreover have "deadlines ?h = (deadlines h)(t_ID x \<mapsto> t_Expire x)"
  proof
    fix k
    show "deadlines ?h k = ((deadlines h)(t_ID x \<mapsto> t_Expire x)) k"
      using inv idx_okD(1) [of h k] at
      by (cases "index h k") (auto simp: deadlines_def heap_inv_def Push_def nth_append)
  qed
  ultimately show ?thesis
    using reorders_deadlines [OF ok re] by (simp add: heap_Push_def len heap_inv_def reorders_def)
qed

text \<open>The statement \<open>h.tasks[i].ExpireTime = e\<close>.\<close>

definition setExpire :: "nat \<Rightarrow> int \<Rightarrow> indexedTaskHeap \<Rightarrow> indexedTaskHeap" where
  "setExpire i e h = h\<lparr>tasks := (tasks h)[i := (tasks h ! i)\<lparr>t_Expire := e\<rparr>]\<rparr>"

lemma heap_Fix_ok:
  assumes inv: "heap_inv h" and i: "i < Len h"
  shows "heap_inv (heap_Fix i (setExpire i e h))
    \<and> deadlines (heap_Fix i (setExpire i e h)) = (deadlines h)(t_ID (tasks h ! i) \<mapsto> e)"
proof -
  let ?h = "setExpire i e h"
  have at: "key ?h k = (if k = i then e else key h k)" "t_ID (tasks ?h ! k) = t_ID (tasks h ! k)" if "k < Len h" for k
    using that i by (auto simp: setExpire_def nth_list_update)
  have len: "Len ?h = Len h" and idx: "index ?h = index h" by (simp_all add: setExpire_def)
  have ok: "idx_ok ?h" using inv at(2) len idx by (auto simp: idx_ok_def heap_inv_def)
  have up: "up_ok i (Len h) h" using inv i by (simp add: heap_inv_def heap_ok_up)
  have "key ?h (parent j) \<le> key ?h j" if "0 < j" "j < Len h" "j \<noteq> i" "parent j \<noteq> i" for j
    using up that parent_less [of j] by (simp add: up_ok_def at)
  moreover have "key ?h (parent i) \<le> key ?h j" if "0 < j" "j < Len h" "parent j = i" "0 < i" for j
    using up that parent_less [of j] parent_less [of i] i by (auto simp: up_ok_def skips_ok_def at)
  ultimately have "fix_ok i (Len h) ?h" by (simp add: fix_ok_def skips_ok_def)
  from down_or_up_ok [OF ok i _ this] have
    d: "heap_ok (Len h) (heap_Fix i ?h)" "reorders (Len h) ?h (heap_Fix i ?h)"
    by (simp_all add: heap_Fix_eq len)
  have "deadlines ?h = (deadlines h)(t_ID (tasks h ! i) \<mapsto> e)"
  proof
    fix k
    show "deadlines ?h k = ((deadlines h)(t_ID (tasks h ! i) \<mapsto> e)) k"
      using inv idx_okD [of h] i at idx
      by (cases "index h k") (auto simp: deadlines_def heap_inv_def)
  qed
  with d reorders_deadlines [OF ok d(2)] show ?thesis
    by (simp add: heap_inv_def reorders_def len)
qed

lemma Pop_ok:
  assumes ok: "idx_ok h" and hp: "heap_ok n h" and len: "Len h = Suc n"
  shows "fst (Pop h) = tasks h ! n \<and> heap_inv (snd (Pop h)) \<and> Len (snd (Pop h)) = n
    \<and> deadlines (snd (Pop h)) = (deadlines h)(t_ID (tasks h ! n) := None)"
proof -
  have ne: "tasks h \<noteq> []" using len by auto
  have last: "last (tasks h) = tasks h ! n" using len ne by (simp add: last_conv_nth)
  have at: "k < n \<Longrightarrow> butlast (tasks h) ! k = tasks h ! k" for k using len by (simp add: nth_butlast)
  have tl: "tasks (snd (Pop h)) = butlast (tasks h)" and
    ix: "index (snd (Pop h)) = (index h)(t_ID (tasks h ! n) := None)"
    by (simp_all add: Pop_def Let_def last)
  have "idx_ok (snd (Pop h))"
    unfolding idx_ok_def
  proof (intro allI)
    fix k i
    have "index h k = Some i \<longleftrightarrow> i < Suc n \<and> t_ID (tasks h ! i) = k"
      using ok by (simp add: idx_ok_def len)
    moreover have "i < n \<Longrightarrow> t_ID (tasks h ! i) \<noteq> t_ID (tasks h ! n)"
      using idx_okD(4) [OF ok, of i n] len by auto
    ultimately show "index (snd (Pop h)) k = Some i \<longleftrightarrow>
        i < Len (snd (Pop h)) \<and> t_ID (tasks (snd (Pop h)) ! i) = k"
      using len at [of i] by (auto simp: tl ix less_Suc_eq)
  qed
  moreover have "heap_ok n (snd (Pop h))"
    using hp at order.strict_trans [OF parent_less] by (auto simp: heap_ok_def tl)
  moreover have "deadlines (snd (Pop h)) = (deadlines h)(t_ID (tasks h ! n) := None)"
  proof
    fix k
    show "deadlines (snd (Pop h)) k = ((deadlines h)(t_ID (tasks h ! n) := None)) k"
      using idx_okD(1,2) [OF ok, of k] len at
      by (cases "index h k") (auto simp: deadlines_def tl ix less_Suc_eq)
  qed
  ultimately show ?thesis using len last by (simp add: heap_inv_def tl Pop_def Let_def)
qed

lemma heap_Remove_ok:
  assumes inv: "heap_inv h" and i: "i < Len h"
  shows "fst (heap_Remove i h) = tasks h ! i \<and> heap_inv (snd (heap_Remove i h))
    \<and> deadlines (snd (heap_Remove i h)) = (deadlines h)(t_ID (tasks h ! i) := None)"
proof -
  obtain n where n: "Len h = Suc n" using i by (cases "Len h") auto
  show ?thesis
  proof (cases "n = i")
    case True
    have "heap_ok n h" using inv by (simp add: heap_inv_def heap_ok_def n)
    with Pop_ok [of h n] inv n True show ?thesis by (auto simp: heap_Remove_def heap_inv_def)
  next
    case False
    then have lt: "i < n" using i n by simp
    let ?h = "Swap i n h"
    have at: "tasks ?h ! k = (if k = n then tasks h ! i else if k = i then tasks h ! n else tasks h ! k)"
      if "k < Suc n" for k using nth_Swap [of i h n k] i n that by simp
    have ok: "idx_ok ?h" using inv i n by (simp add: heap_inv_def idx_ok_Swap)
    have up: "up_ok i (Suc n) h" using inv i n by (simp add: heap_inv_def heap_ok_up)
    have "key ?h (parent j) \<le> key ?h j" if "0 < j" "j < n" "j \<noteq> i" "parent j \<noteq> i" for j
      using up that parent_less [of j] by (simp add: up_ok_def at)
    moreover have "key ?h (parent i) \<le> key ?h j" if "0 < j" "j < n" "parent j = i" "0 < i" for j
      using up that parent_less [of j] parent_less [of i] lt by (auto simp: up_ok_def skips_ok_def at)
    ultimately have "fix_ok i n ?h" by (simp add: fix_ok_def skips_ok_def)
    from down_or_up_ok [OF ok lt _ this] n have
      d: "heap_ok n (down_or_up i n ?h)" "reorders n ?h (down_or_up i n ?h)" by simp_all
    then have d2: "idx_ok (down_or_up i n ?h)" "Len (down_or_up i n ?h) = Suc n"
      "tasks (down_or_up i n ?h) ! n = tasks h ! i"
      using n at [of n] by (simp_all add: reorders_def)
    have "heap_Remove i h = Pop (down_or_up i n ?h)"
      using n False by (simp add: heap_Remove_def down_or_up_def)
    moreover have "deadlines (down_or_up i n ?h) = deadlines h"
      using reorders_deadlines [OF ok d(2)] deadlines_same [of h ?h] inv ok mset_Swap [of i h n] i n
      by (simp add: heap_inv_def) (metis lessI mset_eq_setD)
    ultimately show ?thesis using Pop_ok [OF d2(1) d(1) d2(2)] d2(3) by simp
  qed
qed

lemma heap_Pop_ok:
  assumes inv: "heap_inv h" and i: "0 < Len h"
  shows "fst (heap_Pop h) = tasks h ! 0 \<and> heap_inv (snd (heap_Pop h)) \<and> Len (snd (heap_Pop h)) = Len h - 1
    \<and> deadlines (snd (heap_Pop h)) = (deadlines h)(t_ID (tasks h ! 0) := None)"
proof -
  obtain n where n: "Len h = Suc n" using i by (cases "Len h") auto
  let ?h = "Swap 0 n h"
  have at: "tasks ?h ! k = (if k = n then tasks h ! 0 else if k = 0 then tasks h ! n else tasks h ! k)"
    if "k < Suc n" for k using nth_Swap [of 0 h n k] n that by simp
  have ok: "idx_ok ?h" using inv n by (simp add: heap_inv_def idx_ok_Swap)
  let ?d = "snd (heap_down 0 n ?h)"
  have d: "heap_ok n ?d" "reorders n ?h ?d"
  proof -
    have "key ?h (parent j) \<le> key ?h j" if "0 < j" "j < n" "parent j \<noteq> 0" for j
      using inv that parent_less [of j] n by (simp add: heap_inv_def heap_ok_def at)
    then have "down_ok 0 n ?h" by (simp add: down_ok_def skips_ok_def)
    then show "heap_ok n ?d" using heap_down_loop_ok [of 0 n ?h] n
      by (auto simp: heap_down_def split: prod.splits)
    show "reorders n ?h ?d"
      using heap_down_loop_reorders [OF ok, of 0 n] n ok
      by (cases "n = 0") (auto simp: heap_down_def heap_down_loop.simps [of 0 0] reorders_refl split: prod.splits)
  qed
  then have d2: "idx_ok ?d" "Len ?d = Suc n" "tasks ?d ! n = tasks h ! 0"
    using n at [of n] by (simp_all add: reorders_def)
  have "heap_Pop h = Pop ?d" using n by (simp add: heap_Pop_def)
  moreover have "deadlines ?d = deadlines h"
    using reorders_deadlines [OF ok d(2)] deadlines_same [of h ?h] inv ok mset_Swap [of 0 h n] n
    by (simp add: heap_inv_def) (metis lessI mset_eq_setD zero_less_Suc)
  ultimately show ?thesis using Pop_ok [OF d2(1) d(1) d2(2)] d2(3) n by simp
qed

end
