(* ===== verification/Timer_Delay.thy ===== *)
theory Timer_Delay
  imports Timer_Heap
begin

text \<open>
  The delay queue of \<open>timer/delay_queue.go\<close> on top of the indexed heap of \<open>Timer_Heap\<close>, and
  the contract of \<open>timer/interface.go\<close> that its clients use.  Instants and durations are integers
  (nanoseconds); a callback goroutine that the queue launches is an entry of the list of fired
  identifiers that an operation returns.  The operations run under the queue's mutex, so a history is a
  sequence of them.
\<close>

record DelayQueue =
  dq_h :: indexedTaskHeap
  dq_callback :: bool
  dq_stopCh :: bool
  dq_dedupWindow :: int
  dq_lastFired :: "(nat \<rightharpoonup> int) option"
  dq_startOnce :: bool
  dq_stopOnce :: bool
  dq_runners :: nat

definition SetDedupWindow :: "int \<Rightarrow> DelayQueue \<Rightarrow> DelayQueue" where
  "SetDedupWindow d dq =
     dq\<lparr>dq_dedupWindow := d, dq_lastFired := (if d \<le> 0 then None else Some Map.empty)\<rparr>"

text \<open>\<open>NewDelayQueue\<close> with the option list as the list of windows given to \<open>WithDedupWindow\<close>.\<close>

definition NewDelayQueue :: "bool \<Rightarrow> int list \<Rightarrow> DelayQueue" where
  "NewDelayQueue callback opts = fold SetDedupWindow opts
     \<lparr>dq_h = newIndexedTaskHeap, dq_callback = callback, dq_stopCh = False, dq_dedupWindow = 0,
      dq_lastFired = Some Map.empty, dq_startOnce = False, dq_stopOnce = False, dq_runners = 0\<rparr>"

definition DelayAdd :: "nat \<Rightarrow> int \<Rightarrow> DelayQueue \<Rightarrow> DelayQueue" where
  "DelayAdd tid expireTime dq =
     (case index (dq_h dq) tid of
        Some idx \<Rightarrow> dq\<lparr>dq_h := heap_Fix idx (setExpire idx expireTime (dq_h dq))\<rparr>
      | None \<Rightarrow> dq\<lparr>dq_h := heap_Push \<lparr>t_ID = tid, t_Expire = expireTime\<rparr> (dq_h dq)\<rparr>)"

definition clearLastFired :: "nat \<Rightarrow> DelayQueue \<Rightarrow> DelayQueue" where
  "clearLastFired tid dq =
     (case dq_lastFired dq of
        None \<Rightarrow> dq
      | Some m \<Rightarrow> dq\<lparr>dq_lastFired := Some (m(tid := None))\<rparr>)"

definition DelayRemove :: "nat \<Rightarrow> DelayQueue \<Rightarrow> DelayQueue" where
  "DelayRemove tid dq =
     (let dq = clearLastFired tid dq
      in case index (dq_h dq) tid of
           None \<Rightarrow> dq
         | Some idx \<Rightarrow> dq\<lparr>dq_h := snd (heap_Remove idx (dq_h dq))\<rparr>)"

definition DelayReschedule :: "nat \<Rightarrow> int \<Rightarrow> DelayQueue \<Rightarrow> DelayQueue" where
  "DelayReschedule tid newExpireTime dq =
     (let dq = clearLastFired tid dq
      in case index (dq_h dq) tid of
           None \<Rightarrow> dq\<lparr>dq_h := heap_Push \<lparr>t_ID = tid, t_Expire = newExpireTime\<rparr> (dq_h dq)\<rparr>
         | Some idx \<Rightarrow> dq\<lparr>dq_h := heap_Fix idx (setExpire idx newExpireTime (dq_h dq))\<rparr>)"

definition DelayStart :: "DelayQueue \<Rightarrow> DelayQueue" where
  "DelayStart dq =
     (if dq_startOnce dq then dq else dq\<lparr>dq_startOnce := True, dq_runners := Suc (dq_runners dq)\<rparr>)"

definition DelayStop :: "DelayQueue \<Rightarrow> DelayQueue" where
  "DelayStop dq = (if dq_stopOnce dq then dq else dq\<lparr>dq_stopOnce := True, dq_stopCh := True\<rparr>)"

definition isDedupedLocked :: "nat \<Rightarrow> int \<Rightarrow> DelayQueue \<Rightarrow> bool \<times> DelayQueue" where
  "isDedupedLocked tid now dq =
     (if dq_dedupWindow dq \<le> 0 then (False, dq)
      else let m = (case dq_lastFired dq of None \<Rightarrow> Map.empty | Some m \<Rightarrow> m);
               fired = (False, dq\<lparr>dq_lastFired := Some (m(tid \<mapsto> now))\<rparr>)
           in case m tid of
                Some prev \<Rightarrow>
                  if now - prev < dq_dedupWindow dq then (True, dq\<lparr>dq_lastFired := Some m\<rparr>) else fired
              | None \<Rightarrow> fired)"

definition cleanLastFiredLocked :: "int \<Rightarrow> DelayQueue \<Rightarrow> DelayQueue" where
  "cleanLastFiredLocked now dq =
     (case dq_lastFired dq of
        None \<Rightarrow> dq
      | Some m \<Rightarrow>
          if dq_dedupWindow dq \<le> 0 then dq
          else dq\<lparr>dq_lastFired := Some (\<lambda>tid. case m tid of
                    None \<Rightarrow> None
                  | Some firedAt \<Rightarrow> if now - firedAt \<ge> dq_dedupWindow dq then None else Some firedAt)\<rparr>)"

lemma Len_heap_down_loop: "Len (snd (heap_down_loop i n h)) = Len h"
  by (induction i n h rule: heap_down_loop.induct) (simp add: heap_down_loop.simps)

lemma Len_heap_Pop [simp]: "length (tasks (snd (heap_Pop h))) = Len h - 1"
  by (simp add: heap_Pop_def Pop_def Let_def heap_down_def Len_heap_down_loop split: prod.splits)
    (metis Len_Swap Len_heap_down_loop snd_conv)

lemma isDeduped_fields [simp]:
  "dq_h (snd (isDedupedLocked tid now dq)) = dq_h dq"
  "dq_callback (snd (isDedupedLocked tid now dq)) = dq_callback dq"
  "dq_dedupWindow (snd (isDedupedLocked tid now dq)) = dq_dedupWindow dq"
  "dq_stopCh (snd (isDedupedLocked tid now dq)) = dq_stopCh dq"
  by (simp_all add: isDedupedLocked_def Let_def split: option.split)

text \<open>The loop of \<open>checkExpired\<close>: it pops the root while it is due.\<close>

function checkExpired_loop :: "int \<Rightarrow> DelayQueue \<Rightarrow> nat list \<times> DelayQueue" where
  "checkExpired_loop now dq =
     (if Len (dq_h dq) > 0 then
        let task = tasks (dq_h dq) ! 0
        in if t_Expire task > now then ([], dq)
           else let r = isDedupedLocked (t_ID task) now (dq\<lparr>dq_h := snd (heap_Pop (dq_h dq))\<rparr>);
                    rest = checkExpired_loop now (snd r)
                in ((if \<not> fst r \<and> dq_callback dq then [t_ID task] else []) @ fst rest, snd rest)
      else ([], dq))"
  by pat_completeness auto
termination
  by (relation "measure (\<lambda>(now, dq). Len (dq_h dq))") auto

declare checkExpired_loop.simps [simp del]

definition checkExpired :: "int \<Rightarrow> DelayQueue \<Rightarrow> nat list \<times> DelayQueue" where
  "checkExpired now dq =
     (let (fired, dq) = checkExpired_loop now dq in (fired, cleanLastFiredLocked now dq))"

text \<open>
  One round of \<open>run\<close>: the select takes either case that is ready, so a tick that is pending when the
  stop channel is closed may still be served.  \<open>None\<close> is the return of the loop.
\<close>

datatype select_case = StopCase | TickCase int

fun case_ready :: "select_case \<Rightarrow> DelayQueue \<Rightarrow> bool" where
  "case_ready StopCase dq = dq_stopCh dq"
| "case_ready (TickCase now) dq = True"

fun run_round :: "select_case \<Rightarrow> DelayQueue \<Rightarrow> (nat list \<times> DelayQueue) option" where
  "run_round StopCase dq = None"
| "run_round (TickCase now) dq = Some (checkExpired now dq)"

section \<open>The contract of a timer\<close>

text \<open>
  What the clients of \<open>timer/interface.go\<close> rely on: a timer is a map from identifiers to deadlines,
  which \<open>Add\<close> and \<open>Reschedule\<close> update, \<open>Remove\<close> shrinks and a tick empties of what is due.
\<close>

datatype timer_op = AddOp nat int | RemoveOp nat | RescheduleOp nat int | TickOp int

fun spec_step :: "timer_op \<Rightarrow> (nat \<rightharpoonup> int) \<Rightarrow> (nat \<rightharpoonup> int)" where
  "spec_step (AddOp tid e) m = m(tid \<mapsto> e)"
| "spec_step (RemoveOp tid) m = m(tid := None)"
| "spec_step (RescheduleOp tid e) m = m(tid \<mapsto> e)"
| "spec_step (TickOp now) m = (\<lambda>tid. case m tid of None \<Rightarrow> None | Some e \<Rightarrow> if e \<le> now then None else Some e)"

locale deadline_timer =
  fixes ok :: "'s \<Rightarrow> bool"
    and deadline :: "'s \<Rightarrow> nat \<rightharpoonup> int"
    and add :: "nat \<Rightarrow> int \<Rightarrow> 's \<Rightarrow> 's"
    and remove :: "nat \<Rightarrow> 's \<Rightarrow> 's"
    and reschedule :: "nat \<Rightarrow> int \<Rightarrow> 's \<Rightarrow> 's"
    and tick :: "int \<Rightarrow> 's \<Rightarrow> 's"
  assumes ok_add: "ok s \<Longrightarrow> ok (add tid e s)"
    and ok_remove: "ok s \<Longrightarrow> ok (remove tid s)"
    and ok_reschedule: "ok s \<Longrightarrow> ok (reschedule tid e s)"
    and ok_tick: "ok s \<Longrightarrow> ok (tick now s)"
    and deadline_add: "ok s \<Longrightarrow> deadline (add tid e s) = (deadline s)(tid \<mapsto> e)"
    and deadline_remove: "ok s \<Longrightarrow> deadline (remove tid s) = (deadline s)(tid := None)"
    and deadline_reschedule: "ok s \<Longrightarrow> deadline (reschedule tid e s) = (deadline s)(tid \<mapsto> e)"
    and deadline_tick: "ok s \<Longrightarrow> deadline (tick now s) = spec_step (TickOp now) (deadline s)"
begin

lemmas ok_ops = ok_add ok_remove ok_reschedule ok_tick
lemmas deadline_ops = deadline_add deadline_remove deadline_reschedule deadline_tick

fun step :: "timer_op \<Rightarrow> 's \<Rightarrow> 's" where
  "step (AddOp tid e) s = add tid e s"
| "step (RemoveOp tid) s = remove tid s"
| "step (RescheduleOp tid e) s = reschedule tid e s"
| "step (TickOp now) s = tick now s"

lemma ok_step: "ok s \<Longrightarrow> ok (step a s)"
  by (cases a) (simp_all add: ok_ops)

lemma deadline_step: "ok s \<Longrightarrow> deadline (step a s) = spec_step a (deadline s)"
  by (cases a) (simp_all add: deadline_ops)

lemma history_refines: "ok s \<Longrightarrow> ok (fold step as s) \<and> deadline (fold step as s) = fold spec_step as (deadline s)"
  by (induction as arbitrary: s) (simp_all add: ok_step deadline_step)

end

section \<open>The delay queue meets it\<close>

definition dq_ok :: "DelayQueue \<Rightarrow> bool" where
  "dq_ok dq \<longleftrightarrow> heap_inv (dq_h dq)"

definition dq_deadline :: "DelayQueue \<Rightarrow> nat \<rightharpoonup> int" where
  "dq_deadline dq = deadlines (dq_h dq)"

definition lastOf :: "DelayQueue \<Rightarrow> nat \<rightharpoonup> int" where
  "lastOf dq = (case dq_lastFired dq of None \<Rightarrow> Map.empty | Some m \<Rightarrow> m)"

definition suppressed :: "DelayQueue \<Rightarrow> int \<Rightarrow> nat \<Rightarrow> bool" where
  "suppressed dq now tid \<longleftrightarrow> 0 < dq_dedupWindow dq
     \<and> (case lastOf dq tid of None \<Rightarrow> False | Some t \<Rightarrow> now - t < dq_dedupWindow dq)"

lemma h_clear [simp]: "dq_h (clearLastFired tid dq) = dq_h dq"
  by (simp add: clearLastFired_def split: option.split)

lemma h_clean [simp]: "dq_h (cleanLastFiredLocked now dq) = dq_h dq"
  by (simp add: cleanLastFiredLocked_def split: option.split)

lemma index_deadline: "dq_ok dq \<Longrightarrow> index (dq_h dq) tid = Some i \<Longrightarrow>
    i < Len (dq_h dq) \<and> t_ID (tasks (dq_h dq) ! i) = tid"
  using idx_okD(1,2) by (auto simp: dq_ok_def heap_inv_def)

lemma add_heap:
  assumes ok: "dq_ok dq"
  shows "dq_ok (DelayAdd tid e dq) \<and> dq_deadline (DelayAdd tid e dq) = (dq_deadline dq)(tid \<mapsto> e)"
proof (cases "index (dq_h dq) tid")
  case None
  with ok heap_Push_ok [of "dq_h dq" "\<lparr>t_ID = tid, t_Expire = e\<rparr>"] show ?thesis
    by (simp add: DelayAdd_def dq_ok_def dq_deadline_def)
next
  case (Some i)
  with index_deadline [OF ok Some] ok heap_Fix_ok [of "dq_h dq" i e] show ?thesis
    by (simp add: DelayAdd_def dq_ok_def dq_deadline_def)
qed

lemma reschedule_eq_add: "DelayReschedule tid e dq = DelayAdd tid e (clearLastFired tid dq)"
  by (simp add: DelayReschedule_def DelayAdd_def Let_def split: option.split)

lemma remove_heap:
  assumes ok: "dq_ok dq"
  shows "dq_ok (DelayRemove tid dq) \<and> dq_deadline (DelayRemove tid dq) = (dq_deadline dq)(tid := None)"
proof (cases "index (dq_h dq) tid")
  case None
  then have "dq_deadline dq tid = None" by (simp add: dq_deadline_def deadlines_def)
  with ok None show ?thesis by (simp add: DelayRemove_def dq_ok_def dq_deadline_def fun_upd_idem)
next
  case (Some i)
  with index_deadline [OF ok Some] ok heap_Remove_ok [of "dq_h dq" i] show ?thesis
    by (simp add: DelayRemove_def dq_ok_def dq_deadline_def)
qed

lemma deadline_less:
  assumes "dq_ok dq" and "dq_deadline dq tid = Some e"
  shows "\<exists>i < Len (dq_h dq). t_ID (tasks (dq_h dq) ! i) = tid \<and> key (dq_h dq) i = e"
  using assms idx_okD(1,2) [of "dq_h dq" tid] by (auto simp: dq_ok_def heap_inv_def dq_deadline_def deadlines_def)

lemma root_deadline:
  assumes ok: "dq_ok dq" and len: "0 < Len (dq_h dq)"
  shows "dq_deadline dq (t_ID (tasks (dq_h dq) ! 0)) = Some (key (dq_h dq) 0)"
    "dq_deadline dq tid = Some e \<Longrightarrow> key (dq_h dq) 0 \<le> e"
proof -
  show "dq_deadline dq (t_ID (tasks (dq_h dq) ! 0)) = Some (key (dq_h dq) 0)"
    using assms idx_okD(3) by (simp add: dq_ok_def heap_inv_def dq_deadline_def deadlines_def)
  assume "dq_deadline dq tid = Some e"
  from deadline_less [OF ok this] heap_root ok show "key (dq_h dq) 0 \<le> e"
    by (auto simp: dq_ok_def heap_inv_def)
qed

lemma empty_deadline: "dq_ok dq \<Longrightarrow> Len (dq_h dq) = 0 \<Longrightarrow> dq_deadline dq tid = None"
  using deadline_less [of dq tid] by (cases "dq_deadline dq tid") auto

lemma pop_dq:
  assumes "dq_ok dq" and "0 < Len (dq_h dq)"
  shows "dq_ok (snd (isDedupedLocked t now (dq\<lparr>dq_h := snd (heap_Pop (dq_h dq))\<rparr>)))"
    "dq_deadline (snd (isDedupedLocked t now (dq\<lparr>dq_h := snd (heap_Pop (dq_h dq))\<rparr>)))
       = (dq_deadline dq)(t_ID (tasks (dq_h dq) ! 0) := None)"
  using assms heap_Pop_ok [of "dq_h dq"] by (simp_all add: dq_ok_def dq_deadline_def)

lemma isDeduped_suppressed: "fst (isDedupedLocked t now dq) = suppressed dq now t"
  by (auto simp: isDedupedLocked_def suppressed_def lastOf_def Let_def split: option.split)

lemma isDeduped_last:
  "lastOf (snd (isDedupedLocked t now dq)) =
     (if 0 < dq_dedupWindow dq \<and> \<not> suppressed dq now t then (lastOf dq)(t \<mapsto> now) else lastOf dq)"
  by (auto simp: isDedupedLocked_def suppressed_def lastOf_def Let_def split: option.split)

lemma suppressed_h [simp]: "suppressed (dq\<lparr>dq_h := h\<rparr>) now t = suppressed dq now t"
  and lastOf_h [simp]: "lastOf (dq\<lparr>dq_h := h\<rparr>) = lastOf dq"
  by (simp_all add: suppressed_def lastOf_def cong: option.case_cong)

lemma suppressed_other:
  "tid \<noteq> t \<Longrightarrow> suppressed (snd (isDedupedLocked t now dq)) now tid = suppressed dq now tid"
  by (auto simp: suppressed_def [of "snd r" for r] suppressed_def [of dq now tid] isDeduped_last split: option.split)

lemma loop_state:
  "dq_ok dq \<Longrightarrow> dq_ok (snd (checkExpired_loop now dq))
     \<and> dq_deadline (snd (checkExpired_loop now dq)) = spec_step (TickOp now) (dq_deadline dq)
     \<and> dq_dedupWindow (snd (checkExpired_loop now dq)) = dq_dedupWindow dq
     \<and> dq_callback (snd (checkExpired_loop now dq)) = dq_callback dq
     \<and> dq_stopCh (snd (checkExpired_loop now dq)) = dq_stopCh dq"
proof (induction now dq rule: checkExpired_loop.induct)
  case (1 now dq)
  let ?t = "tasks (dq_h dq) ! 0"
  let ?q = "snd (isDedupedLocked (t_ID ?t) now (dq\<lparr>dq_h := snd (heap_Pop (dq_h dq))\<rparr>))"
  consider "Len (dq_h dq) = 0" | "0 < Len (dq_h dq)" "now < t_Expire ?t" | "0 < Len (dq_h dq)" "t_Expire ?t \<le> now"
    by linarith
  then show ?case
  proof cases
    case 1
    then have "dq_deadline dq = Map.empty" using empty_deadline [OF \<open>dq_ok dq\<close>] by auto
    with 1 \<open>dq_ok dq\<close> show ?thesis by (auto simp: checkExpired_loop.simps)
  next
    case 2
    then have "spec_step (TickOp now) (dq_deadline dq) = dq_deadline dq"
      using root_deadline(2) [OF \<open>dq_ok dq\<close>] by (fastforce simp: fun_eq_iff split: option.split)
    with 2 \<open>dq_ok dq\<close> show ?thesis by (simp add: checkExpired_loop.simps)
  next
    case 3
    note ok = pop_dq [OF \<open>dq_ok dq\<close> 3(1), of "t_ID ?t" now]
    have IH: "dq_ok (snd (checkExpired_loop now ?q))
       \<and> dq_deadline (snd (checkExpired_loop now ?q)) = spec_step (TickOp now) (dq_deadline ?q)
       \<and> dq_dedupWindow (snd (checkExpired_loop now ?q)) = dq_dedupWindow ?q
       \<and> dq_callback (snd (checkExpired_loop now ?q)) = dq_callback ?q
       \<and> dq_stopCh (snd (checkExpired_loop now ?q)) = dq_stopCh ?q"
      using "1.IH" [OF 3(1) refl _ refl ok(1)] 3(2) by simp
    have "spec_step (TickOp now) ((dq_deadline dq)(t_ID ?t := None)) = spec_step (TickOp now) (dq_deadline dq)"
      using 3 root_deadline(1) [OF \<open>dq_ok dq\<close> 3(1)] by (auto simp: fun_eq_iff split: option.split)
    with IH ok 3 show ?thesis by (simp add: checkExpired_loop.simps [of now dq] Let_def)
  qed
qed

lemma loop_fires:
  "dq_ok dq \<Longrightarrow> dq_callback dq \<Longrightarrow>
     distinct (fst (checkExpired_loop now dq))
     \<and> (\<forall>tid. tid \<in> set (fst (checkExpired_loop now dq)) \<longleftrightarrow>
          (\<exists>e. dq_deadline dq tid = Some e \<and> e \<le> now) \<and> \<not> suppressed dq now tid)
     \<and> sorted (map (\<lambda>tid. the (dq_deadline dq tid)) (fst (checkExpired_loop now dq)))
     \<and> lastOf (snd (checkExpired_loop now dq)) =
         (\<lambda>tid. if 0 < dq_dedupWindow dq \<and> tid \<in> set (fst (checkExpired_loop now dq)) then Some now
                else lastOf dq tid)"
proof (induction now dq rule: checkExpired_loop.induct)
  case (1 now dq)
  let ?t = "tasks (dq_h dq) ! 0"
  let ?q = "snd (isDedupedLocked (t_ID ?t) now (dq\<lparr>dq_h := snd (heap_Pop (dq_h dq))\<rparr>))"
  let ?fs = "fst (checkExpired_loop now ?q)"
  consider "Len (dq_h dq) = 0" | "0 < Len (dq_h dq)" "now < t_Expire ?t" | "0 < Len (dq_h dq)" "t_Expire ?t \<le> now"
    by linarith
  then show ?case
  proof cases
    case 1
    then show ?thesis using empty_deadline [OF \<open>dq_ok dq\<close>] by (simp add: checkExpired_loop.simps)
  next
    case 2
    then show ?thesis using root_deadline(2) [OF \<open>dq_ok dq\<close>] by (fastforce simp: checkExpired_loop.simps)
  next
    case 3
    note ok = pop_dq [OF \<open>dq_ok dq\<close> 3(1), of "t_ID ?t" now]
    note root = root_deadline [OF \<open>dq_ok dq\<close> 3(1)]
    have IH: "distinct ?fs"
      "\<And>tid. tid \<in> set ?fs \<longleftrightarrow> (\<exists>e. dq_deadline ?q tid = Some e \<and> e \<le> now) \<and> \<not> suppressed ?q now tid"
      "sorted (map (\<lambda>tid. the (dq_deadline ?q tid)) ?fs)"
      "lastOf (snd (checkExpired_loop now ?q)) =
         (\<lambda>tid. if 0 < dq_dedupWindow ?q \<and> tid \<in> set ?fs then Some now else lastOf ?q tid)"
      using "1.IH" [OF 3(1) refl _ refl ok(1)] 3(2) \<open>dq_callback dq\<close> by simp_all
    have fresh: "t_ID ?t \<notin> set ?fs" using IH(2) ok(2) by simp
    then have same: "map (\<lambda>tid. the (dq_deadline ?q tid)) ?fs = map (\<lambda>tid. the (dq_deadline dq tid)) ?fs"
      using ok(2) by auto
    have mem: "tid \<in> set ?fs \<longleftrightarrow> tid \<noteq> t_ID ?t \<and> (\<exists>e. dq_deadline dq tid = Some e \<and> e \<le> now) \<and> \<not> suppressed dq now tid" for tid
      using IH(2) [of tid] suppressed_other [of tid "t_ID ?t" now "dq\<lparr>dq_h := snd (heap_Pop (dq_h dq))\<rparr>"] ok(2) by auto
    have loop: "checkExpired_loop now dq =
        ((if suppressed dq now (t_ID ?t) then [] else [t_ID ?t]) @ ?fs, snd (checkExpired_loop now ?q))"
      using 3 \<open>dq_callback dq\<close> by (simp add: checkExpired_loop.simps [of now dq] Let_def isDeduped_suppressed)
    have srt: "sorted (map (\<lambda>tid. the (dq_deadline dq tid)) ([t_ID ?t] @ ?fs))"
      using IH(3) same root mem by auto
    show ?thesis
      using IH(1,4) fresh srt mem root(1) 3(2)
      by (auto simp: loop isDeduped_last fun_eq_iff)
  qed
qed

lemma snd_checkExpired: "snd (checkExpired now dq) = cleanLastFiredLocked now (snd (checkExpired_loop now dq))"
  and fst_checkExpired: "fst (checkExpired now dq) = fst (checkExpired_loop now dq)"
  by (simp_all add: checkExpired_def split: prod.split)

lemma clean_keeps [simp]:
  "dq_ok (cleanLastFiredLocked now dq) = dq_ok dq"
  "dq_deadline (cleanLastFiredLocked now dq) = dq_deadline dq"
  by (simp_all add: dq_ok_def dq_deadline_def)

lemma clear_keeps [simp]:
  "dq_ok (clearLastFired tid dq) = dq_ok dq"
  "dq_deadline (clearLastFired tid dq) = dq_deadline dq"
  by (simp_all add: dq_ok_def dq_deadline_def)

interpretation dq: deadline_timer dq_ok dq_deadline DelayAdd DelayRemove DelayReschedule
  "\<lambda>now s. snd (checkExpired now s)"
  by unfold_locales
    (simp_all add: add_heap remove_heap reschedule_eq_add snd_checkExpired loop_state del: spec_step.simps)

section \<open>Histories\<close>

text \<open>A history of the queue: the operations in the order of the mutex, with what the ticks fired.\<close>

fun dq_step :: "timer_op \<Rightarrow> DelayQueue \<Rightarrow> (int \<times> nat) list \<times> DelayQueue" where
  "dq_step (AddOp tid e) dq = ([], DelayAdd tid e dq)"
| "dq_step (RemoveOp tid) dq = ([], DelayRemove tid dq)"
| "dq_step (RescheduleOp tid e) dq = ([], DelayReschedule tid e dq)"
| "dq_step (TickOp now) dq = (map (Pair now) (fst (checkExpired now dq)), snd (checkExpired now dq))"

fun dq_run :: "timer_op list \<Rightarrow> DelayQueue \<Rightarrow> (int \<times> nat) list \<times> DelayQueue" where
  "dq_run [] dq = ([], dq)"
| "dq_run (a # as) dq = (fst (dq_step a dq) @ fst (dq_run as (snd (dq_step a dq))), snd (dq_run as (snd (dq_step a dq))))"

lemma snd_dq_step: "snd (dq_step a dq) = dq.step a dq"
  by (cases a) simp_all

lemma snd_dq_run: "snd (dq_run as dq) = fold dq.step as dq"
  by (induction as arbitrary: dq) (simp_all add: snd_dq_step)

lemma dq_h_new [simp]: "dq_h (NewDelayQueue cb opts) = newIndexedTaskHeap"
  and dq_callback_new [simp]: "dq_callback (NewDelayQueue cb opts) = cb"
proof -
  have "dq_h (fold SetDedupWindow opts q) = dq_h q \<and> dq_callback (fold SetDedupWindow opts q) = dq_callback q" for q
    by (induction opts arbitrary: q) (simp_all add: SetDedupWindow_def)
  then show "dq_h (NewDelayQueue cb opts) = newIndexedTaskHeap" "dq_callback (NewDelayQueue cb opts) = cb"
    by (simp_all add: NewDelayQueue_def)
qed

lemma dq_ok_new: "dq_ok (NewDelayQueue cb opts)"
  by (simp add: dq_ok_def heap_inv_new)

lemma dq_deadline_new: "dq_deadline (NewDelayQueue cb opts) = Map.empty"
  by (simp add: dq_deadline_def deadlines_def newIndexedTaskHeap_def fun_eq_iff)

text \<open>
  C11: after any history of a delay queue, the heap of \<open>Add\<close>, \<open>Remove\<close>, \<open>Reschedule\<close> and the ticks
  holds exactly the deadlines that the same history gives a plain map from identifiers to deadlines, and
  its identifier index and its heap order are intact: the binary heap with lazy repositioning refines
  the map.
\<close>

theorem delay_queue_refines_map:
  "dq_deadline (snd (dq_run as (NewDelayQueue cb opts))) = fold spec_step as Map.empty
   \<and> dq_ok (snd (dq_run as (NewDelayQueue cb opts)))"
  using dq.history_refines [OF dq_ok_new] by (simp add: snd_dq_run dq_deadline_new)

lemma callback_ops [simp]:
  "dq_callback (DelayAdd tid e dq) = dq_callback dq" "dq_dedupWindow (DelayAdd tid e dq) = dq_dedupWindow dq"
  "dq_callback (clearLastFired tid dq) = dq_callback dq"
  "dq_dedupWindow (clearLastFired tid dq) = dq_dedupWindow dq"
  "dq_callback (cleanLastFiredLocked now dq) = dq_callback dq"
  "dq_dedupWindow (cleanLastFiredLocked now dq) = dq_dedupWindow dq"
  by (simp_all add: DelayAdd_def clearLastFired_def cleanLastFiredLocked_def split: option.split)

lemma callback_remove [simp]:
  "dq_callback (DelayRemove tid dq) = dq_callback dq" "dq_dedupWindow (DelayRemove tid dq) = dq_dedupWindow dq"
  by (simp_all add: DelayRemove_def Let_def split: option.split)

lemma step_keeps:
  "dq_ok dq \<Longrightarrow> dq_ok (snd (dq_step a dq)) \<and> dq_callback (snd (dq_step a dq)) = dq_callback dq
     \<and> dq_dedupWindow (snd (dq_step a dq)) = dq_dedupWindow dq"
  by (cases a) (simp_all add: reschedule_eq_add snd_checkExpired add_heap remove_heap loop_state)

lemma run_keeps:
  "dq_ok dq \<Longrightarrow> dq_ok (snd (dq_run as dq)) \<and> dq_callback (snd (dq_run as dq)) = dq_callback dq
     \<and> dq_dedupWindow (snd (dq_run as dq)) = dq_dedupWindow dq"
  by (induction as arbitrary: dq) (simp_all add: step_keeps)

text \<open>
  C15: at every tick of every history, \<open>checkExpired\<close> ends and launches one callback for each scheduled
  identifier whose deadline has come and that the duplicate window does not suppress, none for any other,
  none twice, and in the order of the deadlines.
\<close>

theorem tick_fires_exactly_due:
  "let dq = snd (dq_run as (NewDelayQueue True opts)); fired = fst (checkExpired now dq)
   in distinct fired
      \<and> set fired = {tid. (\<exists>e \<le> now. dq_deadline dq tid = Some e) \<and> \<not> suppressed dq now tid}
      \<and> sorted (map (\<lambda>tid. the (dq_deadline dq tid)) fired)"
proof -
  let ?q = "snd (dq_run as (NewDelayQueue True opts))"
  have "dq_ok ?q" "dq_callback ?q" using run_keeps [OF dq_ok_new] by simp_all
  from loop_fires [OF this, of now] show ?thesis by (auto simp: Let_def fst_checkExpired)
qed

subsection \<open>The duplicate window\<close>

definition ticks :: "timer_op list \<Rightarrow> int list" where
  "ticks as = concat (map (\<lambda>a. case a of TickOp now \<Rightarrow> [now] | _ \<Rightarrow> []) as)"

definition fires_of :: "nat \<Rightarrow> (int \<times> nat) list \<Rightarrow> int list" where
  "fires_of tid tr = map fst (filter (\<lambda>(t, i). i = tid) tr)"

fun forgets :: "nat \<Rightarrow> timer_op \<Rightarrow> bool" where
  "forgets tid (RemoveOp k) = (k = tid)"
| "forgets tid (RescheduleOp k e) = (k = tid)"
| "forgets tid a = False"

lemma lastOf_ops [simp]:
  "lastOf (DelayAdd k e dq) = lastOf dq"
  "lastOf (clearLastFired k dq) = (lastOf dq)(k := None)"
  "lastOf (DelayRemove k dq) = (lastOf dq)(k := None)"
  by (auto simp: DelayAdd_def DelayRemove_def clearLastFired_def lastOf_def Let_def split: option.split)

lemma lastOf_clean:
  "lastOf (cleanLastFiredLocked now dq) tid = (case lastOf dq tid of None \<Rightarrow> None | Some t \<Rightarrow>
     if 0 < dq_dedupWindow dq \<and> dq_dedupWindow dq \<le> now - t then None else Some t)"
  by (auto simp: cleanLastFiredLocked_def lastOf_def split: option.split)

lemma fires_of_tick:
  "distinct fs \<Longrightarrow> fires_of tid (map (Pair now) fs) = (if tid \<in> set fs then [now] else [])"
  by (induction fs) (auto simp: fires_of_def)

text \<open>What a fire of \<open>tid\<close> at time \<open>t\<close> leaves behind until the window has passed.\<close>

definition holds_back :: "DelayQueue \<Rightarrow> nat \<Rightarrow> int \<Rightarrow> int \<Rightarrow> bool" where
  "holds_back dq tid c t \<longleftrightarrow> t \<le> c \<and> (dq_dedupWindow dq \<le> c - t \<or> (\<exists>t' \<ge> t. lastOf dq tid = Some t'))"

lemma tick_holds_back:
  assumes ok: "dq_ok dq" "dq_callback dq" "0 < dq_dedupWindow dq" and c: "c \<le> now"
  shows "holds_back dq tid c t \<Longrightarrow> holds_back (snd (checkExpired now dq)) tid now t"
    "holds_back dq tid c t \<Longrightarrow> tid \<in> set (fst (checkExpired now dq)) \<Longrightarrow> dq_dedupWindow dq \<le> now - t"
    "tid \<in> set (fst (checkExpired now dq)) \<Longrightarrow> holds_back (snd (checkExpired now dq)) tid now now"
proof -
  note L = loop_fires [OF ok(1,2), of now]
  note S = loop_state [OF ok(1), of now]
  let ?fs = "fst (checkExpired_loop now dq)"
  have last: "lastOf (snd (checkExpired now dq)) tid = (if tid \<in> set ?fs then Some now else
     (case lastOf dq tid of None \<Rightarrow> None | Some t \<Rightarrow> if dq_dedupWindow dq \<le> now - t then None else Some t))"
    using L S ok(3) by (auto simp: snd_checkExpired lastOf_clean split: option.split)
  have win: "dq_dedupWindow (snd (checkExpired now dq)) = dq_dedupWindow dq" using S by (simp add: snd_checkExpired)
  show two: "dq_dedupWindow dq \<le> now - t" if "holds_back dq tid c t" "tid \<in> set (fst (checkExpired now dq))"
    using that L ok(3) c by (auto simp: holds_back_def suppressed_def fst_checkExpired)
  show "holds_back (snd (checkExpired now dq)) tid now t" if "holds_back dq tid c t"
    using that c by (auto simp: holds_back_def last win split: option.split)
  show "holds_back (snd (checkExpired now dq)) tid now now" if "tid \<in> set (fst (checkExpired now dq))"
    using that by (simp add: holds_back_def last fst_checkExpired)
qed

lemma step_holds_back:
  "holds_back dq tid c t \<Longrightarrow> \<not> forgets tid a \<Longrightarrow> (\<forall>now. a \<noteq> TickOp now) \<Longrightarrow> holds_back (snd (dq_step a dq)) tid c t"
  by (cases a) (auto simp: holds_back_def reschedule_eq_add)

lemma run_holds_back:
  "dq_ok dq \<Longrightarrow> dq_callback dq \<Longrightarrow> 0 < dq_dedupWindow dq \<Longrightarrow> holds_back dq tid c t \<Longrightarrow>
   \<not> list_ex (forgets tid) as \<Longrightarrow> sorted (c # ticks as) \<Longrightarrow>
   u \<in> set (fires_of tid (fst (dq_run as dq))) \<Longrightarrow> dq_dedupWindow dq \<le> u - t"
proof (induction as arbitrary: dq c)
  case Nil
  then show ?case by (simp add: fires_of_def)
next
  case (Cons a as)
  note keep = step_keeps [OF Cons.prems(1), of a]
  show ?case
  proof (cases "\<exists>now. a = TickOp now")
    case True
    then obtain now where a: "a = TickOp now" by blast
    let ?fs = "fst (checkExpired now dq)"
    have c: "c \<le> now" and srt: "sorted (now # ticks as)" using Cons.prems(6) a by (simp_all add: ticks_def)
    note T = tick_holds_back [OF Cons.prems(1,2,3) c, of tid]
    have dist: "distinct ?fs" using loop_fires [OF Cons.prems(1,2)] by (simp add: fst_checkExpired)
    from Cons.prems(7) a consider "tid \<in> set ?fs" "u = now"
      | "u \<in> set (fires_of tid (fst (dq_run as (snd (dq_step a dq)))))"
      using fires_of_tick [OF dist, of tid now] by (auto simp: fires_of_def split: if_splits)
    then show ?thesis
    proof cases
      case 1
      then show ?thesis using T(2) [OF Cons.prems(4)] by simp
    next
      case 2
      then show ?thesis
        using Cons.IH [of "snd (dq_step a dq)" now] keep Cons.prems T(1) [OF Cons.prems(4)] a srt by simp
    qed
  next
    case False
    then have "fst (dq_step a dq) = []" "ticks (a # as) = ticks as"
      by (cases a; simp add: ticks_def)+
    then show ?thesis
      using Cons.IH [of "snd (dq_step a dq)" c] keep Cons.prems step_holds_back [of dq tid c t a] False by auto
  qed
qed

lemma run_spaced:
  "dq_ok dq \<Longrightarrow> dq_callback dq \<Longrightarrow> 0 < dq_dedupWindow dq \<Longrightarrow>
   \<not> list_ex (forgets tid) as \<Longrightarrow> sorted (ticks as) \<Longrightarrow>
   sorted_wrt (\<lambda>t u. dq_dedupWindow dq \<le> u - t) (fires_of tid (fst (dq_run as dq)))"
proof (induction as arbitrary: dq)
  case Nil
  then show ?case by (simp add: fires_of_def)
next
  case (Cons a as)
  note keep = step_keeps [OF Cons.prems(1), of a]
  let ?q = "snd (dq_step a dq)"
  have srt: "sorted (ticks as)" using Cons.prems(5) by (auto simp: ticks_def sorted_append)
  have IH: "sorted_wrt (\<lambda>t u. dq_dedupWindow dq \<le> u - t) (fires_of tid (fst (dq_run as ?q)))"
    using Cons.IH [of ?q] keep Cons.prems srt by simp
  have app: "fires_of tid (fst (dq_run (a # as) dq)) = fires_of tid (fst (dq_step a dq)) @ fires_of tid (fst (dq_run as ?q))"
    by (simp add: fires_of_def)
  show ?case
  proof (cases a)
    case (TickOp now)
    let ?fs = "fst (checkExpired now dq)"
    have dist: "distinct ?fs" using loop_fires [OF Cons.prems(1,2)] by (simp add: fst_checkExpired)
    have one: "fires_of tid (fst (dq_step a dq)) = (if tid \<in> set ?fs then [now] else [])"
      using fires_of_tick [OF dist] TickOp by simp
    have "dq_dedupWindow dq \<le> u - now" if "tid \<in> set ?fs" "u \<in> set (fires_of tid (fst (dq_run as ?q)))" for u
      using run_holds_back [of ?q tid now now as u] tick_holds_back(3) [OF Cons.prems(1,2,3) order_refl that(1)]
        that keep Cons.prems TickOp by (simp add: ticks_def)
    then show ?thesis unfolding app one using IH by simp
  qed (use IH in \<open>simp_all add: fires_of_def\<close>)
qed

text \<open>
  With a positive duplicate window, callbacks for one identifier are at least the window apart, over
  any history whose clock does not run backwards and that neither removes nor reschedules the identifier:
  clearing old entries after every tick never forgets a fire too early.
\<close>

theorem duplicate_window_respected:
  assumes "0 < w" and "sorted (ticks as)" and "\<not> list_ex (forgets tid) as"
  shows "sorted_wrt (\<lambda>t u. w \<le> u - t) (fires_of tid (fst (dq_run as (NewDelayQueue True [w]))))"
proof -
  have "dq_dedupWindow (NewDelayQueue True [w]) = w" by (simp add: NewDelayQueue_def SetDedupWindow_def)
  with run_spaced [OF dq_ok_new, of True "[w]" tid as] assms show ?thesis by simp
qed

definition window_script :: "timer_op list" where
  "window_script = [AddOp 7 10, AddOp 8 5, TickOp 12, AddOp 7 13, TickOp 15, AddOp 7 20, TickOp 25]"

theorem duplicate_window_respected_witness:
  "sorted_wrt (\<lambda>t u. 10 \<le> u - t) (fires_of 7 (fst (dq_run window_script (NewDelayQueue True [10]))))
   \<and> fst (dq_run window_script (NewDelayQueue True [10])) = [(12, 8), (12, 7), (25, 7)]"
proof -
  have "sorted (ticks window_script)" "\<not> list_ex (forgets 7) window_script" by code_simp+
  moreover have "fst (dq_run window_script (NewDelayQueue True [10])) = [(12, 8), (12, 7), (25, 7)]" by code_simp
  ultimately show ?thesis using duplicate_window_respected [of 10 window_script 7] by simp
qed

end
