(* ===== verification/Timer_Ids.thy ===== *)
theory Timer_Ids
  imports Sky_Prelude "HOL-Library.Word"
begin

unbundle bit_operations_syntax

text \<open>
  The timer identifier generator of \<open>timer/id_generator.go\<close>, at the widths of the source: node and
  sequence are 16-bit words, identifiers 64-bit words, and the milliseconds that \<open>UnixMilli\<close> returns
  are integers whose differences wrap as \<open>int64\<close>.  The clock \<open>g.now\<close> is a parameter, the sequence of
  its readings, of which the generator counts how many it has taken; \<open>g.sleep\<close> has no other effect.
  The loop that waits for the next millisecond may not end, so its value is \<open>None\<close> when it does not.
\<close>

definition snowflakeEpochMs :: int where "snowflakeEpochMs = 1704067200000"

definition snowflakeNodeBits :: nat where "snowflakeNodeBits = 10"

definition snowflakeSequenceBits :: nat where "snowflakeSequenceBits = 12"

definition snowflakeMaxNodeID :: "16 word" where
  "snowflakeMaxNodeID = push_bit snowflakeNodeBits 1 - 1"

definition snowflakeMaxSequence :: "16 word" where
  "snowflakeMaxSequence = push_bit snowflakeSequenceBits 1 - 1"

definition millisecond :: int where "millisecond = 1000000"

definition maxClockBackoff :: int where "maxClockBackoff = 5 * millisecond"

text \<open>Two's complement wrap-around of \<open>int64\<close>.\<close>

definition wrap64 :: "int \<Rightarrow> int" where
  "wrap64 x = (x + 2 ^ 63) mod 2 ^ 64 - 2 ^ 63"

datatype id_error = ErrNilGenerator | ErrClockBackwards int | ErrBeforeEpoch

record IDGenerator =
  nodeID :: "16 word"
  lastMs :: int
  sequence :: "16 word"
  maxBack :: int
  epochMs :: int
  seqMask :: "16 word"
  nodeShift :: nat
  timeShift :: nat
  reads :: nat

definition NewIDGenerator :: "16 word \<Rightarrow> IDGenerator" where
  "NewIDGenerator node =
     \<lparr>nodeID = (if node > snowflakeMaxNodeID then node AND snowflakeMaxNodeID else node),
      lastMs = 0, sequence = 0, maxBack = maxClockBackoff, epochMs = snowflakeEpochMs,
      seqMask = snowflakeMaxSequence, nodeShift = snowflakeSequenceBits,
      timeShift = snowflakeNodeBits + snowflakeSequenceBits, reads = 0\<rparr>"

text \<open>\<open>fnv.New32a\<close>: exclusive or with the byte, then multiplication by the 32-bit FNV prime.\<close>

definition fnv32a :: "8 word list \<Rightarrow> 32 word" where
  "fnv32a bs = fold (\<lambda>b h. (h XOR ucast b) * 16777619) bs 2166136261"

definition default_name :: "8 word list" where
  "default_name = map of_nat [100, 101, 102, 97, 117, 108, 116]"

definition NodeNameToSnowflakeNodeID :: "8 word list \<Rightarrow> 16 word" where
  "NodeNameToSnowflakeNodeID nodeName =
     (let nodeName = (if nodeName = [] then default_name else nodeName)
      in ucast (fnv32a nodeName AND ucast snowflakeMaxNodeID))"

definition NewIDGeneratorFromNodeName :: "8 word list \<Rightarrow> IDGenerator" where
  "NewIDGeneratorFromNodeName nodeName = NewIDGenerator (NodeNameToSnowflakeNodeID nodeName)"

text \<open>One reading of the clock.\<close>

definition readClock :: "(nat \<Rightarrow> int) \<Rightarrow> IDGenerator \<Rightarrow> int \<times> IDGenerator" where
  "readClock clock g = (clock (reads g), g\<lparr>reads := Suc (reads g)\<rparr>)"

text \<open>The loop of \<open>Next\<close> that waits for the clock to pass \<open>lastMs\<close>; \<open>k\<close> is the number of readings so far.\<close>

partial_function (option) waitPast :: "(nat \<Rightarrow> int) \<Rightarrow> int \<Rightarrow> int \<Rightarrow> nat \<Rightarrow> (int \<times> nat) option" where
  "waitPast clock limit nowMs k =
     (if nowMs \<le> limit then waitPast clock limit (clock k) (Suc k) else Some (nowMs, k))"

definition advance :: "(nat \<Rightarrow> int) \<Rightarrow> int \<Rightarrow> IDGenerator \<Rightarrow> (int \<times> IDGenerator) option" where
  "advance clock nowMs g =
     (if nowMs = lastMs g then
        let g = g\<lparr>sequence := (sequence g + 1) AND seqMask g\<rparr>
        in if sequence g = 0
           then case waitPast clock (lastMs g) nowMs (reads g) of
                  None \<Rightarrow> None
                | Some (nowMs, k) \<Rightarrow> Some (nowMs, g\<lparr>reads := k\<rparr>)
           else Some (nowMs, g)
      else Some (nowMs, g\<lparr>sequence := 0\<rparr>))"

definition compose :: "int \<Rightarrow> IDGenerator \<Rightarrow> id_error + 64 word" where
  "compose nowMs g =
     (let elapsed = wrap64 (nowMs - epochMs g)
      in if elapsed < 0 then Inl ErrBeforeEpoch
         else Inr (push_bit (timeShift g) (word_of_int elapsed)
                   OR push_bit (nodeShift g) (ucast (nodeID g)) OR ucast (sequence g)))"

definition Next_from :: "(nat \<Rightarrow> int) \<Rightarrow> int \<Rightarrow> IDGenerator \<Rightarrow> ((id_error + 64 word) \<times> IDGenerator) option" where
  "Next_from clock nowMs g =
     (case advance clock nowMs g of
        None \<Rightarrow> None
      | Some (nowMs, g) \<Rightarrow> Some (compose nowMs g, g\<lparr>lastMs := nowMs\<rparr>))"

definition Next :: "(nat \<Rightarrow> int) \<Rightarrow> IDGenerator option \<Rightarrow> ((id_error + 64 word) \<times> IDGenerator option) option" where
  "Next clock og =
     (case og of
        None \<Rightarrow> Some (Inl ErrNilGenerator, None)
      | Some g \<Rightarrow>
          let (nowMs, g) = readClock clock g
          in map_option (map_prod id Some)
               (if nowMs < lastMs g then
                  let backoff = wrap64 (wrap64 (lastMs g - nowMs) * millisecond)
                  in if backoff > maxBack g then Some (Inl (ErrClockBackwards backoff), g)
                     else let (nowMs, g) = readClock clock g
                          in Next_from clock (if nowMs < lastMs g then lastMs g else nowMs) g
                else Next_from clock nowMs g))"

text \<open>A history of calls: the identifiers that \<open>n\<close> calls return, and the generator after them.\<close>

fun NextN :: "(nat \<Rightarrow> int) \<Rightarrow> nat \<Rightarrow> IDGenerator \<Rightarrow> (64 word list \<times> IDGenerator) option" where
  "NextN clock 0 g = Some ([], g)"
| "NextN clock (Suc n) g =
     (case Next clock (Some g) of
        Some (r, Some g) \<Rightarrow>
          (case NextN clock n g of
             None \<Rightarrow> None
           | Some (ids, g) \<Rightarrow> Some ((case r of Inl _ \<Rightarrow> ids | Inr i \<Rightarrow> i # ids), g))
      | _ \<Rightarrow> None)"

section \<open>Layout of an identifier\<close>

lemma or_low: "0 \<le> b \<Longrightarrow> b < 2 ^ k \<Longrightarrow> push_bit k a OR b = a * 2 ^ k + b" for a b :: int
proof -
  assume b: "0 \<le> b" "b < 2 ^ k"
  have "take_bit k b = b" using b by (simp add: take_bit_int_eq_self)
  then have "\<not> bit (push_bit k a) n \<or> \<not> bit b n" for n
    by (metis bit_push_bit_iff_int bit_take_bit_iff not_le)
  then show ?thesis using disjunctive_add [of "push_bit k a" b] by (simp add: push_bit_eq_mult)
qed

lemma uint_push:
  fixes x :: "64 word"
  assumes "uint x * 2 ^ k < 2 ^ 64"
  shows "uint (push_bit k x) = push_bit k (uint x)"
proof -
  have "uint (push_bit k x) = take_bit 64 (push_bit k (uint x))"
    by (simp add: unsigned_push_bit_eq)
  also have "\<dots> = push_bit k (uint x)"
    using assms by (intro take_bit_int_eq_self) (simp_all add: push_bit_eq_mult)
  finally show ?thesis .
qed

lemma uint_ucast16 [simp]: "uint (ucast (n :: 16 word) :: 64 word) = uint n"
  by (rule uint_up_ucast) (simp add: is_up)

definition idval :: "int \<Rightarrow> 16 word \<Rightarrow> 16 word \<Rightarrow> int" where
  "idval e n s = e * 2 ^ 22 + uint n * 2 ^ 12 + uint s"

lemma layout:
  assumes e: "0 \<le> e" "e < 2 ^ 42" and n: "uint n < 2 ^ 10" and s: "uint s < 2 ^ 12"
  shows "uint (push_bit 22 (word_of_int e) OR push_bit 12 (ucast n) OR ucast s :: 64 word) = idval e n s"
proof -
  have ue: "uint (word_of_int e :: 64 word) = e"
    using e by (simp add: uint_word_of_int_eq take_bit_int_eq_self)
  have low: "uint (push_bit 12 (ucast n) OR ucast s :: 64 word) = uint n * 2 ^ 12 + uint s"
    using n or_low [of "uint s" 12 "uint n"] s
    by (subst unsigned_or_eq, subst uint_push) simp_all
  have "uint n * 2 ^ 12 + uint s < 2 ^ 22" using n s by simp
  moreover have "0 \<le> uint n * 2 ^ 12 + uint s" by simp
  ultimately have "push_bit 22 e OR (uint n * 2 ^ 12 + uint s) = e * 2 ^ 22 + (uint n * 2 ^ 12 + uint s)"
    by (intro or_low)
  then show ?thesis
    unfolding idval_def using low ue e by (subst unsigned_or_eq, subst uint_push) simp_all
qed

lemma idval_less:
  assumes "e < e' \<or> e = e' \<and> uint s < uint s'" and "uint n < 2 ^ 10" and "uint s < 2 ^ 12"
  shows "idval e n s < idval e' n s'"
  using assms by (auto simp: idval_def) (smt (verit) uint_nonnegative)

text \<open>What a reader of an identifier can recover.\<close>

definition id_time :: "64 word \<Rightarrow> int" where "id_time i = uint i div 2 ^ 22"
definition id_node :: "64 word \<Rightarrow> int" where "id_node i = uint i div 2 ^ 12 mod 2 ^ 10"
definition id_seq :: "64 word \<Rightarrow> int" where "id_seq i = uint i mod 2 ^ 12"

lemma div_mod_low: "0 \<le> b \<Longrightarrow> b < m \<Longrightarrow> (x * m + b) div m = x \<and> (x * m + b) mod m = b" for b m x :: int
  by (simp add: div_pos_pos_trivial mod_pos_pos_trivial)

lemma layout_fields:
  assumes "uint i = idval e n s" and "0 \<le> e" and n: "uint n < 2 ^ 10" and s: "uint s < 2 ^ 12"
  shows "id_time i = e" "id_node i = uint n" "id_seq i = uint s"
proof -
  have i: "uint i = (e * 2 ^ 10 + uint n) * 2 ^ 12 + uint s"
    unfolding assms(1) idval_def by (simp add: algebra_simps)
  have i': "uint i = e * 2 ^ 22 + (uint n * 2 ^ 12 + uint s)"
    unfolding assms(1) idval_def by simp
  have low: "uint n * 2 ^ 12 + uint s < 2 ^ 22" "0 \<le> uint n * 2 ^ 12 + uint s" using n s by simp_all
  show "id_time i = e"
    unfolding id_time_def i' by (rule div_mod_low [OF low(2,1), THEN conjunct1])
  show "id_seq i = uint s"
    unfolding id_seq_def i by (rule div_mod_low [OF uint_nonnegative s, THEN conjunct2])
  show "id_node i = uint n"
    unfolding id_node_def i div_mod_low [OF uint_nonnegative s, THEN conjunct1]
    by (rule div_mod_low [OF uint_nonnegative n, THEN conjunct2])
qed

section \<open>Every call moves the generator forward\<close>

definition gen_ok :: "IDGenerator \<Rightarrow> bool" where
  "gen_ok g \<longleftrightarrow> uint (nodeID g) < 2 ^ 10 \<and> uint (sequence g) < 2 ^ 12 \<and> epochMs g = snowflakeEpochMs
     \<and> seqMask g = mask 12 \<and> nodeShift g = 12 \<and> timeShift g = 22 \<and> maxBack g = maxClockBackoff"

lemma and_mask_less: "uint (x AND mask k :: 16 word) < 2 ^ k"
proof -
  have "uint (take_bit k x) = take_bit k (uint x)" by (simp add: unsigned_take_bit_eq)
  then show ?thesis by (simp add: take_bit_eq_mask [symmetric])
qed

lemma masks: "snowflakeMaxNodeID = mask 10" "snowflakeMaxSequence = mask 12"
  by (simp_all add: snowflakeMaxNodeID_def snowflakeMaxSequence_def snowflakeNodeBits_def
      snowflakeSequenceBits_def mask_eq_exp_minus_1 push_bit_eq_mult)

lemma gen_ok_new: "gen_ok (NewIDGenerator node)"
proof -
  have "uint (nodeID (NewIDGenerator node)) < 2 ^ 10"
  proof (cases "node > snowflakeMaxNodeID")
    case True
    then show ?thesis using and_mask_less [of node 10] by (simp add: NewIDGenerator_def masks)
  next
    case False
    then have "uint node \<le> uint (mask 10 :: 16 word)" by (simp only: masks not_less word_le_def)
    then show ?thesis using False by (simp add: NewIDGenerator_def mask_eq_exp_minus_1)
  qed
  then show ?thesis
    by (simp add: gen_ok_def NewIDGenerator_def masks snowflakeNodeBits_def snowflakeSequenceBits_def)
qed

definition later :: "IDGenerator \<Rightarrow> IDGenerator \<Rightarrow> bool" where
  "later g g' \<longleftrightarrow> lastMs g < lastMs g' \<or> lastMs g = lastMs g' \<and> uint (sequence g) < uint (sequence g')"

lemma waitPast_after:
  "waitPast clock limit nowMs k = Some (t, j) \<Longrightarrow> limit < t \<and> (t = nowMs \<or> (\<exists>m. t = clock m))"
proof -
  assume "waitPast clock limit nowMs k = Some (t, j)"
  then have "limit < fst (t, j) \<and> (fst (t, j) = nowMs \<or> (\<exists>m. fst (t, j) = clock m))"
    by (rule waitPast.raw_induct [rotated]) (fastforce split: if_splits)
  then show ?thesis by simp
qed

lemma next_seq:
  assumes "uint s < 2 ^ 12" and "(s + 1) AND mask 12 \<noteq> 0"
  shows "uint ((s + 1) AND mask 12 :: 16 word) = uint s + 1"
proof -
  have "uint (s + 1) = uint s + 1"
    using assms(1) by (simp add: uint_plus_simple_iff word_le_def uint_word_ariths)
  then have "uint ((s + 1) AND mask 12) = (uint s + 1) mod 2 ^ 12"
    unfolding take_bit_eq_mask [symmetric] unsigned_take_bit_eq by (simp add: take_bit_eq_mod)
  moreover have "uint s + 1 \<noteq> 2 ^ 12"
  proof
    assume "uint s + 1 = 2 ^ 12"
    with calculation have "uint ((s + 1) AND mask 12) = 0" by simp
    with assms(2) show False by (metis unsigned_eq_0_iff)
  qed
  ultimately show ?thesis using assms(1) by simp
qed

text \<open>A clock between 1970 and the year 2163, when the time field of an identifier overflows.\<close>

definition ms_ok :: "int \<Rightarrow> bool" where
  "ms_ok t \<longleftrightarrow> 0 \<le> t \<and> t < snowflakeEpochMs + 2 ^ 42"

definition clock_ok :: "(nat \<Rightarrow> int) \<Rightarrow> bool" where
  "clock_ok clock \<longleftrightarrow> (\<forall>k. ms_ok (clock k))"

lemma gen_ok_fields [simp]:
  "gen_ok (g\<lparr>reads := k\<rparr>) = gen_ok g" "gen_ok (g\<lparr>lastMs := t\<rparr>) = gen_ok g"
  by (simp_all add: gen_ok_def)

lemma wrap64_id: "- (2 ^ 63) \<le> x \<Longrightarrow> x < 2 ^ 63 \<Longrightarrow> wrap64 x = x"
  by (simp add: wrap64_def mod_pos_pos_trivial)

lemma advance_later:
  assumes ok: "gen_ok g" and le: "lastMs g \<le> nowMs" and adv: "advance clock nowMs g = Some (t, g1)"
    and rng: "clock_ok clock" "ms_ok nowMs"
  shows "gen_ok g1 \<and> nodeID g1 = nodeID g \<and> later g (g1\<lparr>lastMs := t\<rparr>) \<and> ms_ok t"
proof (cases "nowMs = lastMs g")
  case False
  then have "t = nowMs" "g1 = g\<lparr>sequence := 0\<rparr>" using adv by (simp_all add: advance_def)
  then show ?thesis using ok le False rng by (simp add: gen_ok_def later_def)
next
  case True
  let ?s = "(sequence g + 1) AND mask 12"
  let ?g = "g\<lparr>sequence := ?s\<rparr>"
  have m: "seqMask g = mask 12" and sq: "uint (sequence g) < 2 ^ 12" using ok by (simp_all add: gen_ok_def)
  have okg: "gen_ok ?g" using ok and_mask_less [of "sequence g + 1" 12] by (simp add: gen_ok_def)
  show ?thesis
  proof (cases "?s = 0")
    case False
    then have "t = nowMs" "g1 = ?g" using adv True m by (simp_all add: advance_def Let_def)
    then show ?thesis using okg rng next_seq [OF sq False] True by (simp add: later_def)
  next
    case z: True
    then obtain k where w: "waitPast clock (lastMs g) nowMs (reads g) = Some (t, k)" "g1 = ?g\<lparr>reads := k\<rparr>"
      using adv True m by (auto simp: advance_def Let_def split: option.splits)
    from waitPast_after [OF w(1)] rng okg w(2) show ?thesis by (auto simp: later_def clock_ok_def)
  qed
qed

lemma compose_value:
  assumes ok: "gen_ok g" and rng: "ms_ok t" and c: "compose t g = Inr i"
  shows "snowflakeEpochMs \<le> t \<and> uint i = idval (t - snowflakeEpochMs) (nodeID g) (sequence g)"
proof -
  have "wrap64 (t - snowflakeEpochMs) = t - snowflakeEpochMs"
    using rng by (intro wrap64_id) (simp_all add: ms_ok_def snowflakeEpochMs_def)
  then have "snowflakeEpochMs \<le> t" "i = push_bit 22 (word_of_int (t - snowflakeEpochMs))
      OR push_bit 12 (ucast (nodeID g)) OR ucast (sequence g)"
    using c ok by (auto simp: compose_def gen_ok_def Let_def split: if_splits)
  with layout [of "t - snowflakeEpochMs" "nodeID g" "sequence g"] ok rng show ?thesis
    by (simp add: gen_ok_def ms_ok_def)
qed

lemma Next_from_later:
  assumes ok: "gen_ok g" and le: "lastMs g \<le> nowMs" and n: "Next_from clock nowMs g = Some (r, g')"
    and rng: "clock_ok clock" "ms_ok nowMs"
  shows "gen_ok g' \<and> nodeID g' = nodeID g \<and> later g g' \<and> ms_ok (lastMs g')"
    "r = Inr i \<Longrightarrow> snowflakeEpochMs \<le> lastMs g'
       \<and> uint i = idval (lastMs g' - snowflakeEpochMs) (nodeID g') (sequence g')"
proof -
  obtain t g1 where a: "advance clock nowMs g = Some (t, g1)" "r = compose t g1" "g' = g1\<lparr>lastMs := t\<rparr>"
    using n by (auto simp: Next_from_def split: option.splits)
  note l = advance_later [OF ok le a(1) rng]
  show "gen_ok g' \<and> nodeID g' = nodeID g \<and> later g g' \<and> ms_ok (lastMs g')" using l a(3) by simp
  show "snowflakeEpochMs \<le> lastMs g' \<and> uint i = idval (lastMs g' - snowflakeEpochMs) (nodeID g') (sequence g')"
    if "r = Inr i" using compose_value [of g1 t i] l a(2,3) that by simp
qed

lemma Next_later:
  assumes ok: "gen_ok g" "ms_ok (lastMs g)" and n: "Next clock (Some g) = Some (r, og)" and rng: "clock_ok clock"
  shows "\<exists>g'. og = Some g' \<and> gen_ok g' \<and> nodeID g' = nodeID g \<and> ms_ok (lastMs g')
    \<and> (later g g' \<or> lastMs g' = lastMs g \<and> sequence g' = sequence g)
    \<and> (\<forall>i. r = Inr i \<longrightarrow> later g g' \<and> snowflakeEpochMs \<le> lastMs g'
         \<and> uint i = idval (lastMs g' - snowflakeEpochMs) (nodeID g') (sequence g'))"
proof -
  let ?g1 = "g\<lparr>reads := Suc (reads g)\<rparr>"
  let ?g2 = "g\<lparr>reads := Suc (Suc (reads g))\<rparr>"
  let ?t = "clock (reads g)" and ?t2 = "clock (Suc (reads g))"
  let ?lag = "wrap64 (wrap64 (lastMs g - ?t) * millisecond)"
  have t: "ms_ok ?t" "ms_ok ?t2" using rng by (simp_all add: clock_ok_def)
  consider "?t < lastMs g" "?lag > maxBack g"
    | k nowMs where "lastMs g \<le> nowMs" "ms_ok nowMs" "map_option (map_prod id Some) (Next_from clock nowMs (g\<lparr>reads := k\<rparr>)) = Some (r, og)"
    using n t ok(2) by (auto simp: Next_def readClock_def Let_def not_less split: if_splits)
  then show ?thesis
  proof cases
    case 1
    then have "og = Some ?g1" "\<exists>b. r = Inl b" using n by (auto simp: Next_def readClock_def Let_def)
    then show ?thesis using ok by auto
  next
    case 2
    then obtain g' where g': "Next_from clock nowMs (g\<lparr>reads := k\<rparr>) = Some (r, g')" "og = Some g'" by auto
    have le: "lastMs (g\<lparr>reads := k\<rparr>) \<le> nowMs" using 2(1) by simp
    note F = Next_from_later [OF _ le g'(1) rng 2(2)]
    have lt: "later (g\<lparr>reads := k\<rparr>) g' = later g g'" by (simp add: later_def)
    show ?thesis using F(1) F(2) ok(1) g'(2) unfolding lt by auto
  qed
qed

lemma NextN_increasing:
  "gen_ok g \<Longrightarrow> ms_ok (lastMs g) \<Longrightarrow> clock_ok clock \<Longrightarrow> NextN clock n g = Some (ids, g') \<Longrightarrow>
     sorted_wrt (<) ids \<and> gen_ok g' \<and> nodeID g' = nodeID g
     \<and> (\<forall>i \<in> set ids. idval (lastMs g - snowflakeEpochMs) (nodeID g) (sequence g) < uint i \<and> id_node i = uint (nodeID g))"
proof (induction n arbitrary: g ids)
  case 0
  then show ?case by simp
next
  case (Suc n)
  obtain r g1 rest where c: "Next clock (Some g) = Some (r, Some g1)" "NextN clock n g1 = Some (rest, g')"
    "ids = (case r of Inl _ \<Rightarrow> rest | Inr i \<Rightarrow> i # rest)"
    using Suc.prems(4) by (auto split: option.splits)
  note L = Next_later [OF Suc.prems(1,2) c(1) Suc.prems(3)]
  have ok1: "gen_ok g1" "ms_ok (lastMs g1)" "nodeID g1 = nodeID g"
    and mv: "later g g1 \<or> lastMs g1 = lastMs g \<and> sequence g1 = sequence g"
    and new: "\<And>i. r = Inr i \<Longrightarrow> later g g1 \<and> snowflakeEpochMs \<le> lastMs g1
         \<and> uint i = idval (lastMs g1 - snowflakeEpochMs) (nodeID g1) (sequence g1)"
    using L by auto
  note IH = Suc.IH [OF ok1(1,2) Suc.prems(3) c(2)]
  have bnd: "uint (nodeID g) < 2 ^ 10" "uint (sequence g) < 2 ^ 12" "uint (sequence g1) < 2 ^ 12"
    using Suc.prems(1) ok1(1) by (simp_all add: gen_ok_def)
  have up: "idval (lastMs g - snowflakeEpochMs) (nodeID g) (sequence g)
      < idval (lastMs g1 - snowflakeEpochMs) (nodeID g) (sequence g1)" if "later g g1"
    using that bnd by (intro idval_less) (auto simp: later_def)
  show ?case
  proof (cases r)
    case (Inl e)
    then show ?thesis using IH c(3) mv up ok1(3) by force
  next
    case (Inr i)
    note N = new [OF Inr]
    have "id_node i = uint (nodeID g)"
      using layout_fields(2) [of i "lastMs g1 - snowflakeEpochMs" "nodeID g1" "sequence g1"] N bnd ok1(3) by simp
    moreover have "i < j" if "j \<in> set rest" for j using IH N that ok1(3) by (simp add: word_less_def)
    ultimately show ?thesis using IH c(3) Inr N up ok1(3) by force
  qed
qed


lemma masks_num: "snowflakeMaxNodeID = 1023" "snowflakeMaxSequence = 4095"
  by (simp_all add: snowflakeMaxNodeID_def snowflakeMaxSequence_def snowflakeNodeBits_def
      snowflakeSequenceBits_def push_bit_eq_mult)

definition demo_clock :: "nat \<Rightarrow> int" where
  "demo_clock k = snowflakeEpochMs + (if k = 0 then 9 else if k = 1 then 9 else if k = 2 then 7 else if k = 3 then 8 else 9)"


section \<open>Progress and node numbers\<close>

lemma waitPast_returns: "k \<le> j \<Longrightarrow> limit < clock j \<Longrightarrow> \<exists>y. waitPast clock limit nowMs k = Some y"
proof (induction "j - k" arbitrary: k nowMs)
  case 0
  then have "k = j" by simp
  with 0 show ?case
    by (cases "nowMs \<le> limit") (simp_all add: waitPast.simps [of clock limit nowMs] waitPast.simps [of clock limit "clock j"])
next
  case (Suc n)
  then have "n = j - Suc k" "Suc k \<le> j" by simp_all
  from Suc.hyps(1) [OF this, of "clock k"] Suc.prems(2) show ?case
    by (simp add: waitPast.simps [of clock limit nowMs])
qed

lemma Next_from_returns: "reads g \<le> j \<Longrightarrow> lastMs g < clock j \<Longrightarrow> \<exists>y. Next_from clock nowMs g = Some y"
  using waitPast_returns [of "reads g" j "lastMs g" clock nowMs]
  by (auto simp: Next_from_def advance_def Let_def)

text \<open>
  \<open>Next\<close> returns whenever the clock passes the time of the last identifier at some later reading,
  also when the 4096 identifiers of a millisecond are used up, and on a nil generator.
\<close>

theorem next_returns:
  assumes "reads g + 2 \<le> j" and "lastMs g < clock j"
  shows "(\<exists>r g'. Next clock (Some g) = Some (r, Some g')) \<and> Next clock None = Some (Inl ErrNilGenerator, None)"
proof -
  have "\<exists>y. Next_from clock t (g\<lparr>reads := k\<rparr>) = Some y" if "k \<le> reads g + 2" for t k
    using Next_from_returns [of "g\<lparr>reads := k\<rparr>" j clock t] assms that by simp
  from this [of "Suc (reads g)"] this [of "Suc (Suc (reads g))"] show ?thesis
    by (fastforce simp: Next_def readClock_def Let_def)
qed

text \<open>A generator that has used up a millisecond, and a clock that stands still for some readings.\<close>

definition full_generator :: IDGenerator where
  "full_generator = (NewIDGenerator 5)\<lparr>lastMs := snowflakeEpochMs, sequence := 4095\<rparr>"

definition slow_clock :: "nat \<Rightarrow> int" where
  "slow_clock k = snowflakeEpochMs + (if k < 4 then 0 else 1)"

theorem next_returns_witness:
  "\<exists>r g'. Next slow_clock (Some full_generator) = Some (r, Some g')"
  using next_returns [of full_generator 4 slow_clock]
  by (simp add: full_generator_def slow_clock_def NewIDGenerator_def)

lemma uint_ucast_le: "uint (ucast (y :: 32 word) :: 16 word) \<le> uint y"
proof -
  have "uint (ucast y :: 16 word) = take_bit 16 (uint y)" by (simp add: unsigned_ucast_eq)
  also have "\<dots> \<le> uint y" by (rule take_bit_int_less_eq_self_iff [THEN iffD2]) simp
  finally show ?thesis .
qed

lemma and_mask_less32: "uint (x AND mask k :: 32 word) < 2 ^ k"
proof -
  have "uint (take_bit k x) = take_bit k (uint x)" by (simp add: unsigned_take_bit_eq)
  then show ?thesis using take_bit_int_less_exp [of k "uint x"] by (simp add: take_bit_eq_mask [symmetric])
qed

lemma node_name_in_range: "uint (NodeNameToSnowflakeNodeID name) < 2 ^ 10"
proof -
  have m: "(ucast snowflakeMaxNodeID :: 32 word) = mask 10"
    by (simp add: masks_num mask_eq_exp_minus_1)
  show ?thesis
    unfolding NodeNameToSnowflakeNodeID_def Let_def m
    by (rule order.strict_trans1 [OF uint_ucast_le and_mask_less32])
qed

text \<open>A generator made from a node name keeps the whole hash: its node number is the name's.\<close>

lemma node_name_kept: "nodeID (NewIDGeneratorFromNodeName name) = NodeNameToSnowflakeNodeID name"
proof -
  have "\<not> NodeNameToSnowflakeNodeID name > snowflakeMaxNodeID"
    using node_name_in_range [of name] by (simp add: masks_num word_less_def)
  then show ?thesis by (simp add: NewIDGeneratorFromNodeName_def NewIDGenerator_def)
qed

end
