(* ===== verification/Timer_Engine.thy ===== *)
theory Timer_Engine
  imports Timer_Delay Timer_Ids
begin

text \<open>
  The timer engine of \<open>timer/engine/engine.go\<close>: an in-memory hot zone (a delay queue and two maps) in
  front of a persistent queue.  The \<open>Queue\<close> interface is implemented outside the package, so its
  operations are a record of functions over a store of any type; the accessor functions are a record too,
  and the fire handler and the submit function appear as the calls they receive.  Each operation is one
  step; the goroutines that the engine and the delay queue launch (\<open>onDelayTimerFire\<close> and \<open>doFire\<close>)
  wait in \<open>e_fires\<close> and \<open>e_pending\<close> and are steps of their own.  Due times are milliseconds, instants
  nanoseconds.
\<close>

section \<open>The engine\<close>

text \<open>The persistence contract, with an error as a string and the store threaded through.\<close>

record ('t, 'q) QueueOps =
  q_Add :: "'t \<Rightarrow> 'q \<Rightarrow> string option \<times> 'q"
  q_Remove :: "nat \<Rightarrow> int \<Rightarrow> 'q \<Rightarrow> string option \<times> 'q"
  q_LoadAllInWindow :: "int \<Rightarrow> 'q \<Rightarrow> (string + 't list) \<times> 'q"
  q_Claim :: "nat \<Rightarrow> nat \<Rightarrow> string \<Rightarrow> int \<Rightarrow> 'q \<Rightarrow> (string + bool) \<times> 'q"
  q_Complete :: "nat \<Rightarrow> nat \<Rightarrow> string \<Rightarrow> 'q \<Rightarrow> (string + bool) \<times> 'q"
  q_RequeueExpired :: "int \<Rightarrow> 'q \<Rightarrow> (string + nat) \<times> 'q"

record 't Accessor =
  a_TaskID :: "'t \<Rightarrow> int"
  a_TimerID :: "'t \<Rightarrow> nat"
  a_DueTimeMs :: "'t \<Rightarrow> int"
  a_UID :: "'t \<Rightarrow> nat"

definition e_second :: int where "e_second = 1000 * millisecond"

definition defaultHotWindow :: int where "defaultHotWindow = 30 * 60 * e_second"

definition defaultProcessingLease :: int where "defaultProcessingLease = 10 * e_second"

text \<open>\<open>e_submit\<close> is the function given to \<open>SetFireSubmit\<close>: whether it accepts a record.\<close>

record ('t, 'q) Engine =
  e_hotWindow :: int
  e_idGen :: IDGenerator
  e_inMem :: "nat \<rightharpoonup> 't"
  e_byTask :: "int \<rightharpoonup> nat"
  e_queue :: "('t, 'q) QueueOps option"
  e_store :: 'q
  e_accessor :: "'t Accessor"
  e_owner :: string
  e_processingLease :: int
  e_delayQ :: DelayQueue
  e_stopCh :: bool
  e_stopOnce :: bool
  e_loops :: nat
  e_submit :: "(nat \<Rightarrow> 't \<Rightarrow> nat \<Rightarrow> bool) option"
  e_fires :: "nat list"
  e_pending :: "(nat \<times> 't \<times> nat) list"
  e_submitted :: "(nat \<times> 't) list"
  e_handled :: "'t list"

definition NewEngine ::
  "('t, 'q) QueueOps option \<Rightarrow> 'q \<Rightarrow> string \<Rightarrow> int \<Rightarrow> int \<Rightarrow> IDGenerator option \<Rightarrow> 't Accessor \<Rightarrow> ('t, 'q) Engine"
where
  "NewEngine queue store owner processingLease hotWindow idGen accessor =
     \<lparr>e_hotWindow = (if hotWindow \<le> 0 then defaultHotWindow else hotWindow),
      e_idGen = (case idGen of None \<Rightarrow> NewIDGenerator 0 | Some g \<Rightarrow> g),
      e_inMem = Map.empty, e_byTask = Map.empty, e_queue = queue, e_store = store,
      e_accessor = accessor, e_owner = owner,
      e_processingLease = (if processingLease \<le> 0 then defaultProcessingLease else processingLease),
      e_delayQ = NewDelayQueue True [], e_stopCh = False, e_stopOnce = False, e_loops = 0,
      e_submit = None, e_fires = [], e_pending = [], e_submitted = [], e_handled = []\<rparr>"

definition EngineStart :: "('t, 'q) Engine \<Rightarrow> ('t, 'q) Engine" where
  "EngineStart e =
     (let e = e\<lparr>e_delayQ := DelayStart (e_delayQ e)\<rparr>
      in case e_queue e of None \<Rightarrow> e | Some q \<Rightarrow> e\<lparr>e_loops := Suc (e_loops e)\<rparr>)"

definition EngineStop :: "('t, 'q) Engine \<Rightarrow> ('t, 'q) Engine" where
  "EngineStop e =
     (if e_stopOnce e then e
      else e\<lparr>e_stopOnce := True, e_stopCh := True, e_delayQ := DelayStop (e_delayQ e)\<rparr>)"

definition SetFireSubmit :: "(nat \<Rightarrow> 't \<Rightarrow> nat \<Rightarrow> bool) option \<Rightarrow> ('t, 'q) Engine \<Rightarrow> ('t, 'q) Engine" where
  "SetFireSubmit submit e = e\<lparr>e_submit := submit\<rparr>"

definition EngineSetDedupWindow :: "int \<Rightarrow> ('t, 'q) Engine \<Rightarrow> ('t, 'q) Engine" where
  "EngineSetDedupWindow d e = e\<lparr>e_delayQ := SetDedupWindow d (e_delayQ e)\<rparr>"

text \<open>A missing entry of a Go map of numbers reads as 0.\<close>

definition timerOf :: "('t, 'q) Engine \<Rightarrow> int \<Rightarrow> nat" where
  "timerOf e taskID = (case e_byTask e taskID of None \<Rightarrow> 0 | Some t \<Rightarrow> t)"

definition EnsureTimerID ::
  "(nat \<Rightarrow> int) \<Rightarrow> int \<Rightarrow> ('t, 'q) Engine \<Rightarrow> ((id_error + nat) \<times> ('t, 'q) Engine) option"
where
  "EnsureTimerID clock taskID e =
     (if timerOf e taskID \<noteq> 0 then Some (Inr (timerOf e taskID), e)
      else case Next clock (Some (e_idGen e)) of
             Some (r, Some g) \<Rightarrow> Some (map_sum id unat r, e\<lparr>e_idGen := g\<rparr>)
           | _ \<Rightarrow> None)"

definition unixMilli :: "int \<Rightarrow> int" where
  "unixMilli ms = ms * millisecond"

definition inHotWindow :: "int \<Rightarrow> int \<Rightarrow> ('t, 'q) Engine \<Rightarrow> bool" where
  "inHotWindow now dueMs e \<longleftrightarrow>
     (case e_queue e of None \<Rightarrow> True | Some q \<Rightarrow> unixMilli dueMs - now \<le> e_hotWindow e)"

text \<open>The write to the persistent queue, when there is one.\<close>

definition persist :: "'t \<Rightarrow> ('t, 'q) Engine \<Rightarrow> string option \<times> ('t, 'q) Engine" where
  "persist task e =
     (case e_queue e of
        None \<Rightarrow> (None, e)
      | Some q \<Rightarrow> let (err, st) = q_Add q task (e_store e) in (err, e\<lparr>e_store := st\<rparr>))"

definition EngineAdd :: "int \<Rightarrow> 't \<Rightarrow> ('t, 'q) Engine \<Rightarrow> string option \<times> ('t, 'q) Engine" where
  "EngineAdd now task e =
     (let timerID = a_TimerID (e_accessor e) task;
          taskID = a_TaskID (e_accessor e) task;
          dueMs = a_DueTimeMs (e_accessor e) task;
          (err, e) = persist task e
      in if err \<noteq> None then (err, e)
         else if inHotWindow now dueMs e
         then (None, e\<lparr>e_inMem := (e_inMem e)(timerID \<mapsto> task), e_byTask := (e_byTask e)(taskID \<mapsto> timerID),
                       e_delayQ := DelayAdd timerID (unixMilli dueMs) (e_delayQ e)\<rparr>)
         else (None, e\<lparr>e_byTask := (e_byTask e)(taskID \<mapsto> timerID)\<rparr>))"

definition forgetTask :: "int \<Rightarrow> ('t, 'q) Engine \<Rightarrow> nat \<times> ('t, 'q) Engine" where
  "forgetTask taskID e =
     (let timerID = timerOf e taskID;
          e = e\<lparr>e_byTask := (e_byTask e)(taskID := None)\<rparr>
      in (timerID, if timerID \<noteq> 0 then e\<lparr>e_inMem := (e_inMem e)(timerID := None)\<rparr> else e))"

definition Cancel :: "nat \<Rightarrow> int \<Rightarrow> ('t, 'q) Engine \<Rightarrow> string option \<times> ('t, 'q) Engine" where
  "Cancel uid taskID e =
     (let (timerID, e) = forgetTask taskID e;
          e = (if timerID \<noteq> 0 then e\<lparr>e_delayQ := DelayRemove timerID (e_delayQ e)\<rparr> else e)
      in case e_queue e of
           None \<Rightarrow> (None, e)
         | Some q \<Rightarrow> let (err, st) = q_Remove q uid taskID (e_store e) in (err, e\<lparr>e_store := st\<rparr>))"

definition Forget :: "int \<Rightarrow> ('t, 'q) Engine \<Rightarrow> ('t, 'q) Engine" where
  "Forget taskID e = snd (forgetTask taskID e)"

definition EngineReschedule :: "int \<Rightarrow> 't \<Rightarrow> ('t, 'q) Engine \<Rightarrow> string option \<times> ('t, 'q) Engine" where
  "EngineReschedule now task e =
     (let timerID = a_TimerID (e_accessor e) task;
          taskID = a_TaskID (e_accessor e) task;
          dueMs = a_DueTimeMs (e_accessor e) task;
          (err, e) = persist task e
      in if err \<noteq> None then (err, e)
         else if inHotWindow now dueMs e
         then (None, e\<lparr>e_inMem := (e_inMem e)(timerID \<mapsto> task), e_byTask := (e_byTask e)(taskID \<mapsto> timerID),
                       e_delayQ := DelayReschedule timerID (unixMilli dueMs) (e_delayQ e)\<rparr>)
         else (None, e\<lparr>e_delayQ := DelayRemove timerID (e_delayQ e), e_inMem := (e_inMem e)(timerID := None),
                       e_byTask := (e_byTask e)(taskID \<mapsto> timerID)\<rparr>))"

definition onDelayTimerFire :: "nat \<Rightarrow> ('t, 'q) Engine \<Rightarrow> ('t, 'q) Engine" where
  "onDelayTimerFire timerID e =
     (case e_inMem e timerID of
        None \<Rightarrow> e
      | Some task \<Rightarrow>
          let taskID = a_TaskID (e_accessor e) task;
              uid = a_UID (e_accessor e) task;
              e = e\<lparr>e_inMem := (e_inMem e)(timerID := None), e_byTask := (e_byTask e)(taskID := None)\<rparr>
          in case e_submit e of
               Some submit \<Rightarrow>
                 if submit timerID task uid then e\<lparr>e_submitted := e_submitted e @ [(timerID, task)]\<rparr> else e
             | None \<Rightarrow> e\<lparr>e_pending := e_pending e @ [(timerID, task, uid)]\<rparr>)"

text \<open>\<open>ModeClaimProcess\<close> is the only mode of the source.\<close>

definition doFire :: "nat \<Rightarrow> 't \<Rightarrow> nat \<Rightarrow> ('t, 'q) Engine \<Rightarrow> ('t, 'q) Engine" where
  "doFire timerID task uid e =
     (case e_queue e of
        None \<Rightarrow> e\<lparr>e_handled := e_handled e @ [task]\<rparr>
      | Some q \<Rightarrow>
          let (claimed, st) = q_Claim q uid timerID (e_owner e) (e_processingLease e) (e_store e);
              e = e\<lparr>e_store := st\<rparr>
          in case claimed of
               Inl err \<Rightarrow> e
             | Inr False \<Rightarrow> e
             | Inr True \<Rightarrow>
                 let e = e\<lparr>e_handled := e_handled e @ [task]\<rparr>;
                     (res, st) = q_Complete q uid timerID (e_owner e) (e_store e)
                 in e\<lparr>e_store := st\<rparr>)"

definition HandleSubmittedFire :: "nat \<Rightarrow> 't \<Rightarrow> nat \<Rightarrow> ('t, 'q) Engine \<Rightarrow> ('t, 'q) Engine" where
  "HandleSubmittedFire timerID task uid e = doFire timerID task uid e"

definition promotionInterval :: "('t, 'q) Engine \<Rightarrow> int" where
  "promotionInterval e =
     (let interval = go_div (e_hotWindow e) 10;
          interval = (if interval < 30 * e_second then 30 * e_second else interval)
      in if interval > 60 * e_second then 60 * e_second else interval)"

text \<open>The body of the loop of \<open>promoteRecords\<close>, with the count of promoted records.\<close>

definition promoteRecord :: "int \<Rightarrow> 't \<Rightarrow> nat \<times> ('t, 'q) Engine \<Rightarrow> nat \<times> ('t, 'q) Engine" where
  "promoteRecord now rec = (\<lambda>(promoted, e).
     let timerID = a_TimerID (e_accessor e) rec;
         taskID = a_TaskID (e_accessor e) rec;
         dueMs = a_DueTimeMs (e_accessor e) rec
     in if timerID = 0 then (promoted, e)
        else if e_byTask e taskID \<noteq> None then (promoted, e)
        else let e = e\<lparr>e_inMem := (e_inMem e)(timerID \<mapsto> rec), e_byTask := (e_byTask e)(taskID \<mapsto> timerID)\<rparr>
             in (promoted + 1,
                 if unixMilli dueMs < now then e\<lparr>e_fires := e_fires e @ [timerID]\<rparr>
                 else e\<lparr>e_delayQ := DelayAdd timerID (unixMilli dueMs) (e_delayQ e)\<rparr>))"

definition promoteRecords :: "int \<Rightarrow> 't list \<Rightarrow> ('t, 'q) Engine \<Rightarrow> nat \<times> ('t, 'q) Engine" where
  "promoteRecords now records e = fold (promoteRecord now) records (0, e)"

definition RestoreHotZone :: "int \<Rightarrow> ('t, 'q) Engine \<Rightarrow> string option \<times> ('t, 'q) Engine" where
  "RestoreHotZone now e =
     (case e_queue e of
        None \<Rightarrow> (None, e)
      | Some q \<Rightarrow>
          let (r, st) = q_LoadAllInWindow q (e_hotWindow e) (e_store e);
              e = e\<lparr>e_store := st\<rparr>
          in case r of
               Inl err \<Rightarrow> (Some (''engine: load hot zone: '' @ err), e)
             | Inr records \<Rightarrow> (None, snd (promoteRecords now records e)))"

text \<open>\<open>now\<close> is the clock read for the requeue, \<open>now'\<close> the one read by \<open>promoteRecords\<close>.\<close>

definition promoteFromRedis :: "int \<Rightarrow> int \<Rightarrow> ('t, 'q) Engine \<Rightarrow> ('t, 'q) Engine" where
  "promoteFromRedis now now' e =
     (case e_queue e of
        None \<Rightarrow> e
      | Some q \<Rightarrow>
          let e = e\<lparr>e_store := snd (q_RequeueExpired q now (e_store e))\<rparr>;
              (r, st) = q_LoadAllInWindow q (e_hotWindow e) (e_store e);
              e = e\<lparr>e_store := st\<rparr>
          in case r of
               Inl err \<Rightarrow> e
             | Inr records \<Rightarrow> snd (promoteRecords now' records e))"

section \<open>Histories\<close>

text \<open>
  The steps of an engine: calls of its clients, ticks of the delay queue, rounds of the promotion loop,
  and the goroutines that were launched, which run in any order.
\<close>

datatype 't engine_ev =
    CallAdd int 't
  | CallReschedule int 't
  | CallCancel nat int
  | CallForget int
  | CallRestore int
  | CallSubmitted nat 't nat
  | Tick int
  | RunFire nat
  | RunDoFire "nat \<times> 't \<times> nat"
  | RunPromotion int int

definition engine_tick :: "int \<Rightarrow> ('t, 'q) Engine \<Rightarrow> ('t, 'q) Engine" where
  "engine_tick now e =
     (let r = checkExpired now (e_delayQ e)
      in e\<lparr>e_delayQ := snd r, e_fires := e_fires e @ fst r\<rparr>)"

fun engine_step :: "'t engine_ev \<Rightarrow> ('t, 'q) Engine \<Rightarrow> ('t, 'q) Engine" where
  "engine_step (CallAdd now task) e = snd (EngineAdd now task e)"
| "engine_step (CallReschedule now task) e = snd (EngineReschedule now task e)"
| "engine_step (CallCancel uid taskID) e = snd (Cancel uid taskID e)"
| "engine_step (CallForget taskID) e = Forget taskID e"
| "engine_step (CallRestore now) e = snd (RestoreHotZone now e)"
| "engine_step (CallSubmitted timerID task uid) e =
     (if (timerID, task) \<in> set (e_submitted e) then HandleSubmittedFire timerID task uid e else e)"
| "engine_step (Tick now) e = engine_tick now e"
| "engine_step (RunFire timerID) e =
     (if timerID \<in> set (e_fires e)
      then onDelayTimerFire timerID (e\<lparr>e_fires := remove1 timerID (e_fires e)\<rparr>) else e)"
| "engine_step (RunDoFire p) e =
     (if p \<in> set (e_pending e)
      then case p of (timerID, task, uid) \<Rightarrow> doFire timerID task uid (e\<lparr>e_pending := remove1 p (e_pending e)\<rparr>)
      else e)"
| "engine_step (RunPromotion now now') e = promoteFromRedis now now' e"

section \<open>No registered timer is lost\<close>

text \<open>
  Every task of the hot zone is in the delay queue at its due time, or a goroutine that will fire it has
  been launched.
\<close>

definition hot_ok :: "('t, 'q) Engine \<Rightarrow> bool" where
  "hot_ok e \<longleftrightarrow> dq_ok (e_delayQ e) \<and> dq_callback (e_delayQ e) \<and> dq_dedupWindow (e_delayQ e) \<le> 0
     \<and> (\<forall>t task. e_inMem e t = Some task \<longrightarrow> t \<in> set (e_fires e)
          \<or> dq_deadline (e_delayQ e) t = Some (unixMilli (a_DueTimeMs (e_accessor e) task)))"

lemma hot_okD:
  assumes "hot_ok e"
  shows "dq_ok (e_delayQ e)" "dq_callback (e_delayQ e)" "dq_dedupWindow (e_delayQ e) \<le> 0"
    "e_inMem e t = Some task \<Longrightarrow> t \<in> set (e_fires e)
       \<or> dq_deadline (e_delayQ e) t = Some (unixMilli (a_DueTimeMs (e_accessor e) task))"
  using assms by (simp_all add: hot_ok_def)

lemma hot_ok_frame [simp]:
  "hot_ok (e\<lparr>e_store := st\<rparr>) = hot_ok e" "hot_ok (e\<lparr>e_byTask := b\<rparr>) = hot_ok e"
  "hot_ok (e\<lparr>e_pending := p\<rparr>) = hot_ok e" "hot_ok (e\<lparr>e_handled := h\<rparr>) = hot_ok e"
  "hot_ok (e\<lparr>e_submitted := s\<rparr>) = hot_ok e"
  by (simp_all add: hot_ok_def)

lemma dq_ops_ok:
  assumes "dq_ok dq"
  shows "dq_ok (DelayAdd t d dq)" "dq_ok (DelayReschedule t d dq)" "dq_ok (DelayRemove t dq)"
    "dq_deadline (DelayAdd t d dq) = (dq_deadline dq)(t \<mapsto> d)"
    "dq_deadline (DelayReschedule t d dq) = (dq_deadline dq)(t \<mapsto> d)"
    "dq_deadline (DelayRemove t dq) = (dq_deadline dq)(t := None)"
  using assms by (simp_all add: dq.ok_ops dq.deadline_ops)

lemma dq_resched_keeps [simp]:
  "dq_callback (DelayReschedule t d dq) = dq_callback dq" "dq_dedupWindow (DelayReschedule t d dq) = dq_dedupWindow dq"
  by (simp_all add: reschedule_eq_add)

lemma hot_insert:
  assumes ok: "hot_ok e" and dq: "dq = DelayAdd t (unixMilli d) (e_delayQ e) \<or> dq = DelayReschedule t (unixMilli d) (e_delayQ e)"
    and d: "d = a_DueTimeMs (e_accessor e) task"
  shows "hot_ok (e\<lparr>e_inMem := (e_inMem e)(t \<mapsto> task), e_byTask := b, e_delayQ := dq\<rparr>)"
  using dq hot_okD(1-3) [OF ok] unfolding hot_ok_def d by (auto simp: dq_ops_ok dest: hot_okD(4) [OF ok])

lemma hot_delete:
  assumes ok: "hot_ok e"
  shows "hot_ok (e\<lparr>e_inMem := (e_inMem e)(t := None)\<rparr>)"
    "e_inMem e t = None \<Longrightarrow> hot_ok (e\<lparr>e_delayQ := DelayRemove t (e_delayQ e)\<rparr>)"
  using hot_okD(1-3) [OF ok] unfolding hot_ok_def by (auto simp: dq_ops_ok dest: hot_okD(4) [OF ok])

lemma hot_fire_pending:
  assumes ok: "hot_ok e"
  shows "hot_ok (e\<lparr>e_inMem := (e_inMem e)(t \<mapsto> task), e_byTask := b, e_fires := e_fires e @ [t]\<rparr>)"
  using hot_okD(1-3) [OF ok] unfolding hot_ok_def by (auto dest: hot_okD(4) [OF ok])

lemma hot_tick:
  assumes ok: "hot_ok e"
  shows "hot_ok (engine_tick now e)"
proof -
  note D = hot_okD [OF ok]
  let ?dq = "e_delayQ e"
  note L = loop_fires [OF D(1,2), of now] and S = loop_state [OF D(1), of now]
  have keep: "dq_ok (snd (checkExpired now ?dq))" "dq_callback (snd (checkExpired now ?dq))"
    "dq_dedupWindow (snd (checkExpired now ?dq)) \<le> 0"
    "dq_deadline (snd (checkExpired now ?dq)) = spec_step (TickOp now) (dq_deadline ?dq)"
    using S D(2,3) by (simp_all add: snd_checkExpired)
  have fired: "t \<in> set (fst (checkExpired now ?dq))" if "dq_deadline ?dq t = Some d" "d \<le> now" for t d
    using L that D(3) by (simp add: fst_checkExpired suppressed_def)
  show ?thesis
    using keep(1-3) unfolding hot_ok_def engine_tick_def Let_def
    by (auto simp: keep(4) dest!: D(4) intro: fired split: if_splits)
qed

lemma hot_fire:
  assumes ok: "hot_ok e"
  shows "hot_ok (onDelayTimerFire t (e\<lparr>e_fires := remove1 t (e_fires e)\<rparr>))"
proof -
  let ?e = "e\<lparr>e_fires := remove1 t (e_fires e)\<rparr>"
  have keep: "hot_ok (?e\<lparr>e_inMem := (e_inMem e)(t := None)\<rparr>)"
    using hot_okD(1-3) [OF ok] unfolding hot_ok_def by (auto simp: in_set_remove1 dest: hot_okD(4) [OF ok])
  show ?thesis
  proof (cases "e_inMem e t")
    case None
    then have "(e_inMem e)(t := None) = e_inMem e" by auto
    with keep None show ?thesis by (simp add: onDelayTimerFire_def)
  next
    case (Some task)
    with keep show ?thesis
      by (simp add: onDelayTimerFire_def Let_def hot_ok_def split: option.split)
  qed
qed

lemma persist_cases:
  obtains st where "snd (persist task e) = e\<lparr>e_store := st\<rparr>"
proof -
  have "snd (persist task e) = e\<lparr>e_store := e_store (snd (persist task e))\<rparr>"
    by (simp add: persist_def split: option.split prod.split)
  then show thesis by (rule that)
qed

lemma hot_add: "hot_ok e \<Longrightarrow> hot_ok (snd (EngineAdd now task e))"
proof -
  assume ok: "hot_ok e"
  obtain st where st: "snd (persist task e) = e\<lparr>e_store := st\<rparr>" by (rule persist_cases)
  show ?thesis
    using ok hot_insert [of "e\<lparr>e_store := st\<rparr>"] st
    by (cases "persist task e") (auto simp: EngineAdd_def Let_def)
qed

lemma hot_reschedule: "hot_ok e \<Longrightarrow> hot_ok (snd (EngineReschedule now task e))"
proof -
  assume ok: "hot_ok e"
  obtain st where st: "snd (persist task e) = e\<lparr>e_store := st\<rparr>" by (rule persist_cases)
  let ?t = "a_TimerID (e_accessor e) task"
  have "hot_ok (e\<lparr>e_delayQ := DelayRemove ?t (e_delayQ e), e_inMem := (e_inMem e)(?t := None)\<rparr>)"
    using hot_delete(2) [OF hot_delete(1) [OF ok, of ?t], of ?t] by (simp add: hot_ok_def)
  then have "hot_ok (e\<lparr>e_store := st, e_delayQ := DelayRemove ?t (e_delayQ e),
      e_inMem := (e_inMem e)(?t := None), e_byTask := b\<rparr>)" for b
    by (simp add: hot_ok_def)
  then show ?thesis
    using ok hot_insert [of "e\<lparr>e_store := st\<rparr>"] st
    by (cases "persist task e") (auto simp: EngineReschedule_def Let_def)
qed

lemma hot_forget: "hot_ok e \<Longrightarrow> hot_ok (snd (forgetTask taskID e))"
  using hot_delete(1) [of "e\<lparr>e_byTask := (e_byTask e)(taskID := None)\<rparr>"] by (simp add: forgetTask_def Let_def)

lemma hot_cancel: "hot_ok e \<Longrightarrow> hot_ok (snd (Cancel uid taskID e))"
proof -
  assume ok: "hot_ok e"
  obtain t e1 where f: "forgetTask taskID e = (t, e1)" by (cases "forgetTask taskID e")
  then have "hot_ok e1" "t \<noteq> 0 \<Longrightarrow> e_inMem e1 t = None"
    using hot_forget [OF ok, of taskID] by (auto simp: forgetTask_def Let_def split: if_splits)
  then have "hot_ok (if t \<noteq> 0 then e1\<lparr>e_delayQ := DelayRemove t (e_delayQ e1)\<rparr> else e1)"
    using hot_delete(2) [of e1 t] by simp
  then show ?thesis using f by (auto simp: Cancel_def Let_def split: option.split prod.split)
qed

lemma hot_promote:
  assumes "hot_ok (snd p)"
  shows "hot_ok (snd (promoteRecord now r p))"
proof -
  obtain n e where p: "p = (n, e)" by (cases p)
  with assms have ok: "hot_ok e" by simp
  show ?thesis
    using ok hot_fire_pending [OF ok] hot_insert [OF ok, of _ "a_TimerID (e_accessor e) r"]
    by (simp add: p promoteRecord_def Let_def)
qed

lemma hot_promotes: "hot_ok e \<Longrightarrow> hot_ok (snd (promoteRecords now rs e))"
proof -
  have "hot_ok (snd p) \<Longrightarrow> hot_ok (snd (fold (promoteRecord now) rs p))" for p :: "nat \<times> ('a, 'b) Engine"
    by (induction rs arbitrary: p) (simp_all add: hot_promote)
  then show "hot_ok e \<Longrightarrow> ?thesis" by (simp add: promoteRecords_def)
qed

lemma hot_doFire: "hot_ok e \<Longrightarrow> hot_ok (doFire t task uid e)"
  by (simp add: doFire_def Let_def split: option.split prod.split sum.split bool.split)

lemma hot_step: "hot_ok e \<Longrightarrow> hot_ok (engine_step ev e)"
proof (induction ev e rule: engine_step.induct)
  case (5 now e)
  then show ?case by (auto simp: RestoreHotZone_def Let_def hot_promotes split: option.split prod.split sum.split)
next
  case (9 p e)
  then show ?case by (auto simp: hot_doFire split: prod.split)
next
  case (10 now now' e)
  then show ?case by (auto simp: promoteFromRedis_def Let_def hot_promotes split: option.split prod.split sum.split)
qed (simp_all add: hot_add hot_reschedule hot_cancel hot_forget Forget_def HandleSubmittedFire_def hot_doFire hot_tick hot_fire)

lemma hot_new: "hot_ok (NewEngine q st owner lease win g acc)"
proof -
  have "dq_dedupWindow (NewDelayQueue True []) = 0" by (simp add: NewDelayQueue_def)
  then show ?thesis by (simp add: hot_ok_def NewEngine_def dq_ok_new)
qed

lemma hot_run: "hot_ok e \<Longrightarrow> hot_ok (fold engine_step evs e)"
  by (induction evs arbitrary: e) (simp_all add: hot_step)


text \<open>A task as task id, timer id, due time and user, and a persistent queue that stores tasks in a list.\<close>

type_synonym demo_task = "int \<times> nat \<times> int \<times> nat"

definition demo_accessor :: "demo_task Accessor" where
  "demo_accessor = \<lparr>a_TaskID = fst, a_TimerID = fst \<circ> snd, a_DueTimeMs = fst \<circ> snd \<circ> snd, a_UID = snd \<circ> snd \<circ> snd\<rparr>"

definition demo_queue :: "(demo_task, demo_task list) QueueOps" where
  "demo_queue = \<lparr>q_Add = \<lambda>t st. (None, t # st), q_Remove = \<lambda>uid tid st. (None, filter (\<lambda>t. fst t \<noteq> tid) st),
     q_LoadAllInWindow = \<lambda>w st. (Inr st, st), q_Claim = \<lambda>uid tid own l st. (Inr True, st),
     q_Complete = \<lambda>uid tid own st. (Inr True, filter (\<lambda>t. fst (snd t) \<noteq> tid) st),
     q_RequeueExpired = \<lambda>now st. (Inr 0, st)\<rparr>"

definition demo_engine :: "(demo_task, demo_task list) Engine" where
  "demo_engine = NewEngine (Some demo_queue) [] ''node'' 0 0 None demo_accessor"

definition demo_history :: "demo_task engine_ev list" where
  "demo_history = [CallAdd 0 (1, 7, 5, 3), CallAdd 0 (2, 8, 9, 3), Tick 6000000]"


section \<open>Tasks outside the hot window\<close>

text \<open>The events that concern a task by its id.\<close>

fun touches :: "'t Accessor \<Rightarrow> int \<Rightarrow> 't engine_ev \<Rightarrow> bool" where
  "touches acc taskID (CallAdd now t) = (a_TaskID acc t = taskID)"
| "touches acc taskID (CallReschedule now t) = (a_TaskID acc t = taskID)"
| "touches acc taskID (CallCancel uid k) = (k = taskID)"
| "touches acc taskID (CallForget k) = (k = taskID)"
| "touches acc taskID ev = False"

text \<open>The task is known by its id only: nothing that could fire it holds it.\<close>

definition cold :: "int \<Rightarrow> ('t, 'q) Engine \<Rightarrow> bool" where
  "cold taskID e \<longleftrightarrow> e_byTask e taskID \<noteq> None
     \<and> (\<forall>t task. e_inMem e t = Some task \<longrightarrow> a_TaskID (e_accessor e) task \<noteq> taskID)
     \<and> (\<forall>p \<in> set (e_pending e). a_TaskID (e_accessor e) (fst (snd p)) \<noteq> taskID)
     \<and> (\<forall>p \<in> set (e_submitted e). a_TaskID (e_accessor e) (snd p) \<noteq> taskID)
     \<and> (\<forall>task \<in> set (e_handled e). a_TaskID (e_accessor e) task \<noteq> taskID)"

lemma cold_frame [simp]:
  "cold k (e\<lparr>e_store := st\<rparr>) = cold k e" "cold k (e\<lparr>e_delayQ := d\<rparr>) = cold k e" "cold k (e\<lparr>e_fires := f\<rparr>) = cold k e"
  by (simp_all add: cold_def)

lemma accessor_frame [simp]:
  "e_accessor (doFire t task uid e) = e_accessor e" "e_accessor (onDelayTimerFire t e) = e_accessor e"
  "e_accessor (snd (promoteRecord now r p)) = e_accessor (snd p)"
  by (auto simp: doFire_def onDelayTimerFire_def promoteRecord_def Let_def
      split: option.split prod.split sum.split bool.split)

lemma cold_doFire: "cold k e \<Longrightarrow> a_TaskID (e_accessor e) task \<noteq> k \<Longrightarrow> cold k (doFire t task uid e)"
  by (auto simp: doFire_def Let_def cold_def split: option.split prod.split sum.split bool.split)

lemma cold_fire: "cold k e \<Longrightarrow> cold k (onDelayTimerFire t e)"
  by (auto simp: onDelayTimerFire_def Let_def cold_def split: option.split)

lemma cold_insert:
  "cold k e \<Longrightarrow> a_TaskID (e_accessor e) task \<noteq> k \<Longrightarrow>
     cold k (e\<lparr>e_inMem := (e_inMem e)(t \<mapsto> task), e_byTask := (e_byTask e)(a_TaskID (e_accessor e) task \<mapsto> t)\<rparr>)"
  by (simp add: cold_def)

lemma cold_promote: "cold k (snd p) \<Longrightarrow> cold k (snd (promoteRecord now r p))"
proof -
  obtain n e where p: "p = (n, e)" by (cases p)
  have "e_byTask e (a_TaskID (e_accessor e) r) = None \<Longrightarrow> cold k e \<Longrightarrow> a_TaskID (e_accessor e) r \<noteq> k"
    by (auto simp: cold_def)
  then show "cold k (snd p) \<Longrightarrow> ?thesis" by (simp add: p promoteRecord_def Let_def cold_insert)
qed

lemma cold_promotes: "cold k e \<Longrightarrow> cold k (snd (promoteRecords now rs e))"
proof -
  have "cold k (snd p) \<Longrightarrow> cold k (snd (fold (promoteRecord now) rs p))" for p :: "nat \<times> ('a, 'b) Engine"
    by (induction rs arbitrary: p) (simp_all add: cold_promote)
  then show "cold k e \<Longrightarrow> ?thesis" by (simp add: promoteRecords_def)
qed

lemma promotes_accessor: "e_accessor (snd (promoteRecords now rs e)) = e_accessor e"
proof -
  have "e_accessor (snd (fold (promoteRecord now) rs p)) = e_accessor (snd p)" for p :: "nat \<times> ('a, 'b) Engine"
    by (induction rs arbitrary: p) simp_all
  then show ?thesis by (simp add: promoteRecords_def)
qed

lemma cold_step:
  assumes "cold k e" and "\<not> touches (e_accessor e) k ev"
  shows "cold k (engine_step ev e) \<and> e_accessor (engine_step ev e) = e_accessor e"
  using assms
proof (induction ev e rule: engine_step.induct)
  case (1 now task e)
  obtain st where "snd (persist task e) = e\<lparr>e_store := st\<rparr>" by (rule persist_cases)
  with 1 show ?case by (cases "persist task e") (auto simp: EngineAdd_def Let_def cold_def)
next
  case (2 now task e)
  obtain st where "snd (persist task e) = e\<lparr>e_store := st\<rparr>" by (rule persist_cases)
  with 2 show ?case by (cases "persist task e") (auto simp: EngineReschedule_def Let_def cold_def)
next
  case (3 uid taskID e)
  then show ?case by (auto simp: Cancel_def forgetTask_def Let_def cold_def split: option.split prod.split)
next
  case (4 taskID e)
  then show ?case by (auto simp: Forget_def forgetTask_def Let_def cold_def)
next
  case (5 now e)
  then show ?case
    by (auto simp: RestoreHotZone_def Let_def cold_promotes promotes_accessor split: option.split prod.split sum.split)
next
  case (6 t task uid e)
  then have "(t, task) \<in> set (e_submitted e) \<Longrightarrow> a_TaskID (e_accessor e) task \<noteq> k" by (auto simp: cold_def)
  with 6 show ?case by (simp add: HandleSubmittedFire_def cold_doFire)
next
  case (7 now e)
  then show ?case by (simp add: engine_tick_def Let_def)
next
  case (8 t e)
  then show ?case by (simp add: cold_fire)
next
  case (9 p e)
  obtain t task uid where p: "p = (t, task, uid)" by (cases p)
  have "a_TaskID (e_accessor e) task \<noteq> k" "cold k (e\<lparr>e_pending := remove1 p (e_pending e)\<rparr>)" if "p \<in> set (e_pending e)"
    using 9(1) that p set_remove1_subset [of p "e_pending e"] by (auto simp: cold_def)
  with 9 p show ?case by (auto simp: cold_doFire)
next
  case (10 now now' e)
  then show ?case
    by (auto simp: promoteFromRedis_def Let_def cold_promotes promotes_accessor split: option.split prod.split sum.split)
qed

lemma cold_run:
  "cold k e \<Longrightarrow> \<not> list_ex (touches (e_accessor e) k) evs \<Longrightarrow>
     cold k (fold engine_step evs e) \<and> e_accessor (fold engine_step evs e) = e_accessor e"
  by (induction evs arbitrary: e) (simp_all add: cold_step)


text \<open>An hour later the same store is promoted: not by this engine, but by one that starts afresh.\<close>

definition cold_task :: demo_task where "cold_task = (1, 7, 3600000, 3)"

definition late_rounds :: "demo_task engine_ev list" where
  "late_rounds = [RunPromotion 3600000000001 3600000000001, Tick 3600000000001]"


end
