(* ===== verification/Timer_Ledger.thy ===== *)
theory Timer_Ledger
  imports Sky_Prelude
begin

text \<open>
  The persistent timer ledger of \<open>timer/redisqueue/queue.go\<close>.  The Redis server, its client and the
  Lua library are not part of the repository: the commands are a record of functions over a store of any
  type, \<open>cjson\<close> a pair of functions, and what the ledger relies on are the named hypotheses \<open>redis_ok\<close>
  and \<open>lua_ok\<close>.  A script runs on the server as one step; a client call is a round trip that the
  network may refuse, in which case it had no effect.  Scores are integers (milliseconds).
\<close>

section \<open>Redis and Lua as parameters\<close>

record 'r Redis =
  HGET :: "string \<Rightarrow> string \<Rightarrow> 'r \<Rightarrow> string option"
  HSET :: "string \<Rightarrow> string \<Rightarrow> string \<Rightarrow> 'r \<Rightarrow> 'r"
  HDEL :: "string \<Rightarrow> string \<Rightarrow> 'r \<Rightarrow> nat \<times> 'r"
  HGETALL :: "string \<Rightarrow> 'r \<Rightarrow> (string \<times> string) list"
  ZADD :: "string \<Rightarrow> int \<Rightarrow> string \<Rightarrow> 'r \<Rightarrow> 'r"
  ZREM :: "string \<Rightarrow> string \<Rightarrow> 'r \<Rightarrow> nat \<times> 'r"
  ZSCORE :: "string \<Rightarrow> string \<Rightarrow> 'r \<Rightarrow> int option"
  ZRANGE :: "string \<Rightarrow> 'r \<Rightarrow> string list"
  ZRANGEBYSCORE :: "string \<Rightarrow> int \<Rightarrow> int \<Rightarrow> 'r \<Rightarrow> string list"

text \<open>The documented effect of the commands, with \<open>HGET\<close> and \<open>ZSCORE\<close> as the observations.\<close>

definition redis_ok :: "'r Redis \<Rightarrow> bool" where
  "redis_ok R \<longleftrightarrow>
     (\<forall>k f v s k' f'. HGET R k' f' (HSET R k f v s) = (if k' = k \<and> f' = f then Some v else HGET R k' f' s))
   \<and> (\<forall>k f s k' f'. HGET R k' f' (snd (HDEL R k f s)) = (if k' = k \<and> f' = f then None else HGET R k' f' s))
   \<and> (\<forall>k f s. fst (HDEL R k f s) = (if HGET R k f s = None then 0 else 1))
   \<and> (\<forall>k x m s k' f'. HGET R k' f' (ZADD R k x m s) = HGET R k' f' s)
   \<and> (\<forall>k m s k' f'. HGET R k' f' (snd (ZREM R k m s)) = HGET R k' f' s)
   \<and> (\<forall>k x m s k' m'. ZSCORE R k' m' (ZADD R k x m s) = (if k' = k \<and> m' = m then Some x else ZSCORE R k' m' s))
   \<and> (\<forall>k m s k' m'. ZSCORE R k' m' (snd (ZREM R k m s)) = (if k' = k \<and> m' = m then None else ZSCORE R k' m' s))
   \<and> (\<forall>k m s. fst (ZREM R k m s) = (if ZSCORE R k m s = None then 0 else 1))
   \<and> (\<forall>k f v s k' m'. ZSCORE R k' m' (HSET R k f v s) = ZSCORE R k' m' s)
   \<and> (\<forall>k f s k' m'. ZSCORE R k' m' (snd (HDEL R k f s)) = ZSCORE R k' m' s)
   \<and> (\<forall>k s. distinct (ZRANGE R k s) \<and> set (ZRANGE R k s) = {m. ZSCORE R k m s \<noteq> None})
   \<and> (\<forall>k lo hi s. distinct (ZRANGEBYSCORE R k lo hi s)
        \<and> set (ZRANGEBYSCORE R k lo hi s) = {m. \<exists>x. ZSCORE R k m s = Some x \<and> lo \<le> x \<and> x \<le> hi})"

text \<open>What the scripts read of a decoded JSON object; \<open>None\<close> for an absent or unusable field.\<close>

record lua_obj =
  lo_owner :: "string option"
  lo_deadline :: "int option"
  lo_timer_status :: "string option"
  lo_processing_owner :: "string option"
  lo_processing_deadline :: "int option"

record Lua =
  cjson_encode :: "string \<Rightarrow> int \<Rightarrow> string"
  cjson_decode :: "string \<Rightarrow> lua_obj option"

definition lua_ok :: "Lua \<Rightarrow> bool" where
  "lua_ok L \<longleftrightarrow> (\<forall>owner deadline. \<exists>obj. cjson_decode L (cjson_encode L owner deadline) = Some obj
     \<and> lo_owner obj = Some owner \<and> lo_deadline obj = Some deadline)"

section \<open>The scripts\<close>

definition StatusProcessing :: string where "StatusProcessing = ''processing''"

record Keys =
  k_Pending :: string
  k_Processing :: string
  k_Data :: string
  k_Index :: string

definition procField :: "string \<Rightarrow> string" where
  "procField tid = ''__processing__:'' @ tid"

definition ErrScript :: string where "ErrScript = ''cjson decode''"

definition claimScript ::
  "'r Redis \<Rightarrow> Lua \<Rightarrow> Keys \<Rightarrow> string \<Rightarrow> string \<Rightarrow> int \<Rightarrow> 'r \<Rightarrow> (string + nat) \<times> 'r"
where
  "claimScript R L K tid owner deadline s =
     (if HGET R (k_Data K) tid s = None then (Inr 0, s)
      else let (n, s) = ZREM R (k_Pending K) tid s
           in if n = 0 then (Inr 0, s)
              else let s = HSET R (k_Data K) (procField tid) (cjson_encode L owner deadline) s;
                       s = ZADD R (k_Processing K) deadline tid s
                   in (Inr 1, s))"

text \<open>The tail of \<open>completeScript\<close>, once the owner has been accepted.\<close>

definition completeErase :: "'r Redis \<Rightarrow> Keys \<Rightarrow> string \<Rightarrow> string \<Rightarrow> 'r \<Rightarrow> 'r" where
  "completeErase R K tid businessID s =
     (let s = snd (HDEL R (k_Data K) tid s);
          s = snd (HDEL R (k_Data K) (procField tid) s);
          s = snd (ZREM R (k_Pending K) tid s);
          s = snd (ZREM R (k_Processing K) tid s)
      in if businessID \<noteq> [] \<and> HGET R (k_Index K) businessID s = Some tid
         then snd (HDEL R (k_Index K) businessID s) else s)"

definition completeScript ::
  "'r Redis \<Rightarrow> Lua \<Rightarrow> Keys \<Rightarrow> string \<Rightarrow> string \<Rightarrow> string \<Rightarrow> 'r \<Rightarrow> (string + nat) \<times> 'r"
where
  "completeScript R L K tid owner businessID s =
     (case HGET R (k_Data K) tid s of
        None \<Rightarrow> (Inr 0, s)
      | Some val \<Rightarrow>
          (case HGET R (k_Data K) (procField tid) s of
             Some meta \<Rightarrow>
               (case cjson_decode L meta of
                  None \<Rightarrow> (Inl ErrScript, s)
                | Some processing \<Rightarrow>
                    if lo_owner processing \<noteq> Some owner then (Inr 0, s)
                    else (Inr 1, completeErase R K tid businessID s))
           | None \<Rightarrow>
               (case cjson_decode L val of
                  None \<Rightarrow> (Inl ErrScript, s)
                | Some rec \<Rightarrow>
                    if lo_timer_status rec = Some StatusProcessing \<and> lo_processing_owner rec \<noteq> Some owner
                    then (Inr 0, s)
                    else (Inr 1, completeErase R K tid businessID s))))"

definition requeueMove :: "'r Redis \<Rightarrow> Keys \<Rightarrow> string \<Rightarrow> int \<Rightarrow> 'r \<Rightarrow> 'r" where
  "requeueMove R K tid dueTime s =
     (let s = snd (HDEL R (k_Data K) (procField tid) s);
          s = snd (ZREM R (k_Processing K) tid s)
      in ZADD R (k_Pending K) dueTime tid s)"

definition requeueScript ::
  "'r Redis \<Rightarrow> Lua \<Rightarrow> Keys \<Rightarrow> string \<Rightarrow> int \<Rightarrow> int \<Rightarrow> 'r \<Rightarrow> (string + nat) \<times> 'r"
where
  "requeueScript R L K tid now dueTime s =
     (case HGET R (k_Data K) tid s of
        None \<Rightarrow>
          let s = snd (ZREM R (k_Processing K) tid s);
              s = snd (HDEL R (k_Data K) (procField tid) s)
          in (Inr 0, s)
      | Some val \<Rightarrow>
          (case HGET R (k_Data K) (procField tid) s of
             Some meta \<Rightarrow>
               (case cjson_decode L meta of
                  None \<Rightarrow> (Inl ErrScript, s)
                | Some processing \<Rightarrow>
                    let deadline = (case lo_deadline processing of None \<Rightarrow> 0 | Some d \<Rightarrow> d)
                    in if deadline > now then (Inr 0, s) else (Inr 1, requeueMove R K tid dueTime s))
           | None \<Rightarrow>
               (case cjson_decode L val of
                  None \<Rightarrow> (Inl ErrScript, s)
                | Some rec \<Rightarrow>
                    if lo_timer_status rec \<noteq> Some StatusProcessing then (Inr 0, s)
                    else let deadline = (case lo_processing_deadline rec of None \<Rightarrow> 0 | Some d \<Rightarrow> d)
                         in if deadline > now then (Inr 0, s) else (Inr 1, requeueMove R K tid dueTime s))))"

section \<open>The client\<close>

text \<open>The store behind a network: \<open>w_net n\<close> tells whether the \<open>n\<close>-th round trip gets through.\<close>

record 'r world =
  w_store :: 'r
  w_net :: "nat \<Rightarrow> bool"
  w_trips :: nat

definition ErrNet :: string where "ErrNet = ''connection refused''"

definition trip :: "('r \<Rightarrow> 'a \<times> 'r) \<Rightarrow> 'r world \<Rightarrow> (string + 'a) \<times> 'r world" where
  "trip f w =
     (let w' = w\<lparr>w_trips := Suc (w_trips w)\<rparr>
      in if w_net w (w_trips w) then let (a, s) = f (w_store w) in (Inr a, w'\<lparr>w_store := s\<rparr>)
         else (Inl ErrNet, w'))"

text \<open>A script call: its own error is an error of the call.\<close>

definition runScript :: "('r \<Rightarrow> (string + 'a) \<times> 'r) \<Rightarrow> 'r world \<Rightarrow> (string + 'a) \<times> 'r world" where
  "runScript f w = (case trip f w of (Inl e, w) \<Rightarrow> (Inl e, w) | (Inr r, w) \<Rightarrow> (r, w))"

text \<open>\<open>strconv.ParseUint(s, 10, 64)\<close>.\<close>

definition digit_val :: "char \<Rightarrow> nat" where "digit_val c = of_char c - 48"

definition is_digit :: "char \<Rightarrow> bool" where "is_digit c \<longleftrightarrow> 48 \<le> (of_char c :: nat) \<and> (of_char c :: nat) \<le> 57"

definition parseUint :: "string \<Rightarrow> string + nat" where
  "parseUint s =
     (if s = [] \<or> \<not> list_all is_digit s then Inl ''invalid syntax''
      else let n = foldl (\<lambda>acc c. 10 * acc + digit_val c) 0 s
           in if n < 2 ^ 64 then Inr n else Inl ''value out of range'')"

record 't Codec =
  c_Marshal :: "'t \<Rightarrow> string + string"
  c_Unmarshal :: "string \<Rightarrow> string + 't"
  c_TimerID :: "'t \<Rightarrow> nat"
  c_BusinessID :: "'t \<Rightarrow> string"
  c_DueTimeMs :: "'t \<Rightarrow> int"
  c_MarkPending :: "'t \<Rightarrow> 't"
  c_Keyed :: "(string \<Rightarrow> string \<Rightarrow> string \<Rightarrow> string + 't) option"

record ('t, 'r) Queue =
  q_redis :: "'r Redis"
  q_lua :: Lua
  q_keys :: "nat \<Rightarrow> Keys"
  q_codec :: "'t Codec"

definition NewQueue :: "'r Redis \<Rightarrow> Lua \<Rightarrow> (nat \<Rightarrow> Keys) \<Rightarrow> 't Codec \<Rightarrow> ('t, 'r) Queue" where
  "NewQueue rdb lua keys codec = \<lparr>q_redis = rdb, q_lua = lua, q_keys = keys, q_codec = codec\<rparr>"

text \<open>The removal of the timer that a business id had before, when \<open>Add\<close> gives it another.\<close>

definition eraseOld :: "'r Redis \<Rightarrow> Keys \<Rightarrow> string \<Rightarrow> 'r \<Rightarrow> unit \<times> 'r" where
  "eraseOld R K old s =
     (let s = snd (ZREM R (k_Pending K) old s);
          s = snd (ZREM R (k_Processing K) old s);
          s = snd (HDEL R (k_Data K) old s)
      in ((), snd (HDEL R (k_Data K) (procField old) s)))"

definition replaceOld :: "'r Redis \<Rightarrow> Keys \<Rightarrow> string \<Rightarrow> string \<Rightarrow> 'r world \<Rightarrow> string option \<times> 'r world" where
  "replaceOld R K businessID tid w =
     (if businessID = [] then (None, w)
      else case trip (\<lambda>s. (HGET R (k_Index K) businessID s, s)) w of
             (Inl e, w) \<Rightarrow> (Some e, w)
           | (Inr None, w) \<Rightarrow> (None, w)
           | (Inr (Some old), w) \<Rightarrow>
               if old \<noteq> [] \<and> old \<noteq> tid
               then case trip (eraseOld R K old) w of
                      (Inl e, w) \<Rightarrow> (Some (''replace old timer '' @ old @ '' for business '' @ businessID @ '': '' @ e), w)
                    | (Inr _, w) \<Rightarrow> (None, w)
               else (None, w))"

definition writeRecord :: "'r Redis \<Rightarrow> Keys \<Rightarrow> string \<Rightarrow> int \<Rightarrow> string \<Rightarrow> string \<Rightarrow> 'r \<Rightarrow> unit \<times> 'r" where
  "writeRecord R K tid due data businessID s =
     (let s = ZADD R (k_Pending K) due tid s;
          s = snd (ZREM R (k_Processing K) tid s);
          s = HSET R (k_Data K) tid data s
      in ((), if businessID \<noteq> [] then HSET R (k_Index K) businessID tid s else s))"

definition LedgerAdd :: "('t, 'r) Queue \<Rightarrow> nat \<Rightarrow> 't \<Rightarrow> 'r world \<Rightarrow> string option \<times> 'r world" where
  "LedgerAdd q uid rec w =
     (let R = q_redis q; C = q_codec q; K = q_keys q uid;
          tid = show_nat (c_TimerID C rec);
          businessID = c_BusinessID C rec;
          rec = c_MarkPending C rec
      in case c_Marshal C rec of
           Inl e \<Rightarrow> (Some e, w)
         | Inr data \<Rightarrow>
             (case replaceOld R K businessID tid w of
                (Some e, w) \<Rightarrow> (Some e, w)
              | (None, w) \<Rightarrow>
                  (case trip (writeRecord R K tid (c_DueTimeMs C rec) data businessID) w of
                     (Inl e, w) \<Rightarrow> (Some e, w)
                   | (Inr _, w) \<Rightarrow> (None, w))))"

definition TimerIDByBusinessID :: "('t, 'r) Queue \<Rightarrow> nat \<Rightarrow> string \<Rightarrow> 'r world \<Rightarrow> (string + nat) \<times> 'r world" where
  "TimerIDByBusinessID q uid businessID w =
     (if businessID = [] then (Inr 0, w)
      else let R = q_redis q; K = q_keys q uid
           in case trip (\<lambda>s. (HGET R (k_Index K) businessID s, s)) w of
                (Inl e, w) \<Rightarrow> (Inl e, w)
              | (Inr (Some val), w) \<Rightarrow> (parseUint val, w)
              | (Inr None, w) \<Rightarrow>
                  (case trip (\<lambda>s. (HGET R (k_Data K) businessID s \<noteq> None, s)) w of
                     (Inl e, w) \<Rightarrow> (Inl e, w)
                   | (Inr True, w) \<Rightarrow> (parseUint businessID, w)
                   | (Inr False, w) \<Rightarrow> (Inr 0, w)))"

definition businessIDsByTimerID :: "'r Redis \<Rightarrow> Keys \<Rightarrow> 'r world \<Rightarrow> (string + (string \<rightharpoonup> string)) \<times> 'r world" where
  "businessIDsByTimerID R K w =
     (if k_Index K = [] then (Inr Map.empty, w)
      else case trip (\<lambda>s. (HGETALL R (k_Index K) s, s)) w of
             (Inl e, w) \<Rightarrow> (Inl (''hgetall timer index: '' @ e), w)
           | (Inr idx, w) \<Rightarrow> (Inr (fold (\<lambda>(businessID, timerID) m. m(timerID \<mapsto> businessID)) idx Map.empty), w))"

text \<open>The zero value of a missing map entry is the empty string.\<close>

definition bizOf :: "(string \<rightharpoonup> string) \<Rightarrow> string \<Rightarrow> string" where
  "bizOf m tid = (case m tid of None \<Rightarrow> [] | Some b \<Rightarrow> b)"

definition loadRecordByTimerID :: "('t, 'r) Queue \<Rightarrow> nat \<Rightarrow> string \<Rightarrow> 'r world \<Rightarrow> (string + 't option) \<times> 'r world" where
  "loadRecordByTimerID q uid tid w =
     (let R = q_redis q; C = q_codec q; K = q_keys q uid
      in case trip (\<lambda>s. (HGET R (k_Data K) tid s, s)) w of
           (Inl e, w) \<Rightarrow> (Inl e, w)
         | (Inr None, w) \<Rightarrow> (Inr None, w)
         | (Inr (Some val), w) \<Rightarrow>
             (case c_Keyed C of
                Some keyed \<Rightarrow>
                  (case businessIDsByTimerID R K w of
                     (Inl e, w) \<Rightarrow> (Inl e, w)
                   | (Inr m, w) \<Rightarrow> (map_sum id Some (keyed val tid (bizOf m tid)), w))
              | None \<Rightarrow> (map_sum id Some (c_Unmarshal C val), w)))"

definition dropSets :: "'r Redis \<Rightarrow> Keys \<Rightarrow> string \<Rightarrow> string \<Rightarrow> 'r \<Rightarrow> unit \<times> 'r" where
  "dropSets R K tid businessID s =
     (let s = snd (ZREM R (k_Pending K) tid s);
          s = snd (ZREM R (k_Processing K) tid s)
      in ((), if businessID \<noteq> [] then snd (HDEL R (k_Index K) businessID s) else s))"

definition RemoveByTimerID :: "('t, 'r) Queue \<Rightarrow> nat \<Rightarrow> nat \<Rightarrow> 'r world \<Rightarrow> (bool \<times> string option) \<times> 'r world" where
  "RemoveByTimerID q uid timerID w =
     (let R = q_redis q; C = q_codec q; K = q_keys q uid;
          tid = show_nat timerID;
          (r, w) = loadRecordByTimerID q uid tid w;
          businessID = (case r of Inr (Some rec) \<Rightarrow> c_BusinessID C rec | _ \<Rightarrow> [])
      in case trip (HDEL R (k_Data K) tid) w of
           (Inl e, w) \<Rightarrow> ((False, Some e), w)
         | (Inr hdel, w) \<Rightarrow>
             (case trip (dropSets R K tid businessID) w of
                (Inl e, w) \<Rightarrow> ((hdel > 0, Some e), w)
              | (Inr _, w) \<Rightarrow> ((hdel > 0, None), w)))"

definition RemoveByBusinessID :: "('t, 'r) Queue \<Rightarrow> nat \<Rightarrow> string \<Rightarrow> 'r world \<Rightarrow> (bool \<times> string option) \<times> 'r world" where
  "RemoveByBusinessID q uid businessID w =
     (case TimerIDByBusinessID q uid businessID w of
        (Inl e, w) \<Rightarrow> ((False, Some e), w)
      | (Inr timerID, w) \<Rightarrow> if timerID = 0 then ((False, None), w) else RemoveByTimerID q uid timerID w)"

text \<open>A call that panics, or the value and error that it returns.\<close>

datatype 'a outcome = Panics string | Returns "string + 'a"

definition ClaimForProcessing ::
  "('t, 'r) Queue \<Rightarrow> nat \<Rightarrow> nat \<Rightarrow> string \<Rightarrow> int \<Rightarrow> int \<Rightarrow> 'r world \<Rightarrow> bool outcome \<times> 'r world"
where
  "ClaimForProcessing q uid timerID owner lease now w =
     (if owner = [] then (Panics ''redisqueue: owner must be configured'', w)
      else if lease \<le> 0 then (Panics ''redisqueue: lease must be positive'', w)
      else let tid = show_nat timerID;
               deadline = (now + lease) div 1000000;
               (res, w) = runScript (claimScript (q_redis q) (q_lua q) (q_keys q uid) tid owner deadline) w
           in (Returns (map_sum id (\<lambda>n. n = 1) res), w))"

definition CompleteProcessing ::
  "('t, 'r) Queue \<Rightarrow> nat \<Rightarrow> nat \<Rightarrow> string \<Rightarrow> 'r world \<Rightarrow> bool outcome \<times> 'r world"
where
  "CompleteProcessing q uid timerID owner w =
     (if owner = [] then (Panics ''redisqueue: owner must be configured'', w)
      else let tid = show_nat timerID
           in case loadRecordByTimerID q uid tid w of
                (Inl e, w) \<Rightarrow> (Returns (Inl e), w)
              | (Inr orec, w) \<Rightarrow>
                  let businessID = (case orec of None \<Rightarrow> [] | Some rec \<Rightarrow> c_BusinessID (q_codec q) rec);
                      (res, w) = runScript (completeScript (q_redis q) (q_lua q) (q_keys q uid) tid owner businessID) w
                  in (Returns (map_sum id (\<lambda>n. n = 1) res), w))"

definition requeueProcessingTimer ::
  "('t, 'r) Queue \<Rightarrow> nat \<Rightarrow> string \<Rightarrow> int \<Rightarrow> 'r world \<Rightarrow> (string + bool) \<times> 'r world"
where
  "requeueProcessingTimer q uid tid nowMs w =
     (case loadRecordByTimerID q uid tid w of
        (Inl e, w) \<Rightarrow> (Inl e, w)
      | (Inr orec, w) \<Rightarrow>
          let dueTimeMs = (case orec of None \<Rightarrow> 0 | Some rec \<Rightarrow> c_DueTimeMs (q_codec q) rec);
              (res, w) = runScript (requeueScript (q_redis q) (q_lua q) (q_keys q uid) tid nowMs dueTimeMs) w
          in (map_sum id (\<lambda>n. n = 1) res, w))"

fun requeueIDs ::
  "('t, 'r) Queue \<Rightarrow> nat \<Rightarrow> string list \<Rightarrow> int \<Rightarrow> nat \<Rightarrow> 'r world \<Rightarrow> (nat \<times> string option) \<times> 'r world"
where
  "requeueIDs q uid [] nowMs cnt w = ((cnt, None), w)"
| "requeueIDs q uid (tid # tids) nowMs cnt w =
     (case requeueProcessingTimer q uid tid nowMs w of
        (Inl e, w) \<Rightarrow> ((cnt, Some e), w)
      | (Inr ok, w) \<Rightarrow> requeueIDs q uid tids nowMs (if ok then Suc cnt else cnt) w)"

fun RequeueExpiredProcessing ::
  "('t, 'r) Queue \<Rightarrow> nat list \<Rightarrow> int \<Rightarrow> nat \<Rightarrow> 'r world \<Rightarrow> (nat \<times> string option) \<times> 'r world"
where
  "RequeueExpiredProcessing q [] nowMs cnt w = ((cnt, None), w)"
| "RequeueExpiredProcessing q (uid # uids) nowMs cnt w =
     (case trip (\<lambda>s. (ZRANGEBYSCORE (q_redis q) (k_Processing (q_keys q uid)) 0 nowMs s, s)) w of
        (Inl e, w) \<Rightarrow> ((cnt, Some (''zrangebyscore processing uid='' @ show_nat uid @ '': '' @ e)), w)
      | (Inr tids, w) \<Rightarrow>
          (case requeueIDs q uid tids nowMs cnt w of
             ((cnt, Some e), w) \<Rightarrow> ((cnt, Some e), w)
           | ((cnt, None), w) \<Rightarrow> RequeueExpiredProcessing q uids nowMs cnt w))"

text \<open>The loop of \<open>LoadByTimerIDs\<close> over the identifiers and what \<open>HMGET\<close> returned for them.\<close>

fun loadLoop ::
  "('t, 'r) Queue \<Rightarrow> nat \<Rightarrow> (string \<rightharpoonup> string) \<Rightarrow> (string \<times> string option) list \<Rightarrow> 't list \<Rightarrow> 'r world
   \<Rightarrow> (string + 't list) \<times> 'r world"
where
  "loadLoop q uid m [] out w = (Inr out, w)"
| "loadLoop q uid m ((tid, None) # rest) out w =
     (let R = q_redis q; K = q_keys q uid;
          w = snd (trip (ZREM R (k_Pending K) tid) w);
          w = snd (trip (ZREM R (k_Processing K) tid) w)
      in loadLoop q uid m rest out w)"
| "loadLoop q uid m ((tid, Some val) # rest) out w =
     (case (case c_Keyed (q_codec q) of
              Some keyed \<Rightarrow> keyed val tid (bizOf m tid)
            | None \<Rightarrow> c_Unmarshal (q_codec q) val) of
        Inl e \<Rightarrow> (Inl (''unmarshal timer uid='' @ show_nat uid @ '' timer='' @ tid @ '': '' @ e), w)
      | Inr rec \<Rightarrow> loadLoop q uid m rest (out @ [rec]) w)"

definition LoadByTimerIDs :: "('t, 'r) Queue \<Rightarrow> nat \<Rightarrow> string list \<Rightarrow> 'r world \<Rightarrow> (string + 't list) \<times> 'r world" where
  "LoadByTimerIDs q uid ids w =
     (if ids = [] then (Inr [], w)
      else let R = q_redis q; K = q_keys q uid
           in case trip (\<lambda>s. (map (\<lambda>tid. HGET R (k_Data K) tid s) ids, s)) w of
                (Inl e, w) \<Rightarrow> (Inl (''hmget timer data uid='' @ show_nat uid @ '': '' @ e), w)
              | (Inr vals, w) \<Rightarrow>
                  (case c_Keyed (q_codec q) of
                     None \<Rightarrow> loadLoop q uid Map.empty (zip ids vals) [] w
                   | Some _ \<Rightarrow>
                       (case businessIDsByTimerID R K w of
                          (Inl e, w) \<Rightarrow> (Inl e, w)
                        | (Inr m, w) \<Rightarrow> loadLoop q uid m (zip ids vals) [] w)))"

definition LoadActiveByUID :: "('t, 'r) Queue \<Rightarrow> nat \<Rightarrow> 'r world \<Rightarrow> (string + 't list) \<times> 'r world" where
  "LoadActiveByUID q uid w =
     (let R = q_redis q; K = q_keys q uid
      in case trip (\<lambda>s. (ZRANGE R (k_Pending K) s, s)) w of
           (Inl e, w) \<Rightarrow> (Inl (''zrange pending uid='' @ show_nat uid @ '': '' @ e), w)
         | (Inr ids, w) \<Rightarrow>
             (case trip (\<lambda>s. (ZRANGE R (k_Processing K) s, s)) w of
                (Inl e, w) \<Rightarrow> (Inl (''zrange processing uid='' @ show_nat uid @ '': '' @ e), w)
              | (Inr procIDs, w) \<Rightarrow> LoadByTimerIDs q uid (ids @ procIDs) w))"

definition LoadWindowByUID :: "('t, 'r) Queue \<Rightarrow> nat \<Rightarrow> int \<Rightarrow> int \<Rightarrow> 'r world \<Rightarrow> (string + 't list) \<times> 'r world" where
  "LoadWindowByUID q uid window now w =
     (case trip (\<lambda>s. (ZRANGEBYSCORE (q_redis q) (k_Pending (q_keys q uid)) 0 ((now + window) div 1000000) s, s)) w of
        (Inl e, w) \<Rightarrow> (Inl (''zrangebyscore pending uid='' @ show_nat uid @ '': '' @ e), w)
      | (Inr ids, w) \<Rightarrow> LoadByTimerIDs q uid ids w)"

definition CountActiveByUID :: "('t, 'r) Queue \<Rightarrow> nat \<Rightarrow> 'r world \<Rightarrow> (string + nat) \<times> 'r world" where
  "CountActiveByUID q uid w =
     (let R = q_redis q; K = q_keys q uid
      in case trip (\<lambda>s. (length (ZRANGE R (k_Pending K) s), s)) w of
           (Inl e, w) \<Rightarrow> (Inl (''zcard pending uid='' @ show_nat uid @ '': '' @ e), w)
         | (Inr n, w) \<Rightarrow>
             (case trip (\<lambda>s. (length (ZRANGE R (k_Processing K) s), s)) w of
                (Inl e, w) \<Rightarrow> (Inl (''zcard processing uid='' @ show_nat uid @ '': '' @ e), w)
              | (Inr m, w) \<Rightarrow> (Inr (n + m), w)))"

section \<open>What an operation does to the store\<close>

text \<open>
  Every operation is a sequence of server actions, each one a script, a pipeline or a command; the
  invariants below are proved once per action.
\<close>

datatype action =
    AReplace string string
  | AWrite string int string string
  | AHDel string
  | ADrop string string
  | AClaim string string int
  | AComplete string string string
  | ARequeue string int int
  | AZRem bool string

fun act :: "('t, 'r) Queue \<Rightarrow> nat \<Rightarrow> action \<Rightarrow> 'r \<Rightarrow> 'r" where
  "act q uid (AReplace biz tid) s =
     (case HGET (q_redis q) (k_Index (q_keys q uid)) biz s of
        Some old \<Rightarrow> if old \<noteq> [] \<and> old \<noteq> tid then snd (eraseOld (q_redis q) (q_keys q uid) old s) else s
      | None \<Rightarrow> s)"
| "act q uid (AWrite tid due data biz) s = snd (writeRecord (q_redis q) (q_keys q uid) tid due data biz s)"
| "act q uid (AHDel tid) s = snd (HDEL (q_redis q) (k_Data (q_keys q uid)) tid s)"
| "act q uid (ADrop tid biz) s = snd (dropSets (q_redis q) (q_keys q uid) tid biz s)"
| "act q uid (AClaim tid owner dl) s = snd (claimScript (q_redis q) (q_lua q) (q_keys q uid) tid owner dl s)"
| "act q uid (AComplete tid owner biz) s = snd (completeScript (q_redis q) (q_lua q) (q_keys q uid) tid owner biz s)"
| "act q uid (ARequeue tid now due) s = snd (requeueScript (q_redis q) (q_lua q) (q_keys q uid) tid now due s)"
| "act q uid (AZRem pending tid) s =
     snd (ZREM (q_redis q) (if pending then k_Pending (q_keys q uid) else k_Processing (q_keys q uid)) tid s)"

text \<open>\<open>does q uid P s s'\<close>: some actions that satisfy \<open>P\<close> lead from \<open>s\<close> to \<open>s'\<close>.\<close>

definition does :: "('t, 'r) Queue \<Rightarrow> nat \<Rightarrow> (action \<Rightarrow> bool) \<Rightarrow> 'r \<Rightarrow> 'r \<Rightarrow> bool" where
  "does q uid P s s' \<longleftrightarrow> (\<exists>as. list_all P as \<and> s' = fold (act q uid) as s)"

lemma does_refl [simp]: "does q uid P s s"
  unfolding does_def by (rule exI [of _ "[]"]) simp

lemma does_trans: "does q uid P s1 s2 \<Longrightarrow> does q uid P s2 s3 \<Longrightarrow> does q uid P s1 s3"
  unfolding does_def by (metis fold_append comp_apply list_all_append)

lemma does_one: "P a \<Longrightarrow> does q uid P s (act q uid a s)"
  unfolding does_def by (rule exI [of _ "[a]"]) simp

lemma does_mono: "does q uid P s s' \<Longrightarrow> (\<And>a. P a \<Longrightarrow> P' a) \<Longrightarrow> does q uid P' s s'"
  unfolding does_def by (metis (full_types) list.pred_mono_strong)

lemma does_invariant:
  assumes "does q uid P s s'" and "I s" and "\<And>a s. P a \<Longrightarrow> I s \<Longrightarrow> I (act q uid a s)"
  shows "I s'"
proof -
  obtain as where as: "list_all P as" "s' = fold (act q uid) as s" using assms(1) by (auto simp: does_def)
  have "list_all P as \<Longrightarrow> I s \<Longrightarrow> I (fold (act q uid) as s)" for s
    by (induction as arbitrary: s) (simp_all add: assms(3))
  with as assms(2) show ?thesis by simp
qed

lemma tripE:
  assumes "trip f w = (r, w')"
  obtains "r = Inl ErrNet" and "w_store w' = w_store w"
  | "r = Inr (fst (f (w_store w)))" and "w_store w' = snd (f (w_store w))"
  using assms by (cases "w_net w (w_trips w)") (auto simp: trip_def Let_def split: prod.splits)

lemma trip_read: "trip (\<lambda>s. (g s, s)) w = (r, w') \<Longrightarrow> w_store w' = w_store w"
  by (erule tripE) simp_all

lemma trip_write: "trip f w = (r, w') \<Longrightarrow> w_store w' = w_store w \<or> w_store w' = snd (f (w_store w))"
  by (erule tripE) simp_all

lemma script_write: "runScript f w = (r, w') \<Longrightarrow> w_store w' = w_store w \<or> w_store w' = snd (f (w_store w))"
  by (auto simp: runScript_def split: prod.splits sum.splits dest!: trip_write)

lemma script_result: "runScript f w = (Inr a, w') \<Longrightarrow> f (w_store w) = (Inr a, w_store w')"
  by (auto simp: runScript_def split: prod.splits sum.splits elim!: tripE)

lemma biz_read: "businessIDsByTimerID R K w = (r, w') \<Longrightarrow> w_store w' = w_store w"
  by (auto simp: businessIDsByTimerID_def split: if_splits prod.splits sum.splits dest!: trip_read)

lemma load_read: "loadRecordByTimerID q uid tid w = (r, w') \<Longrightarrow> w_store w' = w_store w"
  by (auto simp: loadRecordByTimerID_def Let_def split: prod.splits sum.splits option.splits
      dest!: trip_read biz_read)

lemma byBusiness_read: "TimerIDByBusinessID q uid biz w = (r, w') \<Longrightarrow> w_store w' = w_store w"
  by (auto simp: TimerIDByBusinessID_def Let_def split: if_splits prod.splits sum.splits option.splits bool.splits
      dest!: trip_read)

lemma does_write: "trip f w = (r, w') \<Longrightarrow> (\<And>s. snd (f s) = act q uid a s) \<Longrightarrow> P a \<Longrightarrow> does q uid P (w_store w) (w_store w')"
  using does_one [of P a q uid "w_store w"] by (auto dest!: trip_write)

lemma does_script: "runScript f w = (r, w') \<Longrightarrow> (\<And>s. snd (f s) = act q uid a s) \<Longrightarrow> P a \<Longrightarrow> does q uid P (w_store w) (w_store w')"
  using does_one [of P a q uid "w_store w"] by (auto dest!: script_write)

text \<open>The actions of each operation.\<close>

fun addAct :: "string \<Rightarrow> string \<Rightarrow> action \<Rightarrow> bool" where
  "addAct biz tid (AReplace b t) = (b = biz \<and> t = tid)"
| "addAct biz tid (AWrite t due data b) = (b = biz \<and> t = tid)"
| "addAct biz tid a = False"

lemma does_replace:
  assumes "replaceOld (q_redis q) (q_keys q uid) biz tid w = (r, w')"
  shows "does q uid (addAct biz tid) (w_store w) (w_store w')"
proof (cases "biz = []")
  case True
  then show ?thesis using assms by (simp add: replaceOld_def)
next
  case False
  obtain r1 w1 where t1: "trip (\<lambda>s. (HGET (q_redis q) (k_Index (q_keys q uid)) biz s, s)) w = (r1, w1)"
    by (cases "trip (\<lambda>s. (HGET (q_redis q) (k_Index (q_keys q uid)) biz s, s)) w")
  note s1 = trip_read [OF t1]
  show ?thesis
  proof (cases "\<exists>old. r1 = Inr (Some old) \<and> old \<noteq> [] \<and> old \<noteq> tid")
    case True
    then obtain old where old: "r1 = Inr (Some old)" "old \<noteq> []" "old \<noteq> tid" by blast
    from t1 old(1) have h: "HGET (q_redis q) (k_Index (q_keys q uid)) biz (w_store w) = Some old"
      by (auto elim!: tripE)
    obtain r2 w2 where t2: "trip (eraseOld (q_redis q) (q_keys q uid) old) w1 = (r2, w2)"
      by (cases "trip (eraseOld (q_redis q) (q_keys q uid) old) w1")
    have "w' = w2" using assms False t1 t2 old by (auto simp: replaceOld_def split: sum.splits)
    moreover have "act q uid (AReplace biz tid) (w_store w) = snd (eraseOld (q_redis q) (q_keys q uid) old (w_store w))"
      using h old by simp
    ultimately show ?thesis
      using trip_write [OF t2] s1 does_one [of "addAct biz tid" "AReplace biz tid" q uid "w_store w"] by auto
  next
    case no: False
    then have "w' = w1" using assms False t1 by (auto simp: replaceOld_def split: sum.splits option.splits if_splits)
    then show ?thesis using s1 by simp
  qed
qed

lemma does_add:
  assumes "LedgerAdd q uid rec w = (r, w')"
  shows "does q uid (addAct (c_BusinessID (q_codec q) rec) (show_nat (c_TimerID (q_codec q) rec)))
    (w_store w) (w_store w')"
proof -
  let ?C = "q_codec q" and ?R = "q_redis q" and ?K = "q_keys q uid"
  let ?biz = "c_BusinessID ?C rec" and ?tid = "show_nat (c_TimerID ?C rec)"
  show ?thesis
  proof (cases "c_Marshal ?C (c_MarkPending ?C rec)")
    case (Inl e)
    then show ?thesis using assms by (simp add: LedgerAdd_def Let_def)
  next
    case (Inr data)
    obtain r1 w1 where rep: "replaceOld ?R ?K ?biz ?tid w = (r1, w1)" by (cases "replaceOld ?R ?K ?biz ?tid w")
    note d1 = does_replace [OF rep]
    let ?wr = "writeRecord ?R ?K ?tid (c_DueTimeMs ?C (c_MarkPending ?C rec)) data ?biz"
    obtain r2 w2 where wr: "trip ?wr w1 = (r2, w2)" by (cases "trip ?wr w1")
    have "does q uid (addAct ?biz ?tid) (w_store w1) (w_store w2)"
      by (rule does_write [OF wr, of q uid "AWrite ?tid (c_DueTimeMs ?C (c_MarkPending ?C rec)) data ?biz"]) simp_all
    with d1 have d2: "does q uid (addAct ?biz ?tid) (w_store w) (w_store w2)" by (rule does_trans)
    have "w' = w1 \<or> w' = w2"
      using assms Inr rep wr by (auto simp: LedgerAdd_def Let_def split: option.splits sum.splits)
    with d1 d2 show ?thesis by blast
  qed
qed

fun removeAct :: "string \<Rightarrow> action \<Rightarrow> bool" where
  "removeAct tid (AHDel t) = (t = tid)"
| "removeAct tid (ADrop t b) = (t = tid)"
| "removeAct tid a = False"

lemma does_remove:
  assumes "RemoveByTimerID q uid n w = (r, w')"
  shows "does q uid (removeAct (show_nat n)) (w_store w) (w_store w')"
proof -
  let ?R = "q_redis q" and ?K = "q_keys q uid" and ?tid = "show_nat n"
  obtain r0 w0 where l: "loadRecordByTimerID q uid ?tid w = (r0, w0)" by (cases "loadRecordByTimerID q uid ?tid w")
  obtain r1 w1 where h: "trip (HDEL ?R (k_Data ?K) ?tid) w0 = (r1, w1)" by (cases "trip (HDEL ?R (k_Data ?K) ?tid) w0")
  let ?b = "case r0 of Inr (Some rec) \<Rightarrow> c_BusinessID (q_codec q) rec | _ \<Rightarrow> []"
  obtain r2 w2 where d: "trip (dropSets ?R ?K ?tid ?b) w1 = (r2, w2)" by (cases "trip (dropSets ?R ?K ?tid ?b) w1")
  have 1: "does q uid (removeAct ?tid) (w_store w) (w_store w1)"
    using does_write [OF h, of q uid "AHDel ?tid" "removeAct ?tid"] load_read [OF l] by simp
  moreover have "does q uid (removeAct ?tid) (w_store w1) (w_store w2)"
    by (rule does_write [OF d, of q uid "ADrop ?tid ?b"]) simp_all
  ultimately have 2: "does q uid (removeAct ?tid) (w_store w) (w_store w2)" by (rule does_trans)
  have "w' = w1 \<or> w' = w2"
    using assms l h d by (auto simp: RemoveByTimerID_def Let_def split: sum.splits)
  with 1 2 show ?thesis by blast
qed

lemma does_claim:
  assumes "ClaimForProcessing q uid n owner lease now w = (r, w')"
  shows "does q uid (\<lambda>a. a = AClaim (show_nat n) owner ((now + lease) div 1000000)) (w_store w) (w_store w')"
  using assms
  by (auto simp: ClaimForProcessing_def Let_def split: if_splits prod.splits
      intro: does_script [where a = "AClaim (show_nat n) owner ((now + lease) div 1000000)"])

lemma does_complete:
  assumes "CompleteProcessing q uid n owner w = (r, w')"
  shows "does q uid (\<lambda>a. \<exists>biz. a = AComplete (show_nat n) owner biz) (w_store w) (w_store w')"
proof -
  let ?R = "q_redis q" and ?K = "q_keys q uid" and ?tid = "show_nat n"
  obtain r0 w0 where l: "loadRecordByTimerID q uid ?tid w = (r0, w0)" by (cases "loadRecordByTimerID q uid ?tid w")
  let ?b = "case r0 of Inr (Some rec) \<Rightarrow> c_BusinessID (q_codec q) rec | _ \<Rightarrow> []"
  obtain r1 w1 where s: "runScript (completeScript ?R (q_lua q) ?K ?tid owner ?b) w0 = (r1, w1)"
    by (cases "runScript (completeScript ?R (q_lua q) ?K ?tid owner ?b) w0")
  have "w' = w \<or> w' = w0 \<or> w' = w1"
    using assms l s by (auto simp: CompleteProcessing_def Let_def split: if_splits sum.splits option.splits)
  moreover have "does q uid (\<lambda>a. \<exists>biz. a = AComplete ?tid owner biz) (w_store w0) (w_store w1)"
    by (rule does_script [OF s, of q uid "AComplete ?tid owner ?b"]) auto
  ultimately show ?thesis using load_read [OF l] by auto
qed

fun requeueAct :: "int \<Rightarrow> action \<Rightarrow> bool" where
  "requeueAct now (ARequeue t n due) = (n = now)"
| "requeueAct now a = False"

lemma does_requeue_one:
  assumes "requeueProcessingTimer q uid tid now w = (r, w')"
  shows "does q uid (requeueAct now) (w_store w) (w_store w')"
proof -
  let ?R = "q_redis q" and ?K = "q_keys q uid"
  obtain r0 w0 where l: "loadRecordByTimerID q uid tid w = (r0, w0)" by (cases "loadRecordByTimerID q uid tid w")
  let ?due = "case r0 of Inr (Some rec) \<Rightarrow> c_DueTimeMs (q_codec q) rec | _ \<Rightarrow> 0"
  obtain r1 w1 where s: "runScript (requeueScript ?R (q_lua q) ?K tid now ?due) w0 = (r1, w1)"
    by (cases "runScript (requeueScript ?R (q_lua q) ?K tid now ?due) w0")
  have "w' = w0 \<or> w' = w1"
    using assms l s by (auto simp: requeueProcessingTimer_def Let_def split: sum.splits option.splits)
  moreover have "does q uid (requeueAct now) (w_store w0) (w_store w1)"
    by (rule does_script [OF s, of q uid "ARequeue tid now ?due"]) simp_all
  ultimately show ?thesis using load_read [OF l] by auto
qed

lemma does_requeueIDs:
  "requeueIDs q uid tids now n w = (r, w') \<Longrightarrow> does q uid (requeueAct now) (w_store w) (w_store w')"
proof (induction tids arbitrary: n w)
  case (Cons tid tids)
  obtain r1 w1 where 1: "requeueProcessingTimer q uid tid now w = (r1, w1)"
    by (cases "requeueProcessingTimer q uid tid now w")
  note d1 = does_requeue_one [OF 1]
  show ?case
  proof (cases r1)
    case (Inl e)
    then show ?thesis using Cons.prems 1 d1 by simp
  next
    case (Inr ok)
    then have "requeueIDs q uid tids now (if ok then Suc n else n) w1 = (r, w')" using Cons.prems 1 by simp
    from does_trans [OF d1 Cons.IH [OF this]] show ?thesis .
  qed
qed simp

lemma does_requeue:
  assumes "RequeueExpiredProcessing q [uid] now n w = (r, w')"
  shows "does q uid (requeueAct now) (w_store w) (w_store w')"
proof -
  let ?f = "\<lambda>s. (ZRANGEBYSCORE (q_redis q) (k_Processing (q_keys q uid)) 0 now s, s)"
  obtain r1 w1 where t: "trip ?f w = (r1, w1)" by (cases "trip ?f w")
  note s1 = trip_read [OF t]
  show ?thesis
  proof (cases r1)
    case (Inl e)
    then show ?thesis using assms t s1 by simp
  next
    case (Inr tids)
    obtain r2 w2 where i: "requeueIDs q uid tids now n w1 = (r2, w2)" by (cases "requeueIDs q uid tids now n w1")
    then have "w' = w2" using assms t Inr by (auto split: prod.splits option.splits)
    then show ?thesis using does_requeueIDs [OF i] s1 by simp
  qed
qed

fun zremAct :: "action \<Rightarrow> bool" where
  "zremAct (AZRem p t) = True"
| "zremAct a = False"

lemma does_loadLoop: "loadLoop q uid m xs out w = (r, w') \<Longrightarrow> does q uid zremAct (w_store w) (w_store w')"
proof (induction q uid m xs out w rule: loadLoop.induct)
  case (2 q uid m tid rest out w)
  let ?R = "q_redis q" and ?K = "q_keys q uid"
  obtain r1 w1 where 1: "trip (ZREM ?R (k_Pending ?K) tid) w = (r1, w1)" by (cases "trip (ZREM ?R (k_Pending ?K) tid) w")
  obtain r2 w2 where two: "trip (ZREM ?R (k_Processing ?K) tid) w1 = (r2, w2)" by (cases "trip (ZREM ?R (k_Processing ?K) tid) w1")
  have a: "does q uid zremAct (w_store w) (w_store w1)"
    by (rule does_write [OF 1, of q uid "AZRem True tid"]) simp_all
  have b: "does q uid zremAct (w_store w1) (w_store w2)"
    by (rule does_write [OF two, of q uid "AZRem False tid"]) simp_all
  have "loadLoop q uid m rest out w2 = (r, w')" using "2.prems" 1 two by (simp add: Let_def)
  then have "does q uid zremAct (w_store w2) (w_store w')" using "2.IH" 1 two by simp
  with does_trans [OF a b] show ?case by (rule does_trans)
next
  case (3 q uid m tid val rest out w)
  then show ?case by (auto split: sum.splits)
qed simp

lemma does_loadIDs: "LoadByTimerIDs q uid ids w = (r, w') \<Longrightarrow> does q uid zremAct (w_store w) (w_store w')"
proof -
  assume "LoadByTimerIDs q uid ids w = (r, w')"
  then show ?thesis
    by (auto simp: LoadByTimerIDs_def Let_def split: if_splits prod.splits sum.splits option.splits
        dest!: trip_read biz_read does_loadLoop)
qed

lemma does_loadActive: "LoadActiveByUID q uid w = (r, w') \<Longrightarrow> does q uid zremAct (w_store w) (w_store w')"
  by (auto simp: LoadActiveByUID_def Let_def split: prod.splits sum.splits dest!: trip_read does_loadIDs)

lemma does_loadWindow: "LoadWindowByUID q uid win now w = (r, w') \<Longrightarrow> does q uid zremAct (w_store w) (w_store w')"
  by (auto simp: LoadWindowByUID_def Let_def split: prod.splits sum.splits dest!: trip_read does_loadIDs)

section \<open>Histories\<close>

text \<open>The operations on the ledger of one user, in the order in which the server sees them.\<close>

datatype 't ledger_op =
    OpAdd 't
  | OpRemove nat
  | OpRemoveBusiness string
  | OpClaim nat string int int
  | OpComplete nat string
  | OpRequeue int
  | OpLoadActive
  | OpLoadWindow int int

fun ledger_step :: "('t, 'r) Queue \<Rightarrow> nat \<Rightarrow> 't ledger_op \<Rightarrow> 'r world \<Rightarrow> 'r world" where
  "ledger_step q uid (OpAdd rec) w = snd (LedgerAdd q uid rec w)"
| "ledger_step q uid (OpRemove n) w = snd (RemoveByTimerID q uid n w)"
| "ledger_step q uid (OpRemoveBusiness b) w = snd (RemoveByBusinessID q uid b w)"
| "ledger_step q uid (OpClaim n owner lease now) w = snd (ClaimForProcessing q uid n owner lease now w)"
| "ledger_step q uid (OpComplete n owner) w = snd (CompleteProcessing q uid n owner w)"
| "ledger_step q uid (OpRequeue now) w = snd (RequeueExpiredProcessing q [uid] now 0 w)"
| "ledger_step q uid OpLoadActive w = snd (LoadActiveByUID q uid w)"
| "ledger_step q uid (OpLoadWindow win now) w = snd (LoadWindowByUID q uid win now w)"

text \<open>The actions that an operation may use.\<close>

fun op_act :: "('t, 'r) Queue \<Rightarrow> 't ledger_op \<Rightarrow> action \<Rightarrow> bool" where
  "op_act q (OpAdd rec) a = addAct (c_BusinessID (q_codec q) rec) (show_nat (c_TimerID (q_codec q) rec)) a"
| "op_act q (OpRemove n) a = (\<exists>k. removeAct (show_nat k) a)"
| "op_act q (OpRemoveBusiness b) a = (\<exists>k. removeAct (show_nat k) a)"
| "op_act q (OpClaim n owner lease now) a = (a = AClaim (show_nat n) owner ((now + lease) div 1000000))"
| "op_act q (OpComplete n owner) a = (\<exists>biz. a = AComplete (show_nat n) owner biz)"
| "op_act q (OpRequeue now) a = requeueAct now a"
| "op_act q OpLoadActive a = zremAct a"
| "op_act q (OpLoadWindow win now) a = zremAct a"

lemma step_does: "does q uid (op_act q op) (w_store w) (w_store (ledger_step q uid op w))"
proof (cases op)
  case (OpAdd rec)
  then show ?thesis using does_add [of q uid rec w] by (cases "LedgerAdd q uid rec w") (auto intro: does_mono)
next
  case (OpRemove n)
  have "does q uid (removeAct (show_nat n)) (w_store w) (w_store (snd (RemoveByTimerID q uid n w)))"
    using does_remove [of q uid n w] by (cases "RemoveByTimerID q uid n w") auto
  from does_mono [OF this, of "op_act q op"] show ?thesis unfolding OpRemove by auto
next
  case (OpRemoveBusiness b)
  obtain r w1 where t: "TimerIDByBusinessID q uid b w = (r, w1)" by (cases "TimerIDByBusinessID q uid b w")
  have "does q uid (removeAct (show_nat n)) (w_store w1) (w_store (snd (RemoveByTimerID q uid n w1)))" for n
    using does_remove [of q uid n w1] by (cases "RemoveByTimerID q uid n w1") auto
  then have "does q uid (op_act q op) (w_store w1) (w_store (snd (RemoveByTimerID q uid n w1)))" for n
    unfolding OpRemoveBusiness by (rule does_mono) auto
  then show ?thesis unfolding OpRemoveBusiness
    using t byBusiness_read [OF t] by (auto simp: RemoveByBusinessID_def split: sum.split)
next
  case (OpClaim n owner lease now)
  then show ?thesis using does_claim [of q uid n owner lease now w] by (cases "ClaimForProcessing q uid n owner lease now w") (auto intro: does_mono)
next
  case (OpComplete n owner)
  then show ?thesis using does_complete [of q uid n owner w] by (cases "CompleteProcessing q uid n owner w") (auto intro: does_mono)
next
  case (OpRequeue now)
  then show ?thesis using does_requeue [of q uid now 0 w]
    by (cases "RequeueExpiredProcessing q [uid] now 0 w") (auto intro: does_mono simp del: RequeueExpiredProcessing.simps)
next
  case OpLoadActive
  then show ?thesis using does_loadActive [of q uid w] by (cases "LoadActiveByUID q uid w") (auto intro: does_mono)
next
  case (OpLoadWindow win now)
  then show ?thesis using does_loadWindow [of q uid win now w] by (cases "LoadWindowByUID q uid win now w") (auto intro: does_mono)
qed

section \<open>A claim is exclusive until its lease expires\<close>

lemma redis_laws:
  assumes "redis_ok R"
  shows "HGET R k' f' (HSET R k f v s) = (if k' = k \<and> f' = f then Some v else HGET R k' f' s)"
    "HGET R k' f' (snd (HDEL R k f s)) = (if k' = k \<and> f' = f then None else HGET R k' f' s)"
    "HGET R k' f' (ZADD R k x m s) = HGET R k' f' s"
    "HGET R k' f' (snd (ZREM R k m s)) = HGET R k' f' s"
    "ZSCORE R k' m' (ZADD R k x m s) = (if k' = k \<and> m' = m then Some x else ZSCORE R k' m' s)"
    "ZSCORE R k' m' (snd (ZREM R k m s)) = (if k' = k \<and> m' = m then None else ZSCORE R k' m' s)"
    "fst (ZREM R k m s) = (if ZSCORE R k m s = None then 0 else 1)"
    "ZSCORE R k' m' (HSET R k f v s) = ZSCORE R k' m' s"
    "ZSCORE R k' m' (snd (HDEL R k f s)) = ZSCORE R k' m' s"
  using assms by (simp_all only: redis_ok_def simp_thms if_cancel)

definition keys_ok :: "Keys \<Rightarrow> bool" where
  "keys_ok K \<longleftrightarrow> k_Pending K \<noteq> k_Processing K \<and> k_Data K \<noteq> k_Index K"

lemma procField_eq [simp]: "procField a = procField b \<longleftrightarrow> a = b"
  by (simp add: procField_def)

lemma show_nat_head: "\<exists>d cs. show_nat n = digit_char d # cs \<and> d < 10"
proof (induction n rule: show_nat.induct)
  case (1 n)
  show ?case
  proof (cases "n < 10")
    case True
    then show ?thesis by (subst show_nat.simps) auto
  next
    case False
    then obtain d cs where "show_nat (n div 10) = digit_char d # cs" "d < 10" using 1 by blast
    then show ?thesis using False by (subst show_nat.simps) auto
  qed
qed

lemma digit_char_not_underscore: "d < 10 \<Longrightarrow> digit_char d \<noteq> CHR ''_''"
proof
  assume "d < 10" and "digit_char d = CHR ''_''"
  then have "(of_char (char_of (48 + d) :: char) :: nat) = of_char (CHR ''_'')" by (simp add: digit_char_def)
  with \<open>d < 10\<close> show False by simp
qed

lemma procField_not_numeral [simp]: "procField a \<noteq> show_nat n" "show_nat n \<noteq> procField a"
proof -
  obtain d cs where "show_nat n = digit_char d # cs" "d < 10" using show_nat_head by blast
  then show "procField a \<noteq> show_nat n" "show_nat n \<noteq> procField a"
    using digit_char_not_underscore [of d] by (auto simp: procField_def)
qed

definition index_ok :: "'r Redis \<Rightarrow> Keys \<Rightarrow> 'r \<Rightarrow> bool" where
  "index_ok R K s \<longleftrightarrow> (\<forall>b v. HGET R (k_Index K) b s = Some v \<longrightarrow> (\<exists>n. v = show_nat n))"

definition leased :: "'r Redis \<Rightarrow> Keys \<Rightarrow> string \<Rightarrow> string \<Rightarrow> 'r \<Rightarrow> bool" where
  "leased R K tid meta s \<longleftrightarrow> ZSCORE R (k_Pending K) tid s = None
     \<and> (HGET R (k_Data K) tid s = None \<or> HGET R (k_Data K) (procField tid) s = Some meta) \<and> index_ok R K s"

text \<open>The actions that respect a lease on \<open>tid\<close> that runs until \<open>deadline\<close>.\<close>

fun honours :: "string \<Rightarrow> int \<Rightarrow> action \<Rightarrow> bool" where
  "honours tid deadline (AWrite t due data b) = (t \<noteq> tid \<and> (\<exists>n. t = show_nat n))"
| "honours tid deadline (AHDel t) = (\<exists>n. t = show_nat n)"
| "honours tid deadline (AClaim t owner dl) = (\<exists>n. t = show_nat n)"
| "honours tid deadline (AComplete t owner b) = (\<exists>n. t = show_nat n)"
| "honours tid deadline (ARequeue t now due) = (now < deadline)"
| "honours tid deadline a = True"

lemma index_keep:
  assumes "index_ok R K s" and "\<And>b v. HGET R (k_Index K) b s' = Some v \<Longrightarrow> HGET R (k_Index K) b s = Some v \<or> (\<exists>n. v = show_nat n)"
  shows "index_ok R K s'"
  using assms unfolding index_ok_def by blast

lemma leased_act:
  fixes q :: "('t, 'r) Queue"
  assumes redis: "redis_ok (q_redis q)" and lua: "lua_ok (q_lua q)" and keys: "keys_ok (q_keys q uid)"
    and resp: "honours (show_nat n) deadline a"
    and l: "leased (q_redis q) (q_keys q uid) (show_nat n) (cjson_encode (q_lua q) owner deadline) s"
  shows "leased (q_redis q) (q_keys q uid) (show_nat n) (cjson_encode (q_lua q) owner deadline) (act q uid a s)"
proof -
  let ?R = "q_redis q" and ?K = "q_keys q uid" and ?L = "q_lua q"
  note laws [simp] = redis_laws [OF redis]
  have k [simp]: "k_Pending ?K \<noteq> k_Processing ?K" "k_Processing ?K \<noteq> k_Pending ?K"
    "k_Data ?K \<noteq> k_Index ?K" "k_Index ?K \<noteq> k_Data ?K"
    using keys by (auto simp: keys_ok_def)
  have p: "ZSCORE ?R (k_Pending ?K) (show_nat n) s = None"
    and d: "HGET ?R (k_Data ?K) (show_nat n) s = None
      \<or> HGET ?R (k_Data ?K) (procField (show_nat n)) s = Some (cjson_encode ?L owner deadline)"
    and i: "index_ok ?R ?K s"
    using l by (simp_all add: leased_def)
  obtain obj where obj: "cjson_decode ?L (cjson_encode ?L owner deadline) = Some obj" "lo_deadline obj = Some deadline"
    using lua by (auto simp: lua_ok_def)
  show ?thesis
  proof (cases a)
    case (AReplace b t)
    show ?thesis
    proof (cases "HGET ?R (k_Index ?K) b s")
      case (Some old)
      then obtain m where m: "old = show_nat m" using i by (auto simp: index_ok_def)
      show ?thesis using l p d Some m unfolding AReplace
        by (auto simp: leased_def eraseOld_def Let_def intro: index_keep [OF i])
    qed (use l AReplace in simp)
  next
    case (AWrite t due data b)
    then obtain m where m: "t = show_nat m" "m \<noteq> n" using resp by auto
    have "index_ok ?R ?K (act q uid a s)" unfolding AWrite
      by (rule index_keep [OF i]) (auto simp: writeRecord_def Let_def m split: if_splits)
    then show ?thesis using p d m unfolding AWrite
      by (auto simp: leased_def writeRecord_def Let_def)
  next
    case (AHDel t)
    then obtain m where "t = show_nat m" using resp by auto
    then show ?thesis using p d unfolding AHDel by (auto simp: leased_def intro: index_keep [OF i])
  next
    case (ADrop t b)
    show ?thesis using p d unfolding ADrop
      by (auto simp: leased_def dropSets_def Let_def intro: index_keep [OF i] split: if_splits)
  next
    case (AClaim t o' dl)
    then obtain m where m: "t = show_nat m" using resp by auto
    show ?thesis using p d m unfolding AClaim
      by (auto simp: leased_def claimScript_def Let_def split_beta intro: index_keep [OF i] split: if_splits)
  next
    case (AComplete t o' b)
    then obtain m where m: "t = show_nat m" using resp by auto
    have "leased ?R ?K (show_nat n) (cjson_encode ?L owner deadline) (completeErase ?R ?K t b s)"
      using p d m by (auto simp: leased_def completeErase_def Let_def intro: index_keep [OF i] split: if_splits)
    then show ?thesis using l unfolding AComplete
      by (simp add: completeScript_def split: option.split)
  next
    case (ARequeue t now due)
    then have lt: "now < deadline" using resp by simp
    have del: "leased ?R ?K (show_nat n) (cjson_encode ?L owner deadline)
        (snd (HDEL ?R (k_Data ?K) (procField t) (snd (ZREM ?R (k_Processing ?K) t s))))"
      if "HGET ?R (k_Data ?K) t s = None"
      using p d that by (auto simp: leased_def intro: index_keep [OF i])
    have mv: "leased ?R ?K (show_nat n) (cjson_encode ?L owner deadline) (requeueMove ?R ?K t due s)"
      if "t \<noteq> show_nat n"
      using p d that by (auto simp: leased_def requeueMove_def Let_def intro: index_keep [OF i])
    show ?thesis
    proof (cases "t = show_nat n")
      case True
      then show ?thesis using d del l obj lt unfolding ARequeue
        by (auto simp: requeueScript_def Let_def split: option.split)
    next
      case False
      then show ?thesis using del mv l unfolding ARequeue
        by (simp add: requeueScript_def Let_def split: option.split)
    qed
  next
    case (AZRem b t)
    show ?thesis using p d unfolding AZRem by (auto simp: leased_def intro: index_keep [OF i])
  qed
qed

lemma index_act:
  fixes q :: "('t, 'r) Queue"
  assumes redis: "redis_ok (q_redis q)" and keys: "keys_ok (q_keys q uid)" and a: "op_act q op a"
    and i: "index_ok (q_redis q) (q_keys q uid) s"
  shows "index_ok (q_redis q) (q_keys q uid) (act q uid a s)"
proof -
  let ?R = "q_redis q" and ?K = "q_keys q uid"
  note laws [simp] = redis_laws [OF redis]
  have k [simp]: "k_Data ?K \<noteq> k_Index ?K" "k_Index ?K \<noteq> k_Data ?K" using keys by (auto simp: keys_ok_def)
  show ?thesis
  proof (cases a)
    case (AWrite t due data b)
    then obtain m where "t = show_nat m" using a by (cases op) auto
    then show ?thesis unfolding AWrite
      by (intro index_keep [OF i]) (auto simp: writeRecord_def Let_def split: if_splits)
  qed (auto simp: eraseOld_def dropSets_def claimScript_def completeScript_def completeErase_def requeueScript_def
      requeueMove_def Let_def split_beta intro: index_keep [OF i] split: option.splits if_splits)
qed

lemma index_history:
  fixes q :: "('t, 'r) Queue"
  assumes "redis_ok (q_redis q)" and "keys_ok (q_keys q uid)"
  shows "index_ok (q_redis q) (q_keys q uid) (w_store w) \<Longrightarrow>
    index_ok (q_redis q) (q_keys q uid) (w_store (fold (ledger_step q uid) ops w))"
proof (induction ops arbitrary: w)
  case (Cons op ops)
  have "index_ok (q_redis q) (q_keys q uid) (w_store (ledger_step q uid op w))"
    by (rule does_invariant [OF step_does, where I = "index_ok (q_redis q) (q_keys q uid)"])
      (use Cons.prems index_act [OF assms] in auto)
  then show ?case using Cons.IH by simp
qed simp

text \<open>The operations that leave a lease alone: no new \<open>Add\<close> of the timer, no requeue after the deadline.\<close>

fun op_safe :: "('t, 'r) Queue \<Rightarrow> nat \<Rightarrow> int \<Rightarrow> 't ledger_op \<Rightarrow> bool" where
  "op_safe q n deadline (OpAdd rec) = (c_TimerID (q_codec q) rec \<noteq> n)"
| "op_safe q n deadline (OpRequeue now) = (now < deadline)"
| "op_safe q n deadline op = True"

lemma op_honours: "op_safe q n deadline op \<Longrightarrow> op_act q op a \<Longrightarrow> honours (show_nat n) deadline a"
  by (cases op; cases a) auto

lemma leased_history:
  fixes q :: "('t, 'r) Queue"
  assumes "redis_ok (q_redis q)" and "lua_ok (q_lua q)" and "keys_ok (q_keys q uid)"
  shows "leased (q_redis q) (q_keys q uid) (show_nat n) (cjson_encode (q_lua q) owner deadline) (w_store w) \<Longrightarrow>
    list_all (op_safe q n deadline) ops \<Longrightarrow>
    leased (q_redis q) (q_keys q uid) (show_nat n) (cjson_encode (q_lua q) owner deadline)
      (w_store (fold (ledger_step q uid) ops w))"
proof (induction ops arbitrary: w)
  case (Cons op ops)
  let ?I = "leased (q_redis q) (q_keys q uid) (show_nat n) (cjson_encode (q_lua q) owner deadline)"
  have "?I (w_store (ledger_step q uid op w))"
    by (rule does_invariant [OF step_does, where I = ?I])
      (use Cons.prems leased_act [OF assms] op_honours [of q n deadline op] in auto)
  then show ?case using Cons.IH Cons.prems(2) by simp
qed simp

lemma claim_true:
  "ClaimForProcessing q uid n owner lease now w = (Returns (Inr True), w') \<Longrightarrow>
     claimScript (q_redis q) (q_lua q) (q_keys q uid) (show_nat n) owner ((now + lease) div 1000000) (w_store w)
       = (Inr 1, w_store w')"
  by (auto simp: ClaimForProcessing_def Let_def map_sum_def split: if_splits prod.splits sum.splits dest!: script_result)

lemma claim_leases:
  fixes q :: "('t, 'r) Queue"
  assumes redis: "redis_ok (q_redis q)" and keys: "keys_ok (q_keys q uid)"
    and i: "index_ok (q_redis q) (q_keys q uid) s"
    and c: "claimScript (q_redis q) (q_lua q) (q_keys q uid) (show_nat n) owner deadline s = (Inr 1, s')"
  shows "leased (q_redis q) (q_keys q uid) (show_nat n) (cjson_encode (q_lua q) owner deadline) s'"
    "HGET (q_redis q) (k_Data (q_keys q uid)) (procField (show_nat n)) s' = Some (cjson_encode (q_lua q) owner deadline)"
proof -
  let ?R = "q_redis q" and ?K = "q_keys q uid"
  note laws [simp] = redis_laws [OF redis]
  have k: "k_Pending ?K \<noteq> k_Processing ?K" "k_Index ?K \<noteq> k_Data ?K" using keys by (auto simp: keys_ok_def)
  have s': "s' = ZADD ?R (k_Processing ?K) deadline (show_nat n)
      (HSET ?R (k_Data ?K) (procField (show_nat n)) (cjson_encode (q_lua q) owner deadline)
        (snd (ZREM ?R (k_Pending ?K) (show_nat n) s)))"
    using c by (auto simp: claimScript_def Let_def split_beta split: if_splits)
  show "leased ?R ?K (show_nat n) (cjson_encode (q_lua q) owner deadline) s'"
    using k by (auto simp: leased_def s' intro: index_keep [OF i])
  show "HGET ?R (k_Data ?K) (procField (show_nat n)) s' = Some (cjson_encode (q_lua q) owner deadline)"
    by (simp add: s')
qed

lemma leased_no_claim:
  fixes q :: "('t, 'r) Queue"
  assumes redis: "redis_ok (q_redis q)" and l: "leased (q_redis q) (q_keys q uid) (show_nat n) meta (w_store w)"
  shows "fst (ClaimForProcessing q uid n owner lease now w) \<noteq> Returns (Inr True)"
proof
  assume "fst (ClaimForProcessing q uid n owner lease now w) = Returns (Inr True)"
  then obtain w' where "ClaimForProcessing q uid n owner lease now w = (Returns (Inr True), w')"
    by (cases "ClaimForProcessing q uid n owner lease now w") auto
  from claim_true [OF this] l redis_laws(7) [OF redis] show False
    by (auto simp: claimScript_def Let_def leased_def split_beta split: if_splits)
qed


section \<open>A timer is pending or processing, never both\<close>

definition disjoint_sets :: "'r Redis \<Rightarrow> Keys \<Rightarrow> 'r \<Rightarrow> bool" where
  "disjoint_sets R K s \<longleftrightarrow> (\<forall>t. ZSCORE R (k_Pending K) t s = None \<or> ZSCORE R (k_Processing K) t s = None)"

lemma disjoint_act:
  fixes q :: "('t, 'r) Queue"
  assumes redis: "redis_ok (q_redis q)" and keys: "keys_ok (q_keys q uid)"
    and i: "disjoint_sets (q_redis q) (q_keys q uid) s"
  shows "disjoint_sets (q_redis q) (q_keys q uid) (act q uid a s)"
proof -
  let ?R = "q_redis q" and ?K = "q_keys q uid"
  note laws [simp] = redis_laws [OF redis]
  have k [simp]: "k_Pending ?K \<noteq> k_Processing ?K" "k_Processing ?K \<noteq> k_Pending ?K"
    using keys by (auto simp: keys_ok_def)
  have e: "disjoint_sets ?R ?K (completeErase ?R ?K t b s)" "disjoint_sets ?R ?K (requeueMove ?R ?K t d s)" for t b d
    using i by (simp_all add: disjoint_sets_def completeErase_def requeueMove_def Let_def)
  show ?thesis
    using i e
    by (cases a) (simp_all add: disjoint_sets_def eraseOld_def writeRecord_def dropSets_def claimScript_def completeScript_def
        requeueScript_def Let_def split_beta split: option.split)
qed

lemma disjoint_history:
  fixes q :: "('t, 'r) Queue"
  assumes "redis_ok (q_redis q)" and "keys_ok (q_keys q uid)"
  shows "disjoint_sets (q_redis q) (q_keys q uid) (w_store w) \<Longrightarrow>
    disjoint_sets (q_redis q) (q_keys q uid) (w_store (fold (ledger_step q uid) ops w))"
proof (induction ops arbitrary: w)
  case (Cons op ops)
  have "disjoint_sets (q_redis q) (q_keys q uid) (w_store (ledger_step q uid op w))"
    by (rule does_invariant [OF step_does, where I = "disjoint_sets (q_redis q) (q_keys q uid)"])
      (use Cons.prems disjoint_act [OF assms] in auto)
  then show ?case using Cons.IH by simp
qed simp

lemma count_result:
  assumes "CountActiveByUID q uid w = (Inr c, w')"
  shows "c = length (ZRANGE (q_redis q) (k_Pending (q_keys q uid)) (w_store w))
    + length (ZRANGE (q_redis q) (k_Processing (q_keys q uid)) (w_store w))"
  using assms
  by (auto simp: CountActiveByUID_def Let_def split: prod.splits sum.splits elim!: tripE)

text \<open>
  After any history of a user's ledger no timer is pending and processing at once, so a successful
  \<open>CountActiveByUID\<close> returns the number of its active timers, each counted once.
\<close>

theorem active_timers_counted_once:
  fixes q :: "('t, 'r) Queue"
  assumes "redis_ok (q_redis q)" and "keys_ok (q_keys q uid)"
    and "\<forall>k t. ZSCORE (q_redis q) k t (w_store w0) = None"
    and "w = fold (ledger_step q uid) ops w0"
    and "CountActiveByUID q uid w = (Inr c, w')"
  shows "c = card {t. ZSCORE (q_redis q) (k_Pending (q_keys q uid)) t (w_store w) \<noteq> None
                    \<or> ZSCORE (q_redis q) (k_Processing (q_keys q uid)) t (w_store w) \<noteq> None}"
proof -
  let ?R = "q_redis q" and ?K = "q_keys q uid" and ?s = "w_store w"
  let ?P = "ZRANGE ?R (k_Pending ?K) ?s" and ?Q = "ZRANGE ?R (k_Processing ?K) ?s"
  have "disjoint_sets ?R ?K (w_store w0)" using assms(3) by (simp add: disjoint_sets_def)
  note dj = disjoint_history [OF assms(1,2) this, of ops, folded assms(4)]
  have z: "distinct (ZRANGE ?R k ?s)" "set (ZRANGE ?R k ?s) = {m. ZSCORE ?R k m ?s \<noteq> None}" for k
    using assms(1) by (simp_all add: redis_ok_def)
  have "x \<notin> set ?Q" if "x \<in> set ?P" for x
    using dj [unfolded disjoint_sets_def, rule_format, of x] that by (auto simp: z(2))
  then have "set ?P \<inter> set ?Q = {}" by blast
  then have "card (set ?P \<union> set ?Q) = length ?P + length ?Q"
    by (simp add: card_Un_disjoint distinct_card z(1))
  moreover have "set ?P \<union> set ?Q = {t. ZSCORE ?R (k_Pending ?K) t ?s \<noteq> None \<or> ZSCORE ?R (k_Processing ?K) t ?s \<noteq> None}"
    by (auto simp: z(2))
  ultimately show ?thesis using count_result [OF assms(5)] by simp
qed

section \<open>A claimant survives a new schedule\<close>

lemma claimant_addAct:
  fixes q :: "('t, 'r) Queue"
  assumes redis: "redis_ok (q_redis q)" and keys: "keys_ok (q_keys q uid)" and a: "addAct biz (show_nat n) a"
    and i: "index_ok (q_redis q) (q_keys q uid) s
      \<and> HGET (q_redis q) (k_Data (q_keys q uid)) (procField (show_nat n)) s = Some meta"
  shows "index_ok (q_redis q) (q_keys q uid) (act q uid a s)
    \<and> HGET (q_redis q) (k_Data (q_keys q uid)) (procField (show_nat n)) (act q uid a s) = Some meta"
proof -
  let ?R = "q_redis q" and ?K = "q_keys q uid"
  note laws [simp] = redis_laws [OF redis]
  have k [simp]: "k_Data ?K \<noteq> k_Index ?K" "k_Index ?K \<noteq> k_Data ?K" using keys by (auto simp: keys_ok_def)
  note ix = conjunct1 [OF i]
  show ?thesis
  proof (cases a)
    case (AReplace b t)
    show ?thesis
    proof (cases "HGET ?R (k_Index ?K) b s")
      case (Some old)
      then obtain m where "old = show_nat m" using ix by (auto simp: index_ok_def)
      then show ?thesis using i a Some unfolding AReplace
        by (auto simp: eraseOld_def Let_def intro: index_keep [OF ix])
    qed (use i AReplace in simp)
  next
    case (AWrite t due data b)
    then have "t = show_nat n" using a by simp
    moreover have "index_ok ?R ?K (act q uid a s)" unfolding AWrite
      by (rule index_keep [OF ix]) (auto simp: writeRecord_def Let_def \<open>t = show_nat n\<close> split: if_splits)
    ultimately show ?thesis using i unfolding AWrite by (simp add: writeRecord_def Let_def)
  qed (use a in simp_all)
qed

lemma add_pending:
  fixes q :: "('t, 'r) Queue"
  assumes redis: "redis_ok (q_redis q)" and add: "LedgerAdd q uid rec w = (None, w')"
    and keys: "keys_ok (q_keys q uid)"
  shows "ZSCORE (q_redis q) (k_Pending (q_keys q uid)) (show_nat (c_TimerID (q_codec q) rec)) (w_store w')
    = Some (c_DueTimeMs (q_codec q) (c_MarkPending (q_codec q) rec))"
proof -
  note laws [simp] = redis_laws [OF redis]
  show ?thesis
    using add keys
    by (auto simp: LedgerAdd_def Let_def keys_ok_def writeRecord_def split: sum.splits prod.splits option.splits elim!: tripE)
qed

lemma complete_refused:
  fixes q :: "('t, 'r) Queue"
  assumes lua: "lua_ok (q_lua q)" and B: "owner \<noteq> claimant"
    and meta: "HGET (q_redis q) (k_Data (q_keys q uid)) (procField (show_nat n)) (w_store w)
      = Some (cjson_encode (q_lua q) claimant deadline)"
    and c: "CompleteProcessing q uid n owner w = (r, w')"
  shows "r \<noteq> Returns (Inr True) \<and> w_store w' = w_store w"
proof -
  let ?R = "q_redis q" and ?K = "q_keys q uid" and ?tid = "show_nat n"
  obtain obj where obj: "cjson_decode (q_lua q) (cjson_encode (q_lua q) claimant deadline) = Some obj"
    "lo_owner obj = Some claimant" using lua by (auto simp: lua_ok_def)
  have sc: "completeScript ?R (q_lua q) ?K ?tid owner b (w_store w) = (Inr 0, w_store w)" for b
    using meta obj B by (simp add: completeScript_def split: option.split)
  obtain r0 w0 where l: "loadRecordByTimerID q uid ?tid w = (r0, w0)" by (cases "loadRecordByTimerID q uid ?tid w")
  note s0 = load_read [OF l]
  let ?b = "case r0 of Inr (Some rec) \<Rightarrow> c_BusinessID (q_codec q) rec | _ \<Rightarrow> []"
  obtain r1 w1 where s: "runScript (completeScript ?R (q_lua q) ?K ?tid owner ?b) w0 = (r1, w1)"
    by (cases "runScript (completeScript ?R (q_lua q) ?K ?tid owner ?b) w0")
  have "w_store w1 = w_store w" using script_write [OF s] sc s0 by auto
  moreover have "r1 \<noteq> Inr 1"
  proof
    assume "r1 = Inr 1"
    from script_result [OF s [unfolded this]] sc [of ?b] s0 show False by simp
  qed
  moreover have "(r, w') = (Panics ''redisqueue: owner must be configured'', w) \<or> (\<exists>e. (r, w') = (Returns (Inl e), w0))
      \<or> (r, w') = (Returns (map_sum id (\<lambda>n. n = 1) r1), w1)"
    using c l s by (auto simp: CompleteProcessing_def Let_def split: if_splits sum.splits option.splits)
  ultimately show ?thesis using s0 by (cases r1) auto
qed

text \<open>
  Adding a timer again while it is claimed makes it pending without forgetting the claimant, so that
  \<open>CompleteProcessing\<close> by anybody else is refused and the row stays, although the comment of the script
  says that a pending timer has no claimant and that completing it must remove the row.
\<close>

theorem readded_timer_keeps_claimant:
  fixes q :: "('t, 'r) Queue"
  assumes "redis_ok (q_redis q)" and "lua_ok (q_lua q)" and "keys_ok (q_keys q uid)"
    and "\<forall>b. HGET (q_redis q) (k_Index (q_keys q uid)) b (w_store w0) = None"
    and "ClaimForProcessing q uid (c_TimerID (q_codec q) rec) claimant lease now (fold (ledger_step q uid) ops w0)
      = (Returns (Inr True), w1)"
    and "LedgerAdd q uid rec w1 = (None, w2)"
    and "owner \<noteq> claimant"
    and "CompleteProcessing q uid (c_TimerID (q_codec q) rec) owner w2 = (r, w3)"
  shows "r \<noteq> Returns (Inr True)
    \<and> ZSCORE (q_redis q) (k_Pending (q_keys q uid)) (show_nat (c_TimerID (q_codec q) rec)) (w_store w3)
        = Some (c_DueTimeMs (q_codec q) (c_MarkPending (q_codec q) rec))"
proof -
  let ?R = "q_redis q" and ?K = "q_keys q uid" and ?n = "c_TimerID (q_codec q) rec"
  let ?m = "cjson_encode (q_lua q) claimant ((now + lease) div 1000000)"
  have "index_ok ?R ?K (w_store w0)" using assms(4) by (simp add: index_ok_def)
  note i = index_history [OF assms(1,3) this, of ops]
  note cl = claim_true [OF assms(5)]
  from claim_leases [OF assms(1,3) i cl] have "index_ok ?R ?K (w_store w1) \<and> HGET ?R (k_Data ?K) (procField (show_nat ?n)) (w_store w1) = Some ?m"
    by (simp add: leased_def)
  then have "index_ok ?R ?K (w_store w2) \<and> HGET ?R (k_Data ?K) (procField (show_nat ?n)) (w_store w2) = Some ?m"
    by (rule does_invariant [OF does_add [OF assms(6)],
          where I = "\<lambda>s. index_ok ?R ?K s \<and> HGET ?R (k_Data ?K) (procField (show_nat ?n)) s = Some ?m"])
      (rule claimant_addAct [OF assms(1,3)])
  with complete_refused [OF assms(2,7) _ assms(8)] add_pending [OF assms(1,6,3)] show ?thesis by simp
qed

section \<open>A store in memory\<close>

text \<open>An instance of the parameters: hashes and sorted sets as association lists.\<close>

type_synonym mem_store = "((string \<times> string) \<times> string) list \<times> ((string \<times> string) \<times> int) list"

definition put :: "'k \<Rightarrow> 'v \<Rightarrow> ('k \<times> 'v) list \<Rightarrow> ('k \<times> 'v) list" where
  "put k v al = (k, v) # filter (\<lambda>p. fst p \<noteq> k) al"

definition del :: "'k \<Rightarrow> ('k \<times> 'v) list \<Rightarrow> ('k \<times> 'v) list" where
  "del k al = filter (\<lambda>p. fst p \<noteq> k) al"

definition members :: "string \<Rightarrow> ((string \<times> string) \<times> 'v) list \<Rightarrow> string list" where
  "members k al = remdups (map (snd \<circ> fst) (filter (\<lambda>p. fst (fst p) = k) al))"

definition mem_redis :: "mem_store Redis" where
  "mem_redis = \<lparr>
     HGET = \<lambda>k f s. map_of (fst s) (k, f),
     HSET = \<lambda>k f v s. (put (k, f) v (fst s), snd s),
     HDEL = \<lambda>k f s. (if map_of (fst s) (k, f) = None then 0 else 1, (del (k, f) (fst s), snd s)),
     HGETALL = \<lambda>k s. map (\<lambda>f. (f, the (map_of (fst s) (k, f)))) (members k (fst s)),
     ZADD = \<lambda>k x m s. (fst s, put (k, m) x (snd s)),
     ZREM = \<lambda>k m s. (if map_of (snd s) (k, m) = None then 0 else 1, (fst s, del (k, m) (snd s))),
     ZSCORE = \<lambda>k m s. map_of (snd s) (k, m),
     ZRANGE = \<lambda>k s. members k (snd s),
     ZRANGEBYSCORE = \<lambda>k lo hi s. filter (\<lambda>m. case map_of (snd s) (k, m) of None \<Rightarrow> False | Some x \<Rightarrow> lo \<le> x \<and> x \<le> hi)
       (members k (snd s))\<rparr>"

lemma map_of_del: "map_of (del k al) k' = (if k' = k then None else map_of al k')"
  by (induction al) (auto simp: del_def)

lemma map_of_put: "map_of (put k v al) k' = (if k' = k then Some v else map_of al k')"
  using map_of_del [of k al k'] by (simp add: put_def del_def)

lemma set_members: "set (members k al) = {m. map_of al (k, m) \<noteq> None}"
proof -
  have "m \<in> set (members k al) \<longleftrightarrow> (k, m) \<in> fst ` set al" for m
    by (force simp: members_def)
  then show ?thesis by (auto simp: map_of_eq_None_iff)
qed

lemma mem_redis_ok: "redis_ok mem_redis"
proof -
  have d: "distinct (members k al)" for k and al :: "((string \<times> string) \<times> int) list" by (simp add: members_def)
  show ?thesis
    unfolding redis_ok_def by (auto simp: mem_redis_def map_of_put map_of_del set_members d split: option.splits)
qed

lemma digit_char_digit: "d < 10 \<Longrightarrow> is_digit (digit_char d) \<and> digit_val (digit_char d) = d"
  by (simp add: is_digit_def digit_val_def digit_char_def)

lemma show_nat_digits: "list_all is_digit (show_nat n)"
proof (induction n rule: show_nat.induct)
  case (1 n)
  then show ?case by (subst show_nat.simps) (simp add: digit_char_digit)
qed

lemma parse_show: "foldl (\<lambda>acc c. 10 * acc + digit_val c) 0 (show_nat n) = n"
proof (induction n rule: show_nat.induct)
  case (1 n)
  then show ?case by (subst show_nat.simps) (auto simp: digit_char_digit)
qed

lemma parseUint_show: "n < 2 ^ 64 \<Longrightarrow> parseUint (show_nat n) = Inr n"
  using parse_show [of n] show_nat_digits [of n] show_nat_nonempty [of n] by (simp add: parseUint_def Let_def)

definition demo_encode :: "string \<Rightarrow> int \<Rightarrow> string" where
  "demo_encode owner deadline =
     (if deadline < 0 then CHR ''-'' else CHR ''+'') # show_nat (nat \<bar>deadline\<bar>) @ CHR '':'' # owner"

definition demo_decode :: "string \<Rightarrow> lua_obj option" where
  "demo_decode s =
     (let n = int (foldl (\<lambda>acc c. 10 * acc + digit_val c) 0 (takeWhile is_digit (tl s)))
      in Some \<lparr>lo_owner = Some (tl (dropWhile is_digit (tl s))),
               lo_deadline = Some (if hd s = CHR ''-'' then - n else n),
               lo_timer_status = None, lo_processing_owner = None, lo_processing_deadline = None\<rparr>)"

definition demo_lua :: Lua where
  "demo_lua = \<lparr>cjson_encode = demo_encode, cjson_decode = demo_decode\<rparr>"

lemma demo_lua_ok: "lua_ok demo_lua"
proof -
  have colon: "\<not> is_digit (CHR '':'')" by (simp add: is_digit_def)
  have "takeWhile is_digit (show_nat n @ CHR '':'' # o') = show_nat n"
    "dropWhile is_digit (show_nat n @ CHR '':'' # o') = CHR '':'' # o'" for n o'
    using show_nat_digits [of n] colon by (simp_all add: list_all_iff takeWhile_append2 dropWhile_append2)
  then show ?thesis
    by (simp add: lua_ok_def demo_lua_def demo_encode_def demo_decode_def parse_show Let_def)
qed

type_synonym demo_record = "nat \<times> string \<times> int"

definition demo_codec :: "demo_record Codec" where
  "demo_codec = \<lparr>c_Marshal = \<lambda>r. Inr (show_nat (fst r)), c_Unmarshal = \<lambda>s. Inr (foldl (\<lambda>acc c. 10 * acc + digit_val c) 0 s, [], 0),
     c_TimerID = fst, c_BusinessID = fst \<circ> snd, c_DueTimeMs = snd \<circ> snd, c_MarkPending = id, c_Keyed = None\<rparr>"

definition demo_keys :: "nat \<Rightarrow> Keys" where
  "demo_keys uid = \<lparr>k_Pending = ''p'', k_Processing = ''q'', k_Data = ''d'', k_Index = ''i''\<rparr>"

definition demo_ledger :: "(demo_record, mem_store) Queue" where
  "demo_ledger = NewQueue mem_redis demo_lua demo_keys demo_codec"

definition demo_world :: "mem_store world" where
  "demo_world = \<lparr>w_store = ([], []), w_net = \<lambda>_. True, w_trips = 0\<rparr>"

lemma demo_ledger_params:
  "redis_ok (q_redis demo_ledger)" "lua_ok (q_lua demo_ledger)" "keys_ok (q_keys demo_ledger uid)"
  "\<forall>b. HGET (q_redis demo_ledger) (k_Index (q_keys demo_ledger uid)) b (w_store demo_world) = None"
  "\<forall>k t. ZSCORE (q_redis demo_ledger) k t (w_store demo_world) = None"
  using mem_redis_ok demo_lua_ok
  by (simp_all add: demo_ledger_def NewQueue_def keys_ok_def demo_keys_def mem_redis_def demo_world_def)

definition demo_claimed :: "bool outcome \<times> mem_store world" where
  "demo_claimed = ClaimForProcessing demo_ledger 1 7 ''A'' 20000000 0
     (fold (ledger_step demo_ledger 1) [OpAdd (7, ''b'', 5)] demo_world)"

lemma demo_claimed_eq:
  "ClaimForProcessing demo_ledger 1 7 ''A'' 20000000 0
     (fold (ledger_step demo_ledger 1) [OpAdd (7, ''b'', 5)] demo_world) = (Returns (Inr True), snd demo_claimed)"
proof -
  have "fst demo_claimed = Returns (Inr True)" by code_simp
  then show ?thesis by (metis demo_claimed_def prod.collapse)
qed


theorem active_timers_counted_once_witness:
  "\<exists>w'. CountActiveByUID demo_ledger 1 (snd demo_claimed) = (Inr 1, w')
     \<and> card {t. ZSCORE mem_redis ''p'' t (w_store (snd demo_claimed)) \<noteq> None
              \<or> ZSCORE mem_redis ''q'' t (w_store (snd demo_claimed)) \<noteq> None} = 1"
proof -
  let ?ops = "[OpAdd (7, ''b'', 5), OpClaim 7 ''A'' 20000000 0]"
  have w: "snd demo_claimed = fold (ledger_step demo_ledger 1) ?ops demo_world" by (simp add: demo_claimed_def)
  have "fst (CountActiveByUID demo_ledger 1 (snd demo_claimed)) = Inr 1" by code_simp
  then obtain w' where c: "CountActiveByUID demo_ledger 1 (snd demo_claimed) = (Inr 1, w')" by (metis prod.collapse)
  have k: "q_redis demo_ledger = mem_redis" "k_Pending (q_keys demo_ledger 1) = ''p''" "k_Processing (q_keys demo_ledger 1) = ''q''"
    by (simp_all add: demo_ledger_def NewQueue_def demo_keys_def)
  from active_timers_counted_once [OF demo_ledger_params(1,3,5) w c] c show ?thesis unfolding k by metis
qed

theorem readded_timer_keeps_claimant_witness:
  "\<exists>w2 r w3. LedgerAdd demo_ledger 1 (7, ''b'', 9) (snd demo_claimed) = (None, w2)
     \<and> CompleteProcessing demo_ledger 1 7 ''B'' w2 = (r, w3) \<and> r \<noteq> Returns (Inr True)
     \<and> ZSCORE mem_redis ''p'' ''7'' (w_store w3) = Some 9"
proof -
  let ?r = "(7, ''b'', 9) :: demo_record"
  have "fst (LedgerAdd demo_ledger 1 ?r (snd demo_claimed)) = None" by code_simp
  then obtain w2 where a: "LedgerAdd demo_ledger 1 ?r (snd demo_claimed) = (None, w2)" by (metis prod.collapse)
  obtain r w3 where c: "CompleteProcessing demo_ledger 1 7 ''B'' w2 = (r, w3)" by (metis prod.collapse)
  have k: "q_redis demo_ledger = mem_redis" "k_Pending (q_keys demo_ledger 1) = ''p''" "c_TimerID (q_codec demo_ledger) ?r = 7"
    "c_DueTimeMs (q_codec demo_ledger) (c_MarkPending (q_codec demo_ledger) ?r) = 9"
    by (simp_all add: demo_ledger_def NewQueue_def demo_keys_def demo_codec_def)
  have k7: "show_nat 7 = ''7''" by code_simp
  have "''B'' \<noteq> ''A''" by simp
  from readded_timer_keeps_claimant [OF demo_ledger_params(1-4), where rec = ?r and uid = 1, unfolded k k7, OF demo_claimed_eq a this c]
    a c show ?thesis by blast
qed

end
