(* ===== verification/Cluster_Wire.thy ===== *)
theory Cluster_Wire
  imports Frame_Codec Actor_System
begin

text \<open>
  The messages between nodes: the envelope of \<open>cluster/internal/wire/wire.proto\<close>, its conversions in
  \<open>cluster/node.go\<close>, the error codes of \<open>cluster/errors.go\<close> and the framed transfer of \<open>cluster/io.go\<close>.
  Protocol-buffer enumerations are open, so kinds and codes are 32-bit words.  The protobuf library itself
  is a parameter: a marshalling and an unmarshalling function.
\<close>

definition KIND_HELLO :: "32 word" where "KIND_HELLO = 1"
definition KIND_HELLO_ACK :: "32 word" where "KIND_HELLO_ACK = 2"
definition KIND_RESOLVE_REQUEST :: "32 word" where "KIND_RESOLVE_REQUEST = 3"
definition KIND_RESOLVE_RESPONSE :: "32 word" where "KIND_RESOLVE_RESPONSE = 4"
definition KIND_CALL :: "32 word" where "KIND_CALL = 5"
definition KIND_SEND :: "32 word" where "KIND_SEND = 6"
definition KIND_RESPONSE :: "32 word" where "KIND_RESPONSE = 7"
definition KIND_PING :: "32 word" where "KIND_PING = 8"
definition KIND_PONG :: "32 word" where "KIND_PONG = 9"
definition KIND_CANCEL :: "32 word" where "KIND_CANCEL = 10"

lemmas kind_defs = KIND_HELLO_def KIND_HELLO_ACK_def KIND_RESOLVE_REQUEST_def KIND_RESOLVE_RESPONSE_def KIND_CALL_def
  KIND_SEND_def KIND_RESPONSE_def KIND_PING_def KIND_PONG_def KIND_CANCEL_def

text \<open>The messages \<open>Target\<close>, \<open>CallFrame\<close>, \<open>RemoteError\<close> and \<open>Envelope\<close>; an absent message is \<open>None\<close>.\<close>

record wire_Target =
  wt_node :: string
  wt_incarnation :: string
  wt_service :: string
  wt_address :: nat
  wt_generation :: nat

record wire_CallFrame =
  wf_node :: string
  wf_service :: string
  wf_protocol :: string

record wire_RemoteError =
  we_code :: "32 word"
  we_message :: string

record Envelope =
  env_version :: "32 word"
  env_kind :: "32 word"
  env_request_id :: nat
  env_source_node :: string
  env_incarnation :: string
  env_timestamp_unix_milli :: "64 word"
  env_nonce :: "byte list"
  env_mac :: "byte list"
  env_target :: "wire_Target option"
  env_service :: string
  env_protocol :: string
  env_fingerprint :: string
  env_deadline_unix_nano :: int
  env_call_path :: "wire_CallFrame list"
  env_payload :: "byte list"
  env_error :: "wire_RemoteError option"
  env_trace_id :: string

text \<open>The message all of whose fields have their default.\<close>

definition zero_Envelope :: Envelope where
  "zero_Envelope = \<lparr>env_version = 0, env_kind = 0, env_request_id = 0, env_source_node = '''', env_incarnation = '''',
     env_timestamp_unix_milli = 0, env_nonce = [], env_mac = [], env_target = None, env_service = '''',
     env_protocol = '''', env_fingerprint = '''', env_deadline_unix_nano = 0, env_call_path = [], env_payload = [],
     env_error = None, env_trace_id = ''''\<rparr>"

definition protocolVersion :: "32 word" where "protocolVersion = 1"

section \<open>Conversions\<close>

definition toWireTarget :: "RemoteTarget \<Rightarrow> wire_Target" where
  "toWireTarget t = \<lparr>wt_node = tgt_Node t, wt_incarnation = tgt_Incarnation t, wt_service = tgt_Service t,
     wt_address = tgt_Address t, wt_generation = tgt_Generation t\<rparr>"

text \<open>The getters of a nil message return defaults.\<close>

definition fromWireTarget :: "wire_Target option \<Rightarrow> RemoteTarget" where
  "fromWireTarget ot =
     (case ot of
        None \<Rightarrow> \<lparr>tgt_Node = '''', tgt_Incarnation = '''', tgt_Service = '''', tgt_Address = 0, tgt_Generation = 0\<rparr>
      | Some t \<Rightarrow> \<lparr>tgt_Node = wt_node t, tgt_Incarnation = wt_incarnation t, tgt_Service = wt_service t,
          tgt_Address = wt_address t, tgt_Generation = wt_generation t\<rparr>)"

definition toWirePath :: "CallFrame list \<Rightarrow> wire_CallFrame list" where
  "toWirePath path = map (\<lambda>f. \<lparr>wf_node = frame_Node f, wf_service = frame_Service f, wf_protocol = frame_Protocol f\<rparr>) path"

definition fromWirePath :: "wire_CallFrame list \<Rightarrow> CallFrame list" where
  "fromWirePath path = map (\<lambda>f. \<lparr>frame_Node = wf_node f, frame_Service = wf_service f, frame_Protocol = wf_protocol f\<rparr>) path"

section \<open>Errors\<close>

text \<open>The texts of the errors (\<open>actor/system.go\<close>, \<open>actor/drain.go\<close>, package \<open>context\<close>).\<close>

primrec Error_text :: "go_error \<Rightarrow> string" where
  "Error_text ErrServiceNotFound = ''actor: service not found''"
| "Error_text ErrActorNotFound = ''actor: not found''"
| "Error_text ErrServiceNotReady = ''actor: service not ready''"
| "Error_text ErrServiceStopping = ''actor: service stopping''"
| "Error_text ErrStaleRef = ''actor: stale service ref''"
| "Error_text ErrProtocolNotFound = ''actor: protocol not found''"
| "Error_text ErrProtocolExists = ''actor: protocol already registered''"
| "Error_text ErrProtocolTypeMismatch = ''actor: protocol descriptor type mismatch''"
| "Error_text ErrInvalidArgs = ''actor: invalid protocol arguments''"
| "Error_text ErrCodec = ''actor: codec failure''"
| "Error_text ErrMailboxTimeout = ''actor: mailbox admission timeout''"
| "Error_text ErrMailboxFull = ''actor: mailbox full''"
| "Error_text ErrCallTimeout = ''actor: call completion timeout''"
| "Error_text ErrCallCycle = ''actor: call would deadlock''"
| "Error_text ErrSuspendLimit = ''actor: suspended activation limit reached''"
| "Error_text ErrYieldForbidden = ''actor: yield forbidden in critical section''"
| "Error_text ErrRuntimeInvariant = ''actor: runtime invariant violated''"
| "Error_text ErrRemoteUnavailable = ''actor: remote node unavailable''"
| "Error_text ErrTransportBackpressure = ''actor: remote transport backpressure''"
| "Error_text ErrMaintenance = ''actor: maintenance admission closed''"
| "Error_text (ErrCtx c) = (case c of Canceled \<Rightarrow> ''context canceled'' | DeadlineExceeded \<Rightarrow> ''context deadline exceeded'')"
| "Error_text (ErrText m) = m"
| "Error_text (Wrap e m) = Error_text e @ '': '' @ m"

definition encodeError :: "go_error option \<Rightarrow> wire_RemoteError option" where
  "encodeError oerr =
     (case oerr of
        None \<Rightarrow> None
      | Some err \<Rightarrow>
          Some \<lparr>we_code =
            (if errors_Is err ErrRemoteUnavailable then 1
             else if errors_Is err ErrStaleRef then 2
             else if errors_Is err ErrServiceNotFound then 3
             else if errors_Is err ErrServiceNotReady then 4
             else if errors_Is err ErrServiceStopping then 5
             else if errors_Is err ErrProtocolNotFound then 6
             else if errors_Is err ErrProtocolTypeMismatch then 7
             else if errors_Is err ErrCodec then 8
             else if errors_Is err ErrMailboxTimeout then 9
             else if errors_Is err ErrMailboxFull then 10
             else if errors_Is err ErrCallTimeout then 11
             else if errors_Is err ErrCallCycle then 12
             else if errors_Is err ErrTransportBackpressure then 13
             else 14),
            we_message = Error_text err\<rparr>)"

text \<open>The error a caller gets: \<open>*RemoteError\<close> with its cause.\<close>

record RemoteError =
  re_Code :: "32 word"
  re_Message :: string
  re_cause :: "go_error option"

definition decodeError :: "wire_RemoteError option \<Rightarrow> RemoteError option" where
  "decodeError oremote =
     (case oremote of
        None \<Rightarrow> None
      | Some remote \<Rightarrow>
          if we_code remote = 0 then None
          else Some \<lparr>re_Code = we_code remote, re_Message = we_message remote,
            re_cause =
              (if we_code remote = 1 then Some ErrRemoteUnavailable
               else if we_code remote = 2 then Some ErrStaleRef
               else if we_code remote = 3 then Some ErrServiceNotFound
               else if we_code remote = 4 then Some ErrServiceNotReady
               else if we_code remote = 5 then Some ErrServiceStopping
               else if we_code remote = 6 then Some ErrProtocolNotFound
               else if we_code remote = 7 then Some ErrProtocolTypeMismatch
               else if we_code remote = 8 then Some ErrCodec
               else if we_code remote = 9 then Some ErrMailboxTimeout
               else if we_code remote = 10 then Some ErrMailboxFull
               else if we_code remote = 11 then Some ErrCallTimeout
               else if we_code remote = 12 then Some ErrCallCycle
               else if we_code remote = 13 then Some ErrTransportBackpressure
               else None)\<rparr>)"

text \<open>\<open>errors.Is\<close> on the decoded error, through \<open>Unwrap\<close>.\<close>

definition RemoteError_Unwrap :: "RemoteError \<Rightarrow> go_error option" where
  "RemoteError_Unwrap e = re_cause e"

definition remote_Is :: "RemoteError \<Rightarrow> go_error \<Rightarrow> bool" where
  "remote_Is e t = (case RemoteError_Unwrap e of None \<Rightarrow> False | Some c \<Rightarrow> errors_Is c t)"

definition RemoteError_Error :: "RemoteError \<Rightarrow> string" where
  "RemoteError_Error e = ''cluster: remote error '' @ show_int (sint (re_Code e)) @ '': '' @ re_Message e"

section \<open>Framed transfer\<close>

datatype io_error = FrameErr frame_error | ProtoErr string

type_synonym marshal = "Envelope \<Rightarrow> string + byte list"
type_synonym unmarshal = "byte list \<Rightarrow> string + Envelope"

definition readEnvelope :: "unmarshal \<Rightarrow> byte list \<Rightarrow> nat \<Rightarrow> (io_error + Envelope) \<times> byte list" where
  "readEnvelope unm reader limit =
     (case ReadLimit reader limit of
        (Inl err, rest) \<Rightarrow> (Inl (FrameErr err), rest)
      | (Inr payload, rest) \<Rightarrow>
          (case unm payload of Inl err \<Rightarrow> (Inl (ProtoErr err), rest) | Inr envelope \<Rightarrow> (Inr envelope, rest)))"

definition writeEnvelope :: "marshal \<Rightarrow> writer \<Rightarrow> Envelope \<Rightarrow> nat \<Rightarrow> io_error option \<times> writer" where
  "writeEnvelope msh w envelope limit =
     (case msh envelope of
        Inl err \<Rightarrow> (Some (ProtoErr err), w)
      | Inr payload \<Rightarrow>
          (case WriteLimit w payload limit of (None, w') \<Rightarrow> (None, w') | (Some err, w') \<Rightarrow> (Some (FrameErr err), w')))"

text \<open>What the protobuf library documents: unmarshalling the bytes of a message gives the message back.\<close>

definition proto_ok :: "marshal \<Rightarrow> unmarshal \<Rightarrow> bool" where
  "proto_ok msh unm \<longleftrightarrow> (\<forall>e bytes. msh e = Inr bytes \<longrightarrow> unm bytes = Inr e)"

section \<open>Lemmas\<close>

lemma target_roundtrip [simp]: "fromWireTarget (Some (toWireTarget t)) = t"
  by (simp add: fromWireTarget_def toWireTarget_def)

lemma path_roundtrip [simp]: "fromWirePath (toWirePath p) = p"
  by (simp add: fromWirePath_def toWirePath_def comp_def map_idI)

text \<open>The errors that keep their identity across the wire.\<close>

definition stable_errors :: "go_error list" where
  "stable_errors = [ErrRemoteUnavailable, ErrStaleRef, ErrServiceNotFound, ErrServiceNotReady, ErrServiceStopping,
     ErrProtocolNotFound, ErrProtocolTypeMismatch, ErrCodec, ErrMailboxTimeout, ErrMailboxFull, ErrCallTimeout,
     ErrCallCycle, ErrTransportBackpressure]"

fun innermost :: "go_error \<Rightarrow> go_error" where
  "innermost (Wrap e m) = innermost e"
| "innermost e = e"

lemma errors_Is_innermost: "t \<in> set stable_errors \<Longrightarrow> errors_Is e t \<longleftrightarrow> innermost e = t"
  by (induction e) (auto simp: stable_errors_def)

lemma stable_members:
  "ErrRemoteUnavailable \<in> set stable_errors" "ErrStaleRef \<in> set stable_errors" "ErrServiceNotFound \<in> set stable_errors"
  "ErrServiceNotReady \<in> set stable_errors" "ErrServiceStopping \<in> set stable_errors" "ErrProtocolNotFound \<in> set stable_errors"
  "ErrProtocolTypeMismatch \<in> set stable_errors" "ErrCodec \<in> set stable_errors" "ErrMailboxTimeout \<in> set stable_errors"
  "ErrMailboxFull \<in> set stable_errors" "ErrCallTimeout \<in> set stable_errors" "ErrCallCycle \<in> set stable_errors"
  "ErrTransportBackpressure \<in> set stable_errors"
  by (simp_all add: stable_errors_def)

lemma innermost_no_wrap: "innermost e \<noteq> Wrap e' m"
  by (induction e) auto

lemma innermost_idem [simp]: "innermost (innermost e) = innermost e"
  by (induction e) auto

lemma encode_cause:
  "\<exists>d. decodeError (encodeError (Some e)) = Some d \<and> re_Message d = Error_text e \<and>
     re_cause d = (if innermost e \<in> set stable_errors then Some (innermost e) else None)"
  using innermost_no_wrap [of e]
  by (cases "innermost e")
     (simp_all add: encodeError_def decodeError_def errors_Is_innermost stable_members, simp_all add: stable_errors_def)

lemma stable_self: "t \<in> set stable_errors \<Longrightarrow> u \<in> set stable_errors \<Longrightarrow> errors_Is t u \<longleftrightarrow> t = u"
  by (auto simp: stable_errors_def)


text \<open>
  An envelope survives the transport.  When \<open>writeEnvelope\<close> returns nil, whatever pieces the connection
  took, a reader with the same limit gets the same envelope back and is left with exactly the bytes that
  follow it.
\<close>

theorem envelope_roundtrip:
  assumes "proto_ok msh unm" and "writeEnvelope msh w e limit = (None, w')"
  shows "\<exists>bytes. wr_out w' = wr_out w @ bytes \<and> readEnvelope unm (bytes @ rest) limit = (Inr e, rest)"
proof -
  obtain payload where m: "msh e = Inr payload" and wl: "WriteLimit w payload limit = (None, w')"
    using assms(2) by (auto simp: writeEnvelope_def split: sum.splits prod.splits option.splits)
  from WriteLimit_out [of w payload limit] wl have out: "wr_out w' = wr_out w @ frameOf payload"
    and len: "length payload < 2 ^ 32" "length payload \<le> (if limit = 0 then MaxPayload else limit)" by auto
  have "readEnvelope unm (frameOf payload @ rest) limit = (Inr e, rest)"
    using assms(1) m ReadLimit_frame [OF len, of rest] by (simp add: readEnvelope_def proto_ok_def)
  with out show ?thesis by blast
qed

text \<open>A codec that only carries the request id, as an instance.\<close>

definition demo_marshal :: marshal where
  "demo_marshal e = (if e = zero_Envelope\<lparr>env_request_id := env_request_id e\<rparr> \<and> env_request_id e < 256
     then Inr [word_of_nat (env_request_id e)] else Inl ''unsupported'')"

definition demo_unmarshal :: unmarshal where
  "demo_unmarshal bytes = (case bytes of [b] \<Rightarrow> Inr (zero_Envelope\<lparr>env_request_id := unat b\<rparr>) | _ \<Rightarrow> Inl ''bad'')"

lemma demo_proto_ok: "proto_ok demo_marshal demo_unmarshal"
  by (auto simp: proto_ok_def demo_marshal_def demo_unmarshal_def unat_byte split: if_splits)

theorem envelope_roundtrip_witness:
  "\<exists>bytes w'. writeEnvelope demo_marshal \<lparr>wr_out = [], wr_script = [(1, None)]\<rparr> (zero_Envelope\<lparr>env_request_id := 5\<rparr>) 64
       = (None, w') \<and> wr_out w' = bytes \<and> readEnvelope demo_unmarshal bytes 64 = (Inr (zero_Envelope\<lparr>env_request_id := 5\<rparr>), [])"
proof -
  let ?w = "\<lparr>wr_out = [], wr_script = [(1, None)]\<rparr>" and ?e = "zero_Envelope\<lparr>env_request_id := 5\<rparr>"
  have none: "fst (writeEnvelope demo_marshal ?w ?e 64) = None"
    by (simp add: writeEnvelope_def demo_marshal_def WriteLimit_def WriteUnchecked_def putUint_4
        writeFull.simps Write_call_def Let_def)
  then obtain w' where w: "writeEnvelope demo_marshal ?w ?e 64 = (None, w')" by (metis prod.collapse)
  from envelope_roundtrip [OF demo_proto_ok w, of "[]"] w show ?thesis by auto
qed

end
