(* ===== verification/Cluster_Auth.thy ===== *)
theory Cluster_Auth
  imports Cluster_Wire
begin

text \<open>
  Configuration and handshake authentication of a cluster node (\<open>cluster/config.go\<close>, \<open>cluster/auth.go\<close>).
  Durations and instants are in nanoseconds.  The keyed hash is a parameter, so that the theorems hold for
  any function in its place, and the source of random bytes is one too.  A Go map is an association list.
\<close>

section \<open>Configuration\<close>

record 'r Config =
  PeerSecrets :: "(string \<times> byte list) list"
  NodeID :: string
  Listen :: string
  Secret :: "byte list"
  cfg_Registry :: "'r option"
  cfg_MaxPayload :: nat
  SendQueue :: int
  ConnectionsPerPeer :: int
  InboundShards :: int
  InboundQueue :: int
  MaxInboundCalls :: int
  DialTimeout :: int
  HandshakeTimeout :: int
  CallTimeout :: int
  SendTimeout :: int
  WriteTimeout :: int
  ClockSkew :: int
  NonceTTL :: int
  ConnectBackoffMin :: int
  ConnectBackoffMax :: int
  PingInterval :: int
  IdleTimeout :: int

definition hardMaxPayload :: nat where "hardMaxPayload = 64 * 1024 * 1024"

datatype config_error =
    MissingRequired | InvalidPeerSecret | MaxPayloadExceeds | ConnectionsExceed | BackoffOrder | IdleTooShort

abbreviation (input) second :: int where "second \<equiv> 1000000000"
abbreviation (input) millisecond :: int where "millisecond \<equiv> 1000000"

definition positive_or :: "int \<Rightarrow> int \<Rightarrow> int" where
  "positive_or dflt v = (if v \<le> 0 then dflt else v)"

text \<open>\<open>2*c.PingInterval\<close> on \<open>int64\<close>.\<close>

definition twice64 :: "int \<Rightarrow> int" where
  "twice64 d = sint (word_of_int (2 * d) :: 64 word)"

definition valid_peer_secrets :: "'r Config \<Rightarrow> bool" where
  "valid_peer_secrets c \<longleftrightarrow> list_all (\<lambda>(peer, key). peer \<noteq> '''' \<and> peer \<noteq> NodeID c \<and> 16 \<le> length key) (PeerSecrets c)"

text \<open>The assignments of \<open>defaults\<close> between its checks.\<close>

definition default_payload :: "'r Config \<Rightarrow> 'r Config" where
  "default_payload c =
     (let p = (if cfg_MaxPayload c = 0 then 16 * 1024 * 1024 else cfg_MaxPayload c)
      in c\<lparr>cfg_MaxPayload := (if p < MaxPayload then MaxPayload else p)\<rparr>)"

definition default_queues :: "'r Config \<Rightarrow> 'r Config" where
  "default_queues c = c\<lparr>SendQueue := positive_or 1024 (SendQueue c), ConnectionsPerPeer := positive_or 1 (ConnectionsPerPeer c)\<rparr>"

definition default_limits :: "'r Config \<Rightarrow> 'r Config" where
  "default_limits c = c\<lparr>
     InboundShards := positive_or 32 (InboundShards c),
     InboundQueue := positive_or 4096 (InboundQueue c),
     MaxInboundCalls := positive_or 1024 (MaxInboundCalls c),
     DialTimeout := positive_or (3 * second) (DialTimeout c),
     HandshakeTimeout := positive_or (5 * second) (HandshakeTimeout c),
     CallTimeout := positive_or (5 * second) (CallTimeout c),
     SendTimeout := positive_or (5 * millisecond) (SendTimeout c),
     WriteTimeout := positive_or (5 * second) (WriteTimeout c),
     ClockSkew := positive_or (30 * second) (ClockSkew c),
     NonceTTL := positive_or (300 * second) (NonceTTL c),
     ConnectBackoffMin := positive_or (100 * millisecond) (ConnectBackoffMin c),
     ConnectBackoffMax := positive_or (5 * second) (ConnectBackoffMax c)\<rparr>"

definition default_heartbeat :: "'r Config \<Rightarrow> 'r Config" where
  "default_heartbeat c = c\<lparr>PingInterval := positive_or (10 * second) (PingInterval c),
     IdleTimeout := positive_or (30 * second) (IdleTimeout c)\<rparr>"

definition defaults :: "'r Config \<Rightarrow> config_error + 'r Config" where
  "defaults c =
     (if NodeID c = '''' \<or> Listen c = '''' \<or> length (Secret c) < 16 \<or> cfg_Registry c = None then Inl MissingRequired
      else if \<not> valid_peer_secrets c then Inl InvalidPeerSecret
      else let c1 = default_payload c
      in if hardMaxPayload < cfg_MaxPayload c1 then Inl MaxPayloadExceeds
      else let c2 = default_queues c1
      in if 16 < ConnectionsPerPeer c2 then Inl ConnectionsExceed
      else let c3 = default_limits c2
      in if ConnectBackoffMax c3 < ConnectBackoffMin c3 then Inl BackoffOrder
      else let c4 = default_heartbeat c3
      in if IdleTimeout c4 < twice64 (PingInterval c4) then Inl IdleTooShort
      else Inr c4)"

section \<open>Signing\<close>

text \<open>The bytes of a Go string, and the verb \<open>%x\<close>.\<close>

definition bytes_of :: "string \<Rightarrow> byte list" where
  "bytes_of s = map (\<lambda>c. word_of_nat (of_char c)) s"

definition hexdigit :: "nat \<Rightarrow> char" where
  "hexdigit d = char_of (if d < 10 then 48 + d else 87 + d)"

definition Sprintf_x :: "byte list \<Rightarrow> string" where
  "Sprintf_x bytes = concat (map (\<lambda>b. [hexdigit (unat b div 16), hexdigit (unat b mod 16)]) bytes)"

definition writeMACString :: "string \<Rightarrow> byte list" where
  "writeMACString v = putUint 4 (length v mod 2 ^ 32) @ bytes_of v"

text \<open>Everything \<open>signHandshake\<close> writes to the hash, in order.\<close>

definition macInput :: "Envelope \<Rightarrow> byte list" where
  "macInput e =
     putUint 4 (unat (env_version e)) @
     putUint 4 (unat (env_kind e)) @
     writeMACString (env_source_node e) @
     writeMACString (env_incarnation e) @
     putUint 8 (unat (env_timestamp_unix_milli e)) @
     env_nonce e"

type_synonym keyed_hash = "byte list \<Rightarrow> byte list \<Rightarrow> byte list"

definition signHandshake :: "keyed_hash \<Rightarrow> byte list \<Rightarrow> Envelope \<Rightarrow> byte list" where
  "signHandshake hmac secret e = hmac secret (macInput e)"

definition peerSecret :: "'r Config \<Rightarrow> string \<Rightarrow> byte list" where
  "peerSecret c peer = (case map_of (PeerSecrets c) peer of Some key \<Rightarrow> key | None \<Rightarrow> Secret c)"

definition newNonce :: "(nat \<Rightarrow> string + byte list) \<Rightarrow> nat \<Rightarrow> string + byte list" where
  "newNonce rand sz = rand sz"

definition newIncarnation :: "(nat \<Rightarrow> string + byte list) \<Rightarrow> string + string" where
  "newIncarnation rand = (case newNonce rand 16 of Inl err \<Rightarrow> Inl err | Inr value \<Rightarrow> Inr (Sprintf_x value))"

text \<open>\<open>time.Now().UnixMilli()\<close> rounds towards the past.\<close>

definition handshake ::
  "keyed_hash \<Rightarrow> (nat \<Rightarrow> string + byte list) \<Rightarrow> 'r Config \<Rightarrow> string \<Rightarrow> int \<Rightarrow> 32 word \<Rightarrow> string option \<Rightarrow> string + Envelope" where
  "handshake hmac rand c incarnation now kind remote =
     (case newNonce rand 24 of
        Inl err \<Rightarrow> Inl err
      | Inr nonce \<Rightarrow>
          let e = zero_Envelope\<lparr>env_version := protocolVersion, env_kind := kind, env_source_node := NodeID c,
                    env_incarnation := incarnation, env_timestamp_unix_milli := word_of_int (now div millisecond),
                    env_nonce := nonce\<rparr>;
              key = (case remote of None \<Rightarrow> Secret c | Some r \<Rightarrow> peerSecret c r)
          in Inr (e\<lparr>env_mac := signHandshake hmac key e\<rparr>))"

section \<open>Verifying\<close>

datatype auth_error = UnsupportedHandshake | IncompleteHandshake | OutsideSkew | AuthenticationFailed | NonceReplay

type_synonym nonces = "(string \<times> int) list"

definition nonceKey :: "Envelope \<Rightarrow> string" where
  "nonceKey e = env_source_node e @ '':'' @ Sprintf_x (env_nonce e)"

definition timestamp_of :: "Envelope \<Rightarrow> int" where
  "timestamp_of e = sint (env_timestamp_unix_milli e) * millisecond"

definition verifyHandshake ::
  "keyed_hash \<Rightarrow> 'r Config \<Rightarrow> nonces \<Rightarrow> int \<Rightarrow> Envelope \<Rightarrow> 32 word \<Rightarrow> auth_error option \<times> nonces" where
  "verifyHandshake hmac c nonces now e expectedKind =
     (if env_version e \<noteq> protocolVersion \<or> env_kind e \<noteq> expectedKind then (Some UnsupportedHandshake, nonces)
      else if env_source_node e = '''' \<or> env_incarnation e = '''' \<or> length (env_nonce e) < 16
      then (Some IncompleteHandshake, nonces)
      else if timestamp_of e < now - ClockSkew c \<or> now + ClockSkew c < timestamp_of e then (Some OutsideSkew, nonces)
      else if signHandshake hmac (peerSecret c (env_source_node e)) e \<noteq> env_mac e
      then (Some AuthenticationFailed, nonces)
      else let live = filter (\<lambda>(k, expires). \<not> expires < now) nonces
           in if nonceKey e \<in> fst ` set live then (Some NonceReplay, live)
              else (None, (nonceKey e, now + NonceTTL c) # live))"

text \<open>The handshakes a node sees, with the time at which it looks at its clock, and the ones it accepts.\<close>

definition auth_step ::
  "keyed_hash \<Rightarrow> 'r Config \<Rightarrow> int \<times> Envelope \<times> 32 word \<Rightarrow> (int \<times> Envelope) list \<times> nonces \<Rightarrow> (int \<times> Envelope) list \<times> nonces" where
  "auth_step hmac c ev st =
     (case ev of (now, e, kind) \<Rightarrow>
        (case verifyHandshake hmac c (snd st) now e kind of
           (None, n1) \<Rightarrow> ((now, e) # fst st, n1)
         | (Some err, n1) \<Rightarrow> (fst st, n1)))"

definition auth_history :: "keyed_hash \<Rightarrow> 'r Config \<Rightarrow> (int \<times> Envelope \<times> 32 word) list \<Rightarrow> (int \<times> Envelope) list \<times> nonces" where
  "auth_history hmac c evs = fold (auth_step hmac c) evs ([], [])"

section \<open>The configuration is well-formed\<close>

definition config_wf :: "'r Config \<Rightarrow> bool" where
  "config_wf c \<longleftrightarrow> NodeID c \<noteq> '''' \<and> Listen c \<noteq> '''' \<and> 16 \<le> length (Secret c) \<and> cfg_Registry c \<noteq> None \<and>
     valid_peer_secrets c \<and> MaxPayload \<le> cfg_MaxPayload c \<and> cfg_MaxPayload c \<le> hardMaxPayload \<and>
     0 < SendQueue c \<and> ConnectionsPerPeer c \<in> {1..16} \<and> 0 < InboundShards c \<and> 0 < InboundQueue c \<and>
     0 < MaxInboundCalls c \<and> 0 < DialTimeout c \<and> 0 < HandshakeTimeout c \<and> 0 < CallTimeout c \<and>
     0 < SendTimeout c \<and> 0 < WriteTimeout c \<and> 0 < ClockSkew c \<and> 0 < NonceTTL c \<and>
     0 < ConnectBackoffMin c \<and> ConnectBackoffMin c \<le> ConnectBackoffMax c \<and>
     0 < PingInterval c \<and> 0 < IdleTimeout c \<and> (2 * PingInterval c \<le> IdleTimeout c \<or> 2 ^ 63 \<le> 2 * PingInterval c)"

lemmas default_defs = default_payload_def default_queues_def default_limits_def default_heartbeat_def

lemma positive_or_pos [simp]: "0 < d \<Longrightarrow> 0 < positive_or d v"
  by (simp add: positive_or_def)

lemma positive_or_same [simp]: "0 < v \<Longrightarrow> positive_or d v = v"
  by (simp add: positive_or_def)

lemma valid_peer_secrets_cong:
  "NodeID c = NodeID c' \<Longrightarrow> PeerSecrets c = PeerSecrets c' \<Longrightarrow> valid_peer_secrets c = valid_peer_secrets c'"
  by (simp add: valid_peer_secrets_def)

lemma twice64_small: "0 < d \<Longrightarrow> 2 * d < 2 ^ 63 \<Longrightarrow> twice64 d = 2 * d"
  unfolding twice64_def sint_sbintrunc' by (simp add: signed_take_bit_int_eq_self)

lemma defaults_fixpoint:
  assumes "config_wf c" and "twice64 (PingInterval c) \<le> IdleTimeout c"
  shows "defaults c = Inr c"
proof -
  have "default_payload c = c" "default_queues c = c" "default_limits c = c" "default_heartbeat c = c"
    using assms(1) by (auto simp: config_wf_def default_defs MaxPayload_def Let_def)
  then show ?thesis using assms by (simp add: defaults_def config_wf_def Let_def)
qed

lemma defaults_result:
  assumes "defaults c = Inr c'"
  shows "c' = default_heartbeat (default_limits (default_queues (default_payload c)))"
    and "NodeID c \<noteq> ''''" and "Listen c \<noteq> ''''" and "16 \<le> length (Secret c)" and "cfg_Registry c \<noteq> None"
    and "valid_peer_secrets c" and "cfg_MaxPayload (default_payload c) \<le> hardMaxPayload"
    and "positive_or 1 (ConnectionsPerPeer c) \<le> 16" and "ConnectBackoffMin c' \<le> ConnectBackoffMax c'"
    and "twice64 (PingInterval c') \<le> IdleTimeout c'"
  using assms by (auto simp: defaults_def Let_def default_defs split: if_splits)

lemma defaults_wf:
  assumes "defaults c = Inr c'"
  shows "config_wf c'"
proof -
  note r = defaults_result [OF assms]
  have "2 * PingInterval c' \<le> IdleTimeout c' \<or> 2 ^ 63 \<le> 2 * PingInterval c'"
    using r(10) twice64_small [of "PingInterval c'"] by (auto simp: r(1) default_defs)
  moreover have "valid_peer_secrets c'" using r(6) by (simp add: r(1) default_defs Let_def valid_peer_secrets_def)
  moreover have "1 \<le> positive_or 1 (ConnectionsPerPeer c)" by (simp add: positive_or_def)
  ultimately show ?thesis using r(2-5,7-9)
    by (simp add: config_wf_def) (simp add: r(1) default_defs Let_def)
qed


definition demo_config :: "unit Config" where
  "demo_config = \<lparr>PeerSecrets = [(''n2'', replicate 16 1)], NodeID = ''n1'', Listen = '':7000'', Secret = replicate 16 0,
     cfg_Registry = Some (), cfg_MaxPayload = 0, SendQueue = 0, ConnectionsPerPeer = 4, InboundShards = 0,
     InboundQueue = 0, MaxInboundCalls = 0, DialTimeout = 0, HandshakeTimeout = 0, CallTimeout = 0, SendTimeout = 0,
     WriteTimeout = 0, ClockSkew = 0, NonceTTL = 0, ConnectBackoffMin = 0, ConnectBackoffMax = 0, PingInterval = 0,
     IdleTimeout = 0\<rparr>"

lemma demo_config_ok:
  "defaults demo_config = Inr (default_heartbeat (default_limits (default_queues (default_payload demo_config))))"
  by (simp add: defaults_def default_defs demo_config_def positive_or_def MaxPayload_def hardMaxPayload_def
      valid_peer_secrets_def twice64_small)


section \<open>What the signature covers\<close>

lemma char_byte_inj: "(word_of_nat (of_char c) :: byte) = word_of_nat (of_char d) \<longleftrightarrow> c = d"
proof
  assume eq: "(word_of_nat (of_char c) :: byte) = word_of_nat (of_char d)"
  have "unat (word_of_nat (of_char c) :: byte) = unat (word_of_nat (of_char d) :: byte)" by (simp only: eq)
  then have "of_char c mod 256 = (of_char d mod 256 :: nat)" by (simp only: unat_byte)
  then have "(of_char c :: nat) = of_char d" by (simp add: of_char_mod_256)
  then show "c = d" by simp
qed simp

lemma bytes_of_inj: "bytes_of s = bytes_of t \<longleftrightarrow> s = t"
proof -
  have "inj (\<lambda>c :: char. word_of_nat (of_char c) :: byte)" by (auto simp: inj_def char_byte_inj)
  then show ?thesis by (simp add: bytes_of_def inj_map_eq_map)
qed

lemma putUint_inj: "m < 256 ^ k \<Longrightarrow> n < 256 ^ k \<Longrightarrow> putUint k m = putUint k n \<Longrightarrow> m = n"
  by (metis getUint_putUint)

lemma macString_inj:
  assumes "length s < 2 ^ 32" and "length t < 2 ^ 32" and "writeMACString s @ xs = writeMACString t @ ys"
  shows "s = t \<and> xs = ys"
proof -
  have "putUint 4 (length s) = putUint 4 (length t)" and rest: "bytes_of s @ xs = bytes_of t @ ys"
    using assms by (auto simp: writeMACString_def)
  then have "length s = length t" using assms(1,2) by (intro putUint_inj [of _ 4]) simp_all
  then have "length (bytes_of s) = length (bytes_of t)" by (simp add: bytes_of_def)
  then show ?thesis using rest by (simp add: bytes_of_inj)
qed

lemma put_word32_inj: "putUint 4 (unat (a :: 32 word)) = putUint 4 (unat b) \<longleftrightarrow> a = b"
  using putUint_inj [of "unat a" 4 "unat b"] unsigned_less [of a, where 'a = nat] unsigned_less [of b, where 'a = nat]
  by (auto intro: unsigned_word_eqI [where 'a = nat])

lemma put_word64_inj: "putUint 8 (unat (a :: 64 word)) = putUint 8 (unat b) \<longleftrightarrow> a = b"
  using putUint_inj [of "unat a" 8 "unat b"] unsigned_less [of a, where 'a = nat] unsigned_less [of b, where 'a = nat]
  by (auto intro: unsigned_word_eqI [where 'a = nat])

definition short_names :: "Envelope \<Rightarrow> bool" where
  "short_names e \<longleftrightarrow> length (env_source_node e) < 2 ^ 32 \<and> length (env_incarnation e) < 2 ^ 32"

definition signed_fields :: "Envelope \<Rightarrow> 32 word \<times> 32 word \<times> string \<times> string \<times> 64 word \<times> byte list" where
  "signed_fields e = (env_version e, env_kind e, env_source_node e, env_incarnation e, env_timestamp_unix_milli e, env_nonce e)"

lemma macInput_inj:
  assumes "short_names e" and "short_names f" and "macInput e = macInput f"
  shows "signed_fields e = signed_fields f"
proof -
  have head: "env_version e = env_version f" "env_kind e = env_kind f"
    and one: "writeMACString (env_source_node e) @ writeMACString (env_incarnation e) @ putUint 8 (unat (env_timestamp_unix_milli e)) @ env_nonce e
      = writeMACString (env_source_node f) @ writeMACString (env_incarnation f) @ putUint 8 (unat (env_timestamp_unix_milli f)) @ env_nonce f"
    using assms(3) by (auto simp: macInput_def put_word32_inj)
  from macString_inj [OF _ _ one] assms(1,2) have src: "env_source_node e = env_source_node f"
    and two: "writeMACString (env_incarnation e) @ putUint 8 (unat (env_timestamp_unix_milli e)) @ env_nonce e
      = writeMACString (env_incarnation f) @ putUint 8 (unat (env_timestamp_unix_milli f)) @ env_nonce f"
    by (simp_all add: short_names_def)
  from macString_inj [OF _ _ two] assms(1,2) have "env_incarnation e = env_incarnation f"
    and "putUint 8 (unat (env_timestamp_unix_milli e)) @ env_nonce e = putUint 8 (unat (env_timestamp_unix_milli f)) @ env_nonce f"
    by (simp_all add: short_names_def)
  then show ?thesis using head src by (simp add: signed_fields_def put_word64_inj)
qed

text \<open>
  C14: An accepted handshake is authentic.  If \<open>verifyHandshake\<close> accepts an envelope whose MAC was made by
  \<open>signHandshake\<close> with the key of that source node for some envelope, and the keyed hash does not collide on
  these two inputs, then the two envelopes agree in version, kind, source node, incarnation, timestamp and
  nonce: no two different handshakes are signed as the same bytes.  It also has the expected version and
  kind, names its source and incarnation, and its timestamp lies within the allowed skew.
\<close>

theorem accepted_handshake_is_authentic:
  assumes "verifyHandshake hmac c nonces now e kind = (None, nonces')"
    and "env_mac e = signHandshake hmac (peerSecret c (env_source_node e)) e0"
    and "hmac (peerSecret c (env_source_node e)) (macInput e) = hmac (peerSecret c (env_source_node e)) (macInput e0)
           \<Longrightarrow> macInput e = macInput e0"
    and "short_names e" and "short_names e0"
  shows "signed_fields e = signed_fields e0 \<and> env_version e = protocolVersion \<and> env_kind e = kind \<and>
    env_source_node e \<noteq> '''' \<and> env_incarnation e \<noteq> '''' \<and> \<bar>timestamp_of e - now\<bar> \<le> ClockSkew c"
proof -
  let ?k = "peerSecret c (env_source_node e)"
  have acc: "signHandshake hmac ?k e = env_mac e" "env_version e = protocolVersion" "env_kind e = kind"
    "env_source_node e \<noteq> ''''" "env_incarnation e \<noteq> ''''"
    "\<not> (timestamp_of e < now - ClockSkew c \<or> now + ClockSkew c < timestamp_of e)"
    using assms(1) by (auto simp: verifyHandshake_def Let_def split: if_splits)
  have "hmac ?k (macInput e) = hmac ?k (macInput e0)" using acc(1) assms(2) by (simp add: signHandshake_def)
  then have "macInput e = macInput e0" by (rule assms(3))
  then show ?thesis using macInput_inj [OF assms(4,5)] acc(2-6) by auto
qed

lemma macInput_mac [simp]: "macInput (e\<lparr>env_mac := m\<rparr>) = macInput e"
  by (simp add: macInput_def)

text \<open>A handshake of the example node's peer \<open>n2\<close>, with concatenation as the keyed hash.\<close>

definition demo_hash :: keyed_hash where
  "demo_hash key msg = key @ msg"

definition demo_running :: "unit Config" where
  "demo_running = default_heartbeat (default_limits (default_queues (default_payload demo_config)))"

definition demo_hello :: "int \<Rightarrow> Envelope" where
  "demo_hello ms = zero_Envelope\<lparr>env_version := protocolVersion, env_kind := KIND_HELLO, env_source_node := ''n2'',
     env_incarnation := ''i'', env_timestamp_unix_milli := word_of_int ms, env_nonce := replicate 16 9\<rparr>"

definition demo_signed :: "int \<Rightarrow> Envelope" where
  "demo_signed ms = (demo_hello ms)\<lparr>env_mac := signHandshake demo_hash (replicate 16 1) (demo_hello ms)\<rparr>"

lemma demo_signed_simps [simp]:
  "env_version (demo_signed ms) = protocolVersion" "env_kind (demo_signed ms) = KIND_HELLO"
  "env_source_node (demo_signed ms) = ''n2''" "env_incarnation (demo_signed ms) = ''i''"
  "env_nonce (demo_signed ms) = replicate 16 9"
  "env_mac (demo_signed ms) = signHandshake demo_hash (replicate 16 1) (demo_hello ms)"
  "signHandshake demo_hash k (demo_signed ms) = signHandshake demo_hash k (demo_hello ms)"
  by (simp_all add: demo_signed_def demo_hello_def signHandshake_def)

lemma demo_signed_time: "0 \<le> ms \<Longrightarrow> ms < 2 ^ 63 \<Longrightarrow> timestamp_of (demo_signed ms) = ms * 1000000"
  unfolding timestamp_of_def demo_signed_def demo_hello_def
  by (simp add: sint_sbintrunc' signed_take_bit_int_eq_self)

lemma demo_running_simps [simp]:
  "peerSecret demo_running ''n2'' = replicate 16 1" "ClockSkew demo_running = 30 * second" "NonceTTL demo_running = 300 * second"
  by (simp_all add: demo_running_def demo_config_def default_defs peerSecret_def positive_or_def Let_def)

lemma demo_accepted:
  "verifyHandshake demo_hash demo_running [] 0 (demo_signed 0) KIND_HELLO
     = (None, [(nonceKey (demo_signed 0), 300 * second)])"
  by (simp add: verifyHandshake_def demo_signed_time)

theorem accepted_handshake_is_authentic_witness:
  "signed_fields (demo_signed 0) = signed_fields (demo_hello 0) \<and>
   fst (verifyHandshake demo_hash demo_running [] 0 (demo_signed 0) KIND_HELLO) = None"
proof -
  have "signed_fields (demo_signed 0) = signed_fields (demo_hello 0) \<and> env_version (demo_signed 0) = protocolVersion \<and>
    env_kind (demo_signed 0) = KIND_HELLO \<and> env_source_node (demo_signed 0) \<noteq> '''' \<and> env_incarnation (demo_signed 0) \<noteq> '''' \<and>
    \<bar>timestamp_of (demo_signed 0) - 0\<bar> \<le> ClockSkew demo_running"
    by (rule accepted_handshake_is_authentic [OF demo_accepted, of "demo_hello 0"])
       (simp_all add: short_names_def demo_hash_def, simp_all add: demo_hello_def)
  then show ?thesis by (simp add: demo_accepted)
qed

section \<open>Replay\<close>

lemma hexdigit_inj: "a < 16 \<Longrightarrow> b < 16 \<Longrightarrow> hexdigit a = hexdigit b \<longleftrightarrow> a = b"
  by (auto simp: hexdigit_def dest!: arg_cong [of _ _ "of_char :: char \<Rightarrow> nat"] split: if_splits)

lemma hexdigit_colon: "a < 16 \<Longrightarrow> hexdigit a \<noteq> CHR '':''"
  by (auto simp: hexdigit_def dest!: arg_cong [of _ _ "of_char :: char \<Rightarrow> nat"] split: if_splits)

lemma byte_digits: "unat (b :: byte) div 16 < 16" "unat b mod 16 < 16"
  using unsigned_less [of b, where 'a = nat] by auto

lemma Sprintf_x_colon: "CHR '':'' \<notin> set (Sprintf_x bytes)"
proof -
  have "CHR '':'' \<noteq> hexdigit (unat b div 16)" "CHR '':'' \<noteq> hexdigit (unat b mod 16)" for b :: byte
    using hexdigit_colon [OF byte_digits(1) [of b]] hexdigit_colon [OF byte_digits(2) [of b]] by metis+
  then show ?thesis by (simp add: Sprintf_x_def)
qed

lemma Sprintf_x_inj: "Sprintf_x xs = Sprintf_x ys \<Longrightarrow> xs = ys"
proof (induction xs arbitrary: ys)
  case Nil
  then show ?case by (cases ys) (simp_all add: Sprintf_x_def)
next
  case (Cons x xs)
  then obtain y ys' where ys: "ys = y # ys'" by (cases ys) (simp_all add: Sprintf_x_def)
  with Cons.prems have "unat x div 16 = unat y div 16" "unat x mod 16 = unat y mod 16" "Sprintf_x xs = Sprintf_x ys'"
    by (simp_all add: Sprintf_x_def hexdigit_inj byte_digits)
  moreover from this have "unat x = unat y" by (metis div_mult_mod_eq)
  ultimately show ?case using Cons.IH ys by (auto intro: unsigned_word_eqI [where 'a = nat])
qed

lemma split_at_last:
  "x \<notin> set ys \<Longrightarrow> x \<notin> set ys' \<Longrightarrow> xs @ x # ys = xs' @ x # ys' \<Longrightarrow> xs = xs' \<and> ys = ys'"
  by (auto simp: append_eq_append_conv2 append_eq_Cons_conv Cons_eq_append_conv)

lemma nonceKey_inj: "nonceKey e = nonceKey f \<longleftrightarrow> env_source_node e = env_source_node f \<and> env_nonce e = env_nonce f"
proof
  assume "nonceKey e = nonceKey f"
  then have "env_source_node e @ CHR '':'' # Sprintf_x (env_nonce e) = env_source_node f @ CHR '':'' # Sprintf_x (env_nonce f)"
    by (simp add: nonceKey_def)
  then show "env_source_node e = env_source_node f \<and> env_nonce e = env_nonce f"
    using split_at_last [OF Sprintf_x_colon Sprintf_x_colon] Sprintf_x_inj by metis
qed (simp add: nonceKey_def)

text \<open>
  What holds after the events up to time \<open>last_now\<close>: an accepted handshake was within the skew, and its nonce is
  still remembered or the time to live has passed; every remembered nonce belongs to an accepted handshake.
\<close>

definition identity :: "int \<times> Envelope \<Rightarrow> string \<times> byte list \<times> 64 word" where
  "identity a = (env_source_node (snd a), env_nonce (snd a), env_timestamp_unix_milli (snd a))"

definition purged :: "int \<Rightarrow> nonces \<Rightarrow> nonces" where
  "purged now nonces = filter (\<lambda>(k, expires). \<not> expires < now) nonces"

definition held :: "nonces \<Rightarrow> string \<Rightarrow> int \<Rightarrow> bool" where
  "held nonces key until \<longleftrightarrow> (\<exists>x \<ge> until. (key, x) \<in> set nonces)"

definition remembered :: "'r Config \<Rightarrow> int \<Rightarrow> nonces \<Rightarrow> int \<times> Envelope \<Rightarrow> bool" where
  "remembered c last_now nonces a \<longleftrightarrow> timestamp_of (snd a) \<le> fst a + ClockSkew c \<and>
     (held nonces (nonceKey (snd a)) (fst a + NonceTTL c) \<or> fst a + NonceTTL c < last_now)"

definition replay_inv :: "'r Config \<Rightarrow> int \<Rightarrow> (int \<times> Envelope) list \<times> nonces \<Rightarrow> bool" where
  "replay_inv c last_now st \<longleftrightarrow> list_all (remembered c last_now (snd st)) (fst st) \<and>
     fst ` set (snd st) \<subseteq> nonceKey ` snd ` set (fst st) \<and> distinct (map identity (fst st))"

lemma accepted_facts:
  assumes "verifyHandshake hmac c nonces now e kind = (None, n1)"
  shows "timestamp_of e \<le> now + ClockSkew c" and "now \<le> timestamp_of e + ClockSkew c"
    and "nonceKey e \<notin> fst ` set (purged now nonces)" and "n1 = (nonceKey e, now + NonceTTL c) # purged now nonces"
  using assms by (auto simp: verifyHandshake_def Let_def purged_def split: if_splits)

lemma refused_facts:
  assumes "verifyHandshake hmac c nonces now e kind = (Some err, n1)"
  shows "n1 = nonces \<or> n1 = purged now nonces" and "err = NonceReplay \<Longrightarrow> nonceKey e \<in> fst ` set nonces"
  using assms by (auto simp: verifyHandshake_def Let_def purged_def split: if_splits)

lemma held_purged: "held nonces key until \<Longrightarrow> held (purged now nonces) key until \<or> until < now"
  by (force simp: held_def purged_def)

lemma remembered_later: "remembered c l n a \<Longrightarrow> l \<le> now \<Longrightarrow> remembered c now n a"
  by (auto simp: remembered_def)

lemma remembered_purged: "remembered c l n a \<Longrightarrow> l \<le> now \<Longrightarrow> remembered c now (purged now n) a"
  using held_purged [of n "nonceKey (snd a)" "fst a + NonceTTL c" now] by (auto simp: remembered_def)

lemma remembered_more: "remembered c l n a \<Longrightarrow> remembered c l (x # n) a"
  by (auto simp: remembered_def held_def)

lemma purged_subset: "fst ` set (purged now n) \<subseteq> fst ` set n"
  by (auto simp: purged_def)

lemma replay_inv_refused:
  assumes "replay_inv c l (acc, n)" and "l \<le> now" and "n1 = n \<or> n1 = purged now n"
  shows "replay_inv c now (acc, n1)"
proof -
  have "fst ` set n1 \<subseteq> nonceKey ` snd ` set acc"
    using assms(1,3) subset_trans [OF purged_subset [of now n]] unfolding replay_inv_def by (elim disjE) simp_all
  then show ?thesis using assms remembered_later [of c l n _ now] remembered_purged [of c l n _ now]
    by (auto simp: replay_inv_def list_all_iff)
qed

lemma replay_inv_accepted:
  assumes inv: "replay_inv c l (acc, n)" and le: "l \<le> now" and ttl: "2 * ClockSkew c \<le> NonceTTL c"
    and ver: "verifyHandshake hmac c n now e kind = (None, n1)"
  shows "replay_inv c now ((now, e) # acc, n1)"
proof -
  note f = accepted_facts [OF ver]
  have inv': "replay_inv c now (acc, purged now n)" by (rule replay_inv_refused [OF inv le]) simp
  have "identity (now, e) \<noteq> identity a" if "a \<in> set acc" for a
  proof
    assume same: "identity (now, e) = identity a"
    have rem: "remembered c now (purged now n) a" using inv' that by (simp add: replay_inv_def list_all_iff)
    from same have key: "nonceKey e = nonceKey (snd a)" and ts: "timestamp_of e = timestamp_of (snd a)"
      by (simp_all add: identity_def nonceKey_def timestamp_of_def)
    from f(3) key have "\<not> held (purged now n) (nonceKey (snd a)) (fst a + NonceTTL c)" by (force simp: held_def)
    then show False using rem ts f(2) ttl by (simp add: remembered_def)
  qed
  then have dist: "distinct (map identity ((now, e) # acc))" using inv' by (auto simp: replay_inv_def)
  have "remembered c now n1 (now, e)" using f(1,4) by (auto simp: remembered_def held_def)
  then show ?thesis using inv' dist remembered_more [of c now "purged now n"]
    by (auto simp: replay_inv_def list_all_iff f(4))
qed

lemma replay_inv_run:
  "replay_inv c l st \<Longrightarrow> 2 * ClockSkew c \<le> NonceTTL c \<Longrightarrow> sorted (l # map fst evs) \<Longrightarrow>
     \<exists>l'. replay_inv c l' (fold (auth_step hmac c) evs st)"
proof (induction evs arbitrary: l st)
  case (Cons ev evs)
  obtain now e kind where ev: "ev = (now, e, kind)" by (cases ev)
  have "replay_inv c now (auth_step hmac c ev st)"
  proof (cases "verifyHandshake hmac c (snd st) now e kind")
    case (Pair err n1)
    with Cons.prems ev show ?thesis
      using replay_inv_accepted [of c l "fst st" "snd st" now hmac e kind n1] refused_facts(1) [of hmac c "snd st" now e kind _ n1]
        replay_inv_refused [of c l "fst st" "snd st" now n1]
      by (cases err) (auto simp: auth_step_def)
  qed
  moreover have "sorted (now # map fst evs)" using Cons.prems(3) ev by simp
  ultimately show ?case using Cons.IH Cons.prems(2) by simp
qed auto



text \<open>
  Without that relation between the two durations, which \<open>defaults\<close> does not ask for, replay works.  In a
  configuration that \<open>defaults\<close> accepts and whose nonce lifetime is shorter than twice the allowed skew, any
  handshake that is valid at its own timestamp is accepted twice: as early as the skew allows and, the same
  bytes again, as late as it allows.
\<close>

theorem short_nonce_ttl_allows_replay:
  assumes "defaults c = Inr c" and "NonceTTL c < 2 * ClockSkew c"
    and "fst (verifyHandshake hmac c [] (timestamp_of e) e kind) = None"
  shows "map snd (fst (auth_history hmac c
    [(timestamp_of e - ClockSkew c, e, kind), (timestamp_of e + ClockSkew c, e, kind)])) = [e, e]"
proof -
  have "0 < ClockSkew c" using defaults_wf [OF assms(1)] by (simp add: config_wf_def)
  moreover have "env_version e = protocolVersion" "env_kind e = kind" "env_source_node e \<noteq> []" "env_incarnation e \<noteq> []"
    "\<not> length (env_nonce e) < 16" "signHandshake hmac (peerSecret c (env_source_node e)) e = env_mac e"
    using assms(3) by (auto simp: verifyHandshake_def Let_def split: if_splits)
  ultimately show ?thesis using assms(2) by (simp add: auth_history_def auth_step_def verifyHandshake_def)
qed

lemma demo_short_ttl:
  "defaults (demo_running\<lparr>NonceTTL := second\<rparr>) = Inr (demo_running\<lparr>NonceTTL := second\<rparr>)"
  by (simp add: demo_running_def defaults_def default_defs demo_config_def positive_or_def MaxPayload_def hardMaxPayload_def
      valid_peer_secrets_def twice64_small)

theorem short_nonce_ttl_allows_replay_witness:
  "map snd (fst (auth_history demo_hash (demo_running\<lparr>NonceTTL := second\<rparr>)
     [(- (30 * second), demo_signed 0, KIND_HELLO), (30 * second, demo_signed 0, KIND_HELLO)])) = [demo_signed 0, demo_signed 0]"
proof -
  have "peerSecret (demo_running\<lparr>NonceTTL := second\<rparr>) ''n2'' = replicate 16 1"
    by (simp add: demo_running_def demo_config_def default_defs peerSecret_def Let_def)
  then have "fst (verifyHandshake demo_hash (demo_running\<lparr>NonceTTL := second\<rparr>) [] (timestamp_of (demo_signed 0)) (demo_signed 0) KIND_HELLO) = None"
    by (simp add: verifyHandshake_def demo_signed_time)
  from short_nonce_ttl_allows_replay [OF demo_short_ttl _ this] show ?thesis by (simp add: demo_signed_time)
qed

end
