(* ===== verification/Cluster_Inbound.thy ===== *)
theory Cluster_Inbound
  imports Cluster_Wire "HOL-Library.Multiset"
begin

text \<open>
  The receiving side of a node: the connection handler of \<open>cluster/inbound.go\<close>, the sharded dispatcher of
  \<open>cluster/dispatcher.go\<close> and the admission barrier of \<open>cluster/drain.go\<close>.  Connections and jobs are indices
  into stores; a job's \<open>canceled\<close> flag is shared by the connection and the dispatcher.  A step is one frame
  handled by a connection's reader, one move of a shard worker, one completed call or one round of a barrier
  goroutine; steps interleave freely.  Frames written to a connection and reported errors go to a log.  The
  actor system is a parameter: how it resolves a name, and how it answers a dispatch.
\<close>

record inboundConn =
  remoteNode :: string
  admissionNext :: nat
  admissionDone :: nat
  admissionFinished :: "nat list"
  barrierPending :: bool
  conn_calls :: "(nat \<times> nat) list"
  conn_closed :: bool

record inboundJob =
  admissionSeq :: nat
  job_conn :: nat
  job_envelope :: Envelope
  job_canceled :: bool

text \<open>A shard worker waits at its queue, or has taken a job whose slot it has not yet given back.\<close>

datatype shard_worker = AtQueue | Took nat | WorkerGone

datatype in_log =
    WroteResponse nat "go_error option"
  | WrotePong nat nat
  | BarrierPong nat nat nat
  | BarrierBusy nat nat
  | WroteResolve nat nat "go_error option"
  | ReportedAsync nat go_error

record inbound =
  in_NodeID :: string
  in_incarnation :: string
  in_MaxCalls :: nat
  in_Queue :: nat
  conns :: "inboundConn list"
  jobs :: "inboundJob list"
  shards :: "nat list list"
  shard_workers :: "shard_worker list"
  slots :: nat
  queued :: int
  callsem :: nat
  active :: "nat list"
  barriers :: "(nat \<times> nat \<times> nat) list"
  in_stopped :: bool
  inboundRejected :: nat
  sendsDropped :: nat
  protocolErrors :: nat
  cancelsReceived :: nat
  in_log :: "in_log list"

definition admissionBarrierProtocol :: string where
  "admissionBarrierProtocol = ''__skygo_admission_barrier_v1''"

definition newInboundDispatcher :: "string \<Rightarrow> string \<Rightarrow> nat \<Rightarrow> nat \<Rightarrow> nat \<Rightarrow> inbound" where
  "newInboundDispatcher node incarnation nshards queue calls =
     \<lparr>in_NodeID = node, in_incarnation = incarnation, in_MaxCalls = calls, in_Queue = queue, conns = [], jobs = [],
      shards = replicate nshards [], shard_workers = replicate nshards AtQueue, slots = 0, queued = 0, callsem = 0,
      active = [], barriers = [], in_stopped = False, inboundRejected = 0, sendsDropped = 0, protocolErrors = 0,
      cancelsReceived = 0, in_log = []\<rparr>"

definition upd_conn :: "nat \<Rightarrow> (inboundConn \<Rightarrow> inboundConn) \<Rightarrow> inbound \<Rightarrow> inbound" where
  "upd_conn c f s = s\<lparr>conns := (conns s)[c := f (conns s ! c)]\<rparr>"

definition upd_job :: "nat \<Rightarrow> (inboundJob \<Rightarrow> inboundJob) \<Rightarrow> inbound \<Rightarrow> inbound" where
  "upd_job j f s = s\<lparr>jobs := (jobs s)[j := f (jobs s ! j)]\<rparr>"

definition logged :: "in_log \<Rightarrow> inbound \<Rightarrow> inbound" where
  "logged e s = s\<lparr>in_log := in_log s @ [e]\<rparr>"

section \<open>Admission numbers\<close>

definition beginAdmission :: "inboundConn \<Rightarrow> nat \<times> inboundConn" where
  "beginAdmission c = (admissionNext c + 1, c\<lparr>admissionNext := admissionNext c + 1\<rparr>)"

text \<open>The loop of \<open>finishAdmission\<close>.\<close>

function advance :: "nat list \<Rightarrow> nat \<Rightarrow> nat list \<times> nat" where
  "advance finished n = (if n + 1 \<in> set finished then advance (removeAll (n + 1) finished) (n + 1) else (finished, n))"
  by pat_completeness auto
termination
  by (relation "measure (\<lambda>(finished, n). length finished)") (auto intro: length_removeAll_less)

declare advance.simps [simp del]

definition finishAdmission :: "nat \<Rightarrow> inboundConn \<Rightarrow> inboundConn" where
  "finishAdmission sequence c =
     (if sequence = 0 then c
      else let (finished, n) = advance (List.insert sequence (admissionFinished c)) (admissionDone c)
           in c\<lparr>admissionFinished := finished, admissionDone := n\<rparr>)"

section \<open>The connection\<close>

definition forgetCall :: "nat \<Rightarrow> inboundConn \<Rightarrow> inboundConn" where
  "forgetCall requestID c = c\<lparr>conn_calls := filter (\<lambda>(r, j). r \<noteq> requestID) (conn_calls c)\<rparr>"

text \<open>\<open>inboundConn.close\<close>: every registered call is marked as canceled.\<close>

definition close_conn :: "nat \<Rightarrow> inbound \<Rightarrow> inbound" where
  "close_conn c s =
     (if conn_closed (conns s ! c) then s
      else fold (\<lambda>(r, j). upd_job j (\<lambda>x. x\<lparr>job_canceled := True\<rparr>)) (conn_calls (conns s ! c))
             (upd_conn c (\<lambda>x. x\<lparr>conn_closed := True\<rparr>) s))"

text \<open>\<open>acceptConn\<close> after its handshake: the connection enters the node's set unless the node is stopping.\<close>

definition accept_conn :: "string \<Rightarrow> inbound \<Rightarrow> inbound" where
  "accept_conn remote s =
     (if in_stopped s then s
      else s\<lparr>conns := conns s @ [\<lparr>remoteNode = remote, admissionNext = 0, admissionDone = 0, admissionFinished = [],
                barrierPending = False, conn_calls = [], conn_closed = False\<rparr>]\<rparr>)"

text \<open>\<open>submit\<close>: a slot of the global bound first, then a place in the shard of the target's address.\<close>

definition submit :: "nat \<Rightarrow> inbound \<Rightarrow> bool \<times> inbound" where
  "submit j s =
     (case env_target (job_envelope (jobs s ! j)) of
        None \<Rightarrow> (False, s)
      | Some target \<Rightarrow>
          if shards s = [] then (False, s)
          else let k = wt_address target mod length (shards s)
               in if \<not> slots s < in_Queue s then (False, s)
                  else if length (shards s ! k) < in_Queue s
                  then (True, s\<lparr>slots := slots s + 1, shards := (shards s)[k := shards s ! k @ [j]], queued := queued s + 1\<rparr>)
                  else (False, s))"

text \<open>A frame of kind CALL or SEND becomes a job, whose index is the next free one.\<close>

definition new_job :: "nat \<Rightarrow> Envelope \<Rightarrow> inbound \<Rightarrow> inbound" where
  "new_job c e s =
     (case beginAdmission (conns s ! c) of (n, conn) \<Rightarrow>
        s\<lparr>conns := (conns s)[c := conn],
          jobs := jobs s @ [\<lparr>admissionSeq = n, job_conn = c, job_envelope = e, job_canceled = False\<rparr>]\<rparr>)"

definition receive_call :: "nat \<Rightarrow> Envelope \<Rightarrow> inbound \<Rightarrow> inbound" where
  "receive_call c e s =
     (let j = length (jobs s);
          s1 = upd_conn c (\<lambda>x. x\<lparr>conn_calls := (env_request_id e, j) # filter (\<lambda>(r, i). r \<noteq> env_request_id e) (conn_calls x)\<rparr>)
                 (new_job c e s)
      in case submit j s1 of
           (True, s2) \<Rightarrow> s2
         | (False, s2) \<Rightarrow>
             logged (WroteResponse j (Some ErrTransportBackpressure))
               (upd_conn c (\<lambda>x. forgetCall (env_request_id e) (finishAdmission (admissionSeq (jobs s2 ! j)) x))
                 (s2\<lparr>inboundRejected := inboundRejected s2 + 1\<rparr>)))"

definition receive_send :: "nat \<Rightarrow> Envelope \<Rightarrow> inbound \<Rightarrow> inbound" where
  "receive_send c e s =
     (let j = length (jobs s); s1 = new_job c e s
      in case submit j s1 of
           (True, s2) \<Rightarrow> s2
         | (False, s2) \<Rightarrow>
             logged (ReportedAsync j ErrTransportBackpressure)
               (upd_conn c (finishAdmission (admissionSeq (jobs s2 ! j)))
                 (s2\<lparr>inboundRejected := inboundRejected s2 + 1, sendsDropped := sendsDropped s2 + 1\<rparr>)))"

definition receive_cancel :: "nat \<Rightarrow> nat \<Rightarrow> inbound \<Rightarrow> inbound" where
  "receive_cancel c requestID s =
     (let s1 = s\<lparr>cancelsReceived := cancelsReceived s + 1\<rparr>
      in case map_of (conn_calls (conns s1 ! c)) requestID of
           None \<Rightarrow> s1
         | Some j \<Rightarrow> upd_job j (\<lambda>x. x\<lparr>job_canceled := True\<rparr>) s1)"

text \<open>The synchronous part of \<open>barrier\<close>; its goroutine remembers the connection, the number and the request.\<close>

definition barrier :: "nat \<Rightarrow> nat \<Rightarrow> inbound \<Rightarrow> inbound" where
  "barrier c requestID s =
     (let sequence = admissionNext (conns s ! c)
      in if barrierPending (conns s ! c) then logged (BarrierBusy c requestID) s
         else (upd_conn c (\<lambda>x. x\<lparr>barrierPending := True\<rparr>) s)\<lparr>barriers := barriers s @ [(c, sequence, requestID)]\<rparr>)"

text \<open>\<open>resolve\<close>, with the actor system's answer; a failed write closes the connection.\<close>

definition resolve :: "(string \<Rightarrow> go_error + nat) \<Rightarrow> bool \<Rightarrow> nat \<Rightarrow> Envelope \<Rightarrow> inbound \<Rightarrow> inbound" where
  "resolve lookup wrote c e s =
     (if wrote
      then logged (WroteResolve c (env_request_id e) (case lookup (env_service e) of Inl err \<Rightarrow> Some err | Inr ref \<Rightarrow> None)) s
      else close_conn c s)"

text \<open>One round of the reader loop of \<open>acceptConn\<close>, for a frame that was read.\<close>

definition receive :: "(string \<Rightarrow> go_error + nat) \<Rightarrow> bool \<Rightarrow> nat \<Rightarrow> Envelope \<Rightarrow> inbound \<Rightarrow> inbound" where
  "receive lookup wrote c e s =
     (if env_version e \<noteq> protocolVersion \<or> env_source_node e \<noteq> remoteNode (conns s ! c)
      then close_conn c (s\<lparr>protocolErrors := protocolErrors s + 1\<rparr>)
      else if env_kind e = KIND_RESOLVE_REQUEST then resolve lookup wrote c e s
      else if env_kind e = KIND_CALL then receive_call c e s
      else if env_kind e = KIND_SEND then receive_send c e s
      else if env_kind e = KIND_CANCEL then receive_cancel c (env_request_id e) s
      else if env_kind e = KIND_PING
      then (if env_protocol e = admissionBarrierProtocol then barrier c (env_request_id e) s
            else logged (WrotePong c (env_request_id e)) s)
      else if env_kind e = KIND_PONG then s
      else s\<lparr>protocolErrors := protocolErrors s + 1\<rparr>)"

section \<open>The dispatcher\<close>

definition validateInboundTarget :: "inbound \<Rightarrow> RemoteTarget \<Rightarrow> go_error option" where
  "validateInboundTarget s target =
     (if tgt_Node target \<noteq> in_NodeID s \<or> tgt_Incarnation target \<noteq> in_incarnation s then Some ErrStaleRef else None)"

definition forget_job :: "nat \<Rightarrow> inbound \<Rightarrow> inbound" where
  "forget_job j s = upd_conn (job_conn (jobs s ! j)) (forgetCall (env_request_id (job_envelope (jobs s ! j)))) s"

text \<open>
  The body of \<open>dispatch\<close>, given what \<open>DispatchRemoteAsync\<close> returns (an error, or a future).  The deferred
  \<open>finishAdmission\<close> is in \<open>dispatch\<close> below.
\<close>

definition dispatch_body :: "go_error option \<Rightarrow> nat \<Rightarrow> inbound \<Rightarrow> inbound" where
  "dispatch_body answer j s =
     (let e = job_envelope (jobs s ! j); target = fromWireTarget (env_target e)
      in if job_canceled (jobs s ! j) then forget_job j s
         else case validateInboundTarget s target of
           Some err \<Rightarrow>
             (if env_kind e = KIND_SEND then logged (ReportedAsync j err) (s\<lparr>inboundRejected := inboundRejected s + 1\<rparr>)
              else logged (WroteResponse j (Some err)) (forget_job j s))
         | None \<Rightarrow>
             if env_kind e = KIND_CALL \<and> \<not> callsem s < in_MaxCalls s
             then logged (WroteResponse j (Some ErrTransportBackpressure))
                    (forget_job j (s\<lparr>inboundRejected := inboundRejected s + 1\<rparr>))
             else if env_kind e = KIND_SEND
             then (case answer of
                     None \<Rightarrow> s
                   | Some err \<Rightarrow> logged (ReportedAsync j err) (s\<lparr>inboundRejected := inboundRejected s + 1\<rparr>))
             else (case answer of
                     Some err \<Rightarrow> logged (WroteResponse j (Some err)) (forget_job j s)
                   | None \<Rightarrow> s\<lparr>callsem := callsem s + 1, active := active s @ [j]\<rparr>))"

definition dispatch :: "go_error option \<Rightarrow> nat \<Rightarrow> inbound \<Rightarrow> inbound" where
  "dispatch answer j s =
     (let s1 = dispatch_body answer j s
      in upd_conn (job_conn (jobs s ! j)) (finishAdmission (admissionSeq (jobs s ! j))) s1)"

text \<open>The loop of \<open>run\<close> for shard \<open>k\<close>: receive, then give the slot back and dispatch.\<close>

definition run_take :: "nat \<Rightarrow> inbound \<Rightarrow> inbound" where
  "run_take k s =
     (case (shard_workers s ! k, shards s ! k) of
        (AtQueue, j # q) \<Rightarrow> s\<lparr>shards := (shards s)[k := q], shard_workers := (shard_workers s)[k := Took j]\<rparr>
      | _ \<Rightarrow> s)"

definition run_dispatch :: "go_error option \<Rightarrow> nat \<Rightarrow> inbound \<Rightarrow> inbound" where
  "run_dispatch answer k s =
     (case shard_workers s ! k of
        Took j \<Rightarrow>
          dispatch answer j (s\<lparr>queued := queued s - 1, slots := slots s - 1, shard_workers := (shard_workers s)[k := AtQueue]\<rparr>)
      | _ \<Rightarrow> s)"

definition run_exit :: "nat \<Rightarrow> inbound \<Rightarrow> inbound" where
  "run_exit k s =
     (case shard_workers s ! k of
        AtQueue \<Rightarrow> if in_stopped s then s\<lparr>shard_workers := (shard_workers s)[k := WorkerGone]\<rparr> else s
      | _ \<Rightarrow> s)"

text \<open>
  The goroutine of a dispatched call: its future completes (\<open>wrote\<close> tells whether the response could be
  written), or the node stops.
\<close>

definition call_done :: "go_error option \<Rightarrow> bool \<Rightarrow> nat \<Rightarrow> inbound \<Rightarrow> inbound" where
  "call_done result wrote j s =
     (if j \<notin> set (active s) then s
      else let s1 = forget_job j s;
               s2 = (if job_canceled (jobs s1 ! j) then s1
                     else if wrote then logged (WroteResponse j result) s1
                     else close_conn (job_conn (jobs s1 ! j)) s1)
           in s2\<lparr>active := remove1 j (active s2), callsem := callsem s2 - 1\<rparr>)"

definition call_abandoned :: "nat \<Rightarrow> inbound \<Rightarrow> inbound" where
  "call_abandoned j s =
     (if j \<notin> set (active s) \<or> \<not> in_stopped s then s
      else let s1 = forget_job j (upd_job j (\<lambda>x. x\<lparr>job_canceled := True\<rparr>) s)
           in s1\<lparr>active := remove1 j (active s1), callsem := callsem s1 - 1\<rparr>)"

text \<open>A round of a barrier's goroutine, and its end when its context does.\<close>

definition barrier_check :: "nat \<Rightarrow> inbound \<Rightarrow> inbound" where
  "barrier_check b s =
     (if b < length (barriers s)
      then (case barriers s ! b of (c, sequence, requestID) \<Rightarrow>
        if admissionDone (conns s ! c) \<ge> sequence
        then logged (BarrierPong c sequence requestID)
          ((upd_conn c (\<lambda>x. x\<lparr>barrierPending := False\<rparr>) s)\<lparr>barriers := take b (barriers s) @ drop (Suc b) (barriers s)\<rparr>)
        else s)
      else s)"

definition barrier_expire :: "nat \<Rightarrow> inbound \<Rightarrow> inbound" where
  "barrier_expire b s =
     (if b < length (barriers s)
      then (case barriers s ! b of (c, sequence, requestID) \<Rightarrow>
        (upd_conn c (\<lambda>x. x\<lparr>barrierPending := False\<rparr>) s)\<lparr>barriers := take b (barriers s) @ drop (Suc b) (barriers s)\<rparr>)
      else s)"

datatype in_event =
    Accept string
  | Frame nat Envelope bool
  | CloseConn nat
  | Take nat
  | Dispatch nat "go_error option"
  | WorkerExit nat
  | CallDone nat "go_error option" bool
  | CallAbandoned nat
  | BarrierCheck nat
  | BarrierExpire nat
  | StopNode

fun in_step :: "(string \<Rightarrow> go_error + nat) \<Rightarrow> in_event \<Rightarrow> inbound \<Rightarrow> inbound" where
  "in_step lookup (Accept remote) s = accept_conn remote s"
| "in_step lookup (Frame c e wrote) s =
     (if c < length (conns s) \<and> \<not> conn_closed (conns s ! c) then receive lookup wrote c e s else s)"
| "in_step lookup (CloseConn c) s = (if c < length (conns s) then close_conn c s else s)"
| "in_step lookup (Take k) s = (if k < length (shards s) then run_take k s else s)"
| "in_step lookup (Dispatch k answer) s = (if k < length (shards s) then run_dispatch answer k s else s)"
| "in_step lookup (WorkerExit k) s = (if k < length (shards s) then run_exit k s else s)"
| "in_step lookup (CallDone j result wrote) s = call_done result wrote j s"
| "in_step lookup (CallAbandoned j) s = call_abandoned j s"
| "in_step lookup (BarrierCheck b) s = barrier_check b s"
| "in_step lookup (BarrierExpire b) s = barrier_expire b s"
| "in_step lookup StopNode s = s\<lparr>in_stopped := True\<rparr>"

section \<open>Views of the state\<close>

text \<open>
  The invariants speak about parts of the state: what identifies a job, the admission numbers of a
  connection, and the jobs that are queued or taken but not yet dispatched.
\<close>

definition job_key :: "inboundJob \<Rightarrow> nat \<times> nat \<times> Envelope" where
  "job_key j = (job_conn j, admissionSeq j, job_envelope j)"

definition adm_key :: "inboundConn \<Rightarrow> nat \<times> nat \<times> nat list" where
  "adm_key c = (admissionNext c, admissionDone c, admissionFinished c)"

definition keys :: "inbound \<Rightarrow> (nat \<times> nat \<times> Envelope) list" where "keys s = map job_key (jobs s)"
definition adms :: "inbound \<Rightarrow> (nat \<times> nat \<times> nat list) list" where "adms s = map adm_key (conns s)"
definition cancels :: "inbound \<Rightarrow> bool list" where "cancels s = map job_canceled (jobs s)"
definition closed :: "inbound \<Rightarrow> bool list" where "closed s = map conn_closed (conns s)"

fun in_hand :: "shard_worker \<Rightarrow> nat list" where
  "in_hand (Took j) = [j]"
| "in_hand _ = []"

definition taken :: "shard_worker list \<Rightarrow> nat list" where "taken ws = concat (map in_hand ws)"

definition pend :: "inbound \<Rightarrow> nat list" where "pend s = concat (shards s) @ taken (shard_workers s)"

text \<open>Operations that leave the queues, the calls in progress, the log and the admission numbers alone.\<close>

definition quiet :: "inbound \<Rightarrow> inbound \<Rightarrow> bool" where
  "quiet s s' \<longleftrightarrow> keys s' = keys s \<and> adms s' = adms s \<and> shards s' = shards s \<and> shard_workers s' = shard_workers s \<and>
     slots s' = slots s \<and> queued s' = queued s \<and> callsem s' = callsem s \<and> active s' = active s \<and>
     barriers s' = barriers s \<and> in_log s' = in_log s \<and> in_Queue s' = in_Queue s \<and> in_MaxCalls s' = in_MaxCalls s \<and>
     list_all2 (\<longrightarrow>) (cancels s) (cancels s') \<and> list_all2 (\<longrightarrow>) (closed s) (closed s')"

lemma quiet_refl [simp]: "quiet s s"
  by (simp add: quiet_def list_all2_refl)

lemma quiet_trans: "quiet s s' \<Longrightarrow> quiet s' s'' \<Longrightarrow> quiet s s''"
  by (auto simp: quiet_def list_all2_conv_all_nth)

lemma quiet_upd_job: "quiet s (upd_job j (\<lambda>x. x\<lparr>job_canceled := True\<rparr>) s)"
  by (cases "j < length (jobs s)")
     (auto simp: quiet_def upd_job_def keys_def adms_def cancels_def closed_def job_key_def map_update list_all2_conv_all_nth
        nth_list_update intro!: nth_equalityI)

lemma quiet_upd_conn:
  "(\<And>x. adm_key (f x) = adm_key x) \<Longrightarrow> (\<And>x. conn_closed x \<Longrightarrow> conn_closed (f x)) \<Longrightarrow> quiet s (upd_conn c f s)"
  by (cases "c < length (conns s)")
     (auto simp: quiet_def upd_conn_def keys_def adms_def cancels_def closed_def map_update list_all2_conv_all_nth
        nth_list_update intro!: nth_equalityI)

lemma quiet_forget: "quiet s (forget_job j s)"
  unfolding forget_job_def by (rule quiet_upd_conn) (simp_all add: forgetCall_def adm_key_def)

lemma quiet_cancel_all: "quiet s (fold (\<lambda>(r, j). upd_job j (\<lambda>x. x\<lparr>job_canceled := True\<rparr>)) xs s)"
proof (induction xs arbitrary: s)
  case (Cons x xs)
  then show ?case by (cases x) (auto intro: quiet_trans [OF quiet_upd_job])
qed simp

lemma quiet_close: "quiet s (close_conn c s)"
proof -
  have "quiet s (upd_conn c (\<lambda>x. x\<lparr>conn_closed := True\<rparr>) s)" by (rule quiet_upd_conn) (simp_all add: adm_key_def)
  then show ?thesis by (auto simp: close_conn_def intro: quiet_trans [OF _ quiet_cancel_all])
qed

lemma quiet_counters:
  "quiet s (s\<lparr>inboundRejected := n\<rparr>)" "quiet s (s\<lparr>sendsDropped := n\<rparr>)" "quiet s (s\<lparr>protocolErrors := n\<rparr>)"
  "quiet s (s\<lparr>cancelsReceived := n\<rparr>)" "quiet s (s\<lparr>in_stopped := b\<rparr>)"
  by (simp_all add: quiet_def keys_def adms_def cancels_def closed_def list_all2_refl)

lemma quiet_receive_cancel: "quiet s (receive_cancel c r s)"
  by (auto simp: receive_cancel_def Let_def quiet_counters split: option.splits intro: quiet_trans [OF quiet_counters(4) quiet_upd_job])

section \<open>Admission\<close>

lemma advance_facts:
  assumes "advance f n = (f', n')" and "set f \<subseteq> {n<..}"
  shows "n \<le> n' \<and> set f' = set f - {..n'} \<and> {n<..n'} \<subseteq> set f"
  using assms
proof (induction f n rule: advance.induct)
  case (1 f n)
  show ?case
  proof (cases "n + 1 \<in> set f")
    case True
    then have "advance (removeAll (n + 1) f) (n + 1) = (f', n')" using "1.prems"(1) by (subst (asm) advance.simps) simp
    moreover have "set (removeAll (n + 1) f) \<subseteq> {n + 1<..}" using "1.prems"(2) by (auto simp: Suc_lessI)
    ultimately have ih: "n + 1 \<le> n' \<and> set f' = set (removeAll (n + 1) f) - {..n'} \<and> {n + 1<..n'} \<subseteq> set (removeAll (n + 1) f)"
      using "1.IH" True by blast
    then have "{n<..n'} \<subseteq> set f" using True by (auto simp: subset_iff) (metis Suc_lessI)
    then show ?thesis using ih by auto
  next
    case False
    then have "f' = f" "n' = n" using "1.prems"(1) by (subst (asm) advance.simps, simp)+
    then show ?thesis using "1.prems"(2) by auto
  qed
qed

type_synonym job_keys = "(nat \<times> nat \<times> Envelope) list"
type_synonym adm_keys = "(nat \<times> nat \<times> nat list) list"

abbreviation (input) next_of :: "adm_keys \<Rightarrow> nat \<Rightarrow> nat" where "next_of a c \<equiv> fst (a ! c)"
abbreviation (input) done_of :: "adm_keys \<Rightarrow> nat \<Rightarrow> nat" where "done_of a c \<equiv> fst (snd (a ! c))"
abbreviation (input) fin_of :: "adm_keys \<Rightarrow> nat \<Rightarrow> nat list" where "fin_of a c \<equiv> snd (snd (a ! c))"
abbreviation (input) conn_of :: "job_keys \<Rightarrow> nat \<Rightarrow> nat" where "conn_of k j \<equiv> fst (k ! j)"
abbreviation (input) seq_of :: "job_keys \<Rightarrow> nat \<Rightarrow> nat" where "seq_of k j \<equiv> fst (snd (k ! j))"

text \<open>Every job has its own number on its connection, not above the last one given out.\<close>

definition numbered :: "job_keys \<Rightarrow> adm_keys \<Rightarrow> bool" where
  "numbered k a \<longleftrightarrow>
     (\<forall>j < length k. conn_of k j < length a \<and> 1 \<le> seq_of k j \<and> seq_of k j \<le> next_of a (conn_of k j)) \<and>
     (\<forall>i < length k. \<forall>j < length k. conn_of k i = conn_of k j \<and> seq_of k i = seq_of k j \<longrightarrow> i = j)"

text \<open>A number is finished exactly when its job is not waiting any more.\<close>

definition finished_exactly :: "job_keys \<Rightarrow> adm_keys \<Rightarrow> nat set \<Rightarrow> bool" where
  "finished_exactly k a P \<longleftrightarrow>
     (\<forall>c < length a. done_of a c \<le> next_of a c \<and> set (fin_of a c) \<subseteq> {done_of a c<..next_of a c} \<and>
        (\<forall>q \<in> {1..next_of a c}. q \<le> done_of a c \<or> q \<in> set (fin_of a c) \<longleftrightarrow> \<not> (\<exists>j \<in> P. conn_of k j = c \<and> seq_of k j = q)))"

fun log_ok :: "adm_keys \<Rightarrow> in_log \<Rightarrow> bool" where
  "log_ok a (BarrierPong c q r) = (c < length a \<and> q \<le> done_of a c)"
| "log_ok a _ = True"

definition bar_ok :: "adm_keys \<Rightarrow> nat \<times> nat \<times> nat \<Rightarrow> bool" where
  "bar_ok a b \<longleftrightarrow> fst b < length a \<and> fst (snd b) \<le> next_of a (fst b)"

definition adm_inv :: "job_keys \<Rightarrow> adm_keys \<Rightarrow> nat set \<Rightarrow> (nat \<times> nat \<times> nat) list \<Rightarrow> in_log list \<Rightarrow> bool" where
  "adm_inv k a P bs l \<longleftrightarrow> numbered k a \<and> P \<subseteq> {..<length k} \<and> finished_exactly k a P \<and>
     list_all (bar_ok a) bs \<and> list_all (log_ok a) l"

lemma logs_ok_mono:
  assumes "list_all (log_ok a) l" and "length a' = length a" and "\<And>c. c < length a \<Longrightarrow> done_of a c \<le> done_of a' c"
  shows "list_all (log_ok a') l"
proof -
  have "log_ok a e \<Longrightarrow> log_ok a' e" for e using assms(2,3) by (cases e) (auto intro: order_trans)
  with assms(1) show ?thesis by (simp add: list_all_iff)
qed

lemma bars_ok_mono:
  assumes "list_all (bar_ok a) bs" and "length a' = length a" and "\<And>c. c < length a \<Longrightarrow> next_of a c \<le> next_of a' c"
  shows "list_all (bar_ok a') bs"
proof -
  have "bar_ok a e \<Longrightarrow> bar_ok a' e" for e using assms(2,3) by (auto simp: bar_ok_def intro: order_trans)
  with assms(1) show ?thesis by (simp add: list_all_iff)
qed

lemma numbered_new:
  assumes "numbered k a" and "c < length a"
  shows "numbered (k @ [(c, Suc (next_of a c), e)]) (a[c := (Suc (next_of a c), d, f)])"
proof -
  let ?k = "k @ [(c, Suc (next_of a c), e)]" and ?a = "a[c := (Suc (next_of a c), d, f)]"
  have old: "?k ! j = k ! j" "conn_of k j < length a" "1 \<le> seq_of k j" "seq_of k j \<le> next_of a (conn_of k j)"
    if "j < length k" for j using assms(1) that by (simp_all add: numbered_def nth_append)
  have grow: "next_of a i \<le> next_of ?a i" if "i < length a" for i using that by (cases "i = c") simp_all
  have "conn_of ?k j < length ?a \<and> 1 \<le> seq_of ?k j \<and> seq_of ?k j \<le> next_of ?a (conn_of ?k j)" if "j < length ?k" for j
  proof (cases "j < length k")
    case True
    then show ?thesis using old [OF True] grow [of "conn_of k j"] by simp
  next
    case False
    then have "j = length k" using that by simp
    then show ?thesis using assms(2) by simp
  qed
  moreover have "i = j" if "i < length ?k" "j < length ?k" "conn_of ?k i = conn_of ?k j" "seq_of ?k i = seq_of ?k j" for i j
  proof -
    note h = that
    have new: "conn_of ?k x \<noteq> c \<or> seq_of ?k x \<noteq> Suc (next_of a c)" if "x < length k" for x
      using old [OF that] by auto
    consider "i < length k" "j < length k" | "i < length k" "j = length k" | "i = length k" "j < length k" | "i = j"
      using h(1,2) by (auto simp: less_Suc_eq)
    then show ?thesis
    proof cases
      case 1
      then show ?thesis using h(3,4) assms(1) by (simp add: old numbered_def)
    next
      case 2
      then show ?thesis using h(3,4) new [of i] by simp
    next
      case 3
      then show ?thesis using h(3,4) new [of j] by simp
    qed
  qed
  ultimately show ?thesis unfolding numbered_def by blast
qed

lemma adm_inv_new:
  assumes "adm_inv k a P bs l" and "c < length a"
  shows "adm_inv (k @ [(c, Suc (next_of a c), e)]) (a[c := (Suc (next_of a c), done_of a c, fin_of a c)]) (insert (length k) P) bs l"
proof -
  let ?k = "k @ [(c, Suc (next_of a c), e)]" and ?a = "a[c := (Suc (next_of a c), done_of a c, fin_of a c)]"
  have P: "P \<subseteq> {..<length k}" and fin: "finished_exactly k a P" and num: "numbered k a"
    and bs: "list_all (bar_ok a) bs" and l: "list_all (log_ok a) l"
    using assms(1) by (auto simp: adm_inv_def)
  have old: "?k ! j = k ! j" if "j \<in> P" for j using that P by (auto simp: nth_append)
  have "finished_exactly ?k ?a (insert (length k) P)"
    unfolding finished_exactly_def
  proof (intro allI impI, goal_cases)
    case (1 i)
    then have i: "i < length a" by simp
    have f: "done_of a i \<le> next_of a i" "set (fin_of a i) \<subseteq> {done_of a i<..next_of a i}"
      "\<And>q. q \<in> {1..next_of a i} \<Longrightarrow> q \<le> done_of a i \<or> q \<in> set (fin_of a i) \<longleftrightarrow> \<not> (\<exists>j \<in> P. conn_of k j = i \<and> seq_of k j = q)"
      using fin i unfolding finished_exactly_def by blast+
    show ?case
    proof (cases "i = c")
      case True
      have "q \<le> done_of a c \<or> q \<in> set (fin_of a c) \<longleftrightarrow> \<not> (\<exists>j \<in> insert (length k) P. conn_of ?k j = c \<and> seq_of ?k j = q)"
        if "q \<in> {1..Suc (next_of a c)}" for q
      proof (cases "q = Suc (next_of a c)")
        case True
        then show ?thesis using f(1,2) \<open>i = c\<close> by (auto simp: subset_iff)
      next
        case False
        then have "q \<in> {1..next_of a c}" using that by auto
        then show ?thesis using f(3) \<open>i = c\<close> False old by (auto simp: nth_append)
      qed
      then show ?thesis using True i f(1,2) by (auto simp: subset_iff)
    next
      case False
      then show ?thesis using f i old by (simp add: nth_append)
    qed
  qed
  moreover have "list_all (bar_ok ?a) bs"
    by (rule bars_ok_mono [OF bs]) (simp_all add: nth_list_update assms(2))
  moreover have "list_all (log_ok ?a) l"
    by (rule logs_ok_mono [OF l]) (simp_all add: nth_list_update assms(2))
  moreover have "numbered ?k ?a" by (rule numbered_new [OF num assms(2)])
  ultimately show ?thesis using P by (auto simp: adm_inv_def)
qed

lemma advance_step:
  assumes "dn \<le> nx" and "set fin \<subseteq> {dn<..nx}" and "q \<le> nx" and "dn < q" and "advance (List.insert q fin) dn = (f, d)"
  shows "dn \<le> d" and "d \<le> nx" and "set f \<subseteq> {d<..nx}" and "p \<le> d \<or> p \<in> set f \<longleftrightarrow> p \<le> dn \<or> p = q \<or> p \<in> set fin"
proof -
  have "set (List.insert q fin) \<subseteq> {dn<..}" using assms(2,4) by auto
  from advance_facts [OF assms(5) this] have f: "dn \<le> d" "set f = insert q (set fin) - {..d}" "{dn<..d} \<subseteq> insert q (set fin)"
    by simp_all
  show "dn \<le> d" by (rule f(1))
  have mid: "x = q \<or> x \<in> set fin" if "dn < x" "x \<le> d" for x using f(3) that by auto
  show "d \<le> nx" using mid [of d] f(1) assms(1,2,3) by (cases "dn = d") auto
  show "set f \<subseteq> {d<..nx}" using f(2) assms(2,3) by auto
  show "p \<le> d \<or> p \<in> set f \<longleftrightarrow> p \<le> dn \<or> p = q \<or> p \<in> set fin"
    using mid [of p] f(1,2) by (cases "p \<le> d"; cases "dn < p") auto
qed

lemma numbered_uniq:
  "numbered k a \<Longrightarrow> i < length k \<Longrightarrow> j < length k \<Longrightarrow> conn_of k i = conn_of k j \<Longrightarrow> seq_of k i = seq_of k j \<Longrightarrow> i = j"
  unfolding numbered_def by blast

lemma adm_inv_finish:
  assumes inv: "adm_inv k a P bs l" and j: "j \<in> P" and adv: "advance (List.insert (seq_of k j) (fin_of a (conn_of k j))) (done_of a (conn_of k j)) = (f, d)"
  shows "adm_inv k (a[conn_of k j := (next_of a (conn_of k j), d, f)]) (P - {j}) bs l"
proof -
  let ?c = "conn_of k j" and ?q = "seq_of k j"
  let ?a = "a[?c := (next_of a ?c, d, f)]"
  have P: "P \<subseteq> {..<length k}" and fin: "finished_exactly k a P" and num: "numbered k a"
    and bs: "list_all (bar_ok a) bs" and l: "list_all (log_ok a) l"
    using inv by (auto simp: adm_inv_def)
  have jk: "j < length k" using P j by auto
  then have c: "?c < length a" and q: "1 \<le> ?q" "?q \<le> next_of a ?c" using num by (auto simp: numbered_def)
  have uniq: "i = j" if "i \<in> P" "conn_of k i = ?c" "seq_of k i = ?q" for i
    by (rule numbered_uniq [OF num _ jk that(2,3)]) (use P that(1) in auto)
  have fc: "done_of a ?c \<le> next_of a ?c" "set (fin_of a ?c) \<subseteq> {done_of a ?c<..next_of a ?c}"
    "\<And>p. p \<in> {1..next_of a ?c} \<Longrightarrow> p \<le> done_of a ?c \<or> p \<in> set (fin_of a ?c) \<longleftrightarrow> \<not> (\<exists>i \<in> P. conn_of k i = ?c \<and> seq_of k i = p)"
    using fin c unfolding finished_exactly_def by blast+
  have open_q: "\<not> ?q \<le> done_of a ?c" using fc(3) [of ?q] q j by auto
  then have "done_of a ?c < ?q" by simp
  note adv = advance_step [OF fc(1,2) q(2) this adv]
  have "finished_exactly k ?a (P - {j})"
    unfolding finished_exactly_def
  proof (intro allI impI, goal_cases)
    case (1 i)
    then have i: "i < length a" by simp
    show ?case
    proof (cases "i = ?c")
      case True
      have "p \<le> d \<or> p \<in> set f \<longleftrightarrow> \<not> (\<exists>i \<in> P - {j}. conn_of k i = ?c \<and> seq_of k i = p)" if "p \<in> {1..next_of a ?c}" for p
      proof -
        have "(\<exists>i \<in> P - {j}. conn_of k i = ?c \<and> seq_of k i = p) \<longleftrightarrow> p \<noteq> ?q \<and> (\<exists>i \<in> P. conn_of k i = ?c \<and> seq_of k i = p)"
          using uniq j by (cases "p = ?q") (blast, metis DiffD1 DiffI singletonD)
        then show ?thesis unfolding adv(4) using fc(3) [OF that] by blast
      qed
      then show ?thesis using True c adv(2,3) by simp
    next
      case False
      have "(\<exists>x \<in> P - {j}. conn_of k x = i \<and> seq_of k x = p) \<longleftrightarrow> (\<exists>x \<in> P. conn_of k x = i \<and> seq_of k x = p)" for p
        using False by auto
      then show ?thesis using fin i False by (simp add: finished_exactly_def)
    qed
  qed
  moreover have "numbered k ?a"
  proof -
    have "next_of ?a i = next_of a i" for i using c by (cases "i = ?c") simp_all
    then show ?thesis using num by (simp add: numbered_def)
  qed
  moreover have "list_all (bar_ok ?a) bs"
    by (rule bars_ok_mono [OF bs]) (simp_all add: nth_list_update c)
  moreover have "list_all (log_ok ?a) l"
    by (rule logs_ok_mono [OF l]) (use adv(1) in \<open>auto simp: nth_list_update c\<close>)
  ultimately show ?thesis using P by (auto simp: adm_inv_def)
qed

section \<open>The operations keep the invariants\<close>

text \<open>\<open>X\<close>: the jobs in the hands of the step under way.\<close>

definition adm_ok :: "nat set \<Rightarrow> inbound \<Rightarrow> bool" where
  "adm_ok X s \<longleftrightarrow> adm_inv (keys s) (adms s) (set (pend s) \<union> X) (barriers s) (in_log s)"

definition slots_ok :: "inbound \<Rightarrow> bool" where
  "slots_ok s \<longleftrightarrow> slots s = length (pend s) \<and> queued s = int (length (pend s)) \<and> slots s \<le> in_Queue s \<and>
     length (shard_workers s) = length (shards s) \<and> distinct (pend s)"

lemma quiet_pend: "quiet s s' \<Longrightarrow> pend s' = pend s"
  by (simp add: quiet_def pend_def)

lemma adm_ok_quiet: "quiet s s' \<Longrightarrow> adm_ok X s' = adm_ok X s"
  using quiet_pend [of s s'] by (simp add: adm_ok_def quiet_def)

lemma slots_ok_quiet: "quiet s s' \<Longrightarrow> slots_ok s' = slots_ok s"
  using quiet_pend [of s s'] by (simp add: slots_ok_def quiet_def)

lemma logged_views [simp]:
  "keys (logged e s) = keys s" "adms (logged e s) = adms s" "pend (logged e s) = pend s" "barriers (logged e s) = barriers s"
  "in_log (logged e s) = in_log s @ [e]" "cancels (logged e s) = cancels s" "closed (logged e s) = closed s"
  "active (logged e s) = active s" "callsem (logged e s) = callsem s" "slots_ok (logged e s) = slots_ok s"
  "in_MaxCalls (logged e s) = in_MaxCalls s"
  by (simp_all add: logged_def keys_def adms_def pend_def cancels_def closed_def slots_ok_def)

lemma adm_ok_logged: "log_ok (adms s) e \<Longrightarrow> adm_ok X (logged e s) = adm_ok X s"
  by (simp add: adm_ok_def adm_inv_def)

lemma lengths [simp]: "length (keys s) = length (jobs s)" "length (adms s) = length (conns s)"
  by (simp_all add: keys_def adms_def)

lemma adms_nth: "c < length (conns s) \<Longrightarrow> adms s ! c = adm_key (conns s ! c)"
  by (simp add: adms_def)

lemma keys_nth: "j < length (jobs s) \<Longrightarrow> keys s ! j = job_key (jobs s ! j)"
  by (simp add: keys_def)

lemma upd_conn_views [simp]:
  "keys (upd_conn c f s) = keys s" "pend (upd_conn c f s) = pend s" "barriers (upd_conn c f s) = barriers s"
  "in_log (upd_conn c f s) = in_log s" "cancels (upd_conn c f s) = cancels s" "jobs (upd_conn c f s) = jobs s"
  "active (upd_conn c f s) = active s" "callsem (upd_conn c f s) = callsem s" "slots_ok (upd_conn c f s) = slots_ok s"
  "in_MaxCalls (upd_conn c f s) = in_MaxCalls s" "length (conns (upd_conn c f s)) = length (conns s)"
  by (simp_all add: upd_conn_def keys_def pend_def cancels_def slots_ok_def)

lemma adms_upd_conn: "adms (upd_conn c f s) = (adms s)[c := adm_key (f (conns s ! c))]"
  by (simp add: adms_def upd_conn_def map_update)

lemma new_job_views:
  "pend (new_job c e s) = pend s" "barriers (new_job c e s) = barriers s" "in_log (new_job c e s) = in_log s"
  "length (jobs (new_job c e s)) = Suc (length (jobs s))" "length (conns (new_job c e s)) = length (conns s)"
  "slots_ok (new_job c e s) = slots_ok s"
  "keys (new_job c e s) = keys s @ [(c, Suc (admissionNext (conns s ! c)), e)]"
  "adms (new_job c e s) = (adms s)[c := (Suc (admissionNext (conns s ! c)), admissionDone (conns s ! c), admissionFinished (conns s ! c))]"
  by (simp_all add: new_job_def beginAdmission_def pend_def slots_ok_def keys_def adms_def map_update adm_key_def job_key_def)

lemma adm_ok_new:
  assumes "adm_ok X s" and "c < length (conns s)"
  shows "adm_ok (insert (length (jobs s)) X) (new_job c e s)"
  using adm_inv_new [OF assms(1) [unfolded adm_ok_def], of c e] assms(2)
  by (simp add: adm_ok_def new_job_views adms_nth adm_key_def)

lemma adm_ok_finish:
  assumes "adm_ok X s" and "j \<in> X" and "j \<notin> set (pend s)" and "q = admissionSeq (jobs s ! j)"
  shows "adm_ok (X - {j}) (upd_conn (job_conn (jobs s ! j)) (finishAdmission q) s)"
proof -
  let ?c = "job_conn (jobs s ! j)"
  have inv: "adm_inv (keys s) (adms s) (set (pend s) \<union> X) (barriers s) (in_log s)" using assms(1) by (simp add: adm_ok_def)
  then have j: "j < length (jobs s)" using assms(2) by (auto simp: adm_inv_def)
  then have k: "keys s ! j = (?c, q, job_envelope (jobs s ! j))" by (simp add: keys_nth job_key_def assms(4))
  have c: "?c < length (conns s)" and q: "1 \<le> q" using inv j k by (auto simp: adm_inv_def numbered_def)
  obtain f d where adv: "advance (List.insert q (admissionFinished (conns s ! ?c))) (admissionDone (conns s ! ?c)) = (f, d)"
    by (cases "advance (List.insert q (admissionFinished (conns s ! ?c))) (admissionDone (conns s ! ?c))")
  have "adm_key (finishAdmission q (conns s ! ?c)) = (admissionNext (conns s ! ?c), d, f)"
    using q adv by (simp add: finishAdmission_def adm_key_def)
  then have a: "adms (upd_conn ?c (finishAdmission q) s) = (adms s)[?c := (admissionNext (conns s ! ?c), d, f)]"
    by (simp add: adms_upd_conn)
  have P: "set (pend s) \<union> X - {j} = set (pend s) \<union> (X - {j})" using assms(3) by auto
  show ?thesis using adm_inv_finish [OF inv _ , of j f d] assms(2) adv
    by (simp add: adm_ok_def a k adms_nth [OF c] adm_key_def P)
qed

lemma mset_concat_update:
  "k < length xss \<Longrightarrow> mset (concat (xss[k := ys])) + mset (xss ! k) = mset (concat xss) + mset ys"
proof (induction xss arbitrary: k)
  case (Cons xs xss)
  then show ?case by (cases k) (auto simp: ac_simps)
qed simp

lemma mset_taken_update:
  "k < length ws \<Longrightarrow> mset (taken (ws[k := w])) + mset (in_hand (ws ! k)) = mset (taken ws) + mset (in_hand w)"
  using mset_concat_update [of k "map in_hand ws" "in_hand w"] by (simp add: taken_def map_update)

text \<open>Slots and queues depend on the waiting jobs only as a multiset.\<close>

lemma slots_ok_mset:
  "slots_ok s \<longleftrightarrow> slots s = size (mset (pend s)) \<and> queued s = int (size (mset (pend s))) \<and> slots s \<le> in_Queue s \<and>
     length (shard_workers s) = length (shards s) \<and> distinct (pend s)"
  by (simp add: slots_ok_def)

lemma distinct_mset_eq: "mset xs = mset ys \<Longrightarrow> distinct xs = distinct ys"
  by (metis mset_eq_imp_distinct_iff)

lemma submit_pend:
  assumes "submit j s = (True, s')"
  shows "mset (pend s') = add_mset j (mset (pend s))" and "slots s' = slots s + 1" and "queued s' = queued s + 1"
    and "slots s < in_Queue s" and "in_Queue s' = in_Queue s" and "length (shards s') = length (shards s)"
    and "shard_workers s' = shard_workers s"
proof -
  obtain target where t: "env_target (job_envelope (jobs s ! j)) = Some target" and ne: "shards s \<noteq> []"
    using assms by (auto simp: submit_def split: option.splits if_splits)
  define k where "k = wt_address target mod length (shards s)"
  have k: "k < length (shards s)" using ne by (simp add: k_def)
  have s': "s' = s\<lparr>slots := slots s + 1, shards := (shards s)[k := shards s ! k @ [j]], queued := queued s + 1\<rparr>"
    and room: "slots s < in_Queue s"
    using assms t ne by (auto simp: submit_def Let_def k_def split: if_splits)
  have "mset (concat ((shards s)[k := shards s ! k @ [j]])) + mset (shards s ! k) = mset (concat (shards s)) + mset (shards s ! k @ [j])"
    by (rule mset_concat_update [OF k])
  then have "mset (concat ((shards s)[k := shards s ! k @ [j]])) = add_mset j (mset (concat (shards s)))" by simp
  then show "mset (pend s') = add_mset j (mset (pend s))" by (simp add: s' pend_def)
  show "slots s' = slots s + 1" "queued s' = queued s + 1" "slots s < in_Queue s" "in_Queue s' = in_Queue s"
    "length (shards s') = length (shards s)" "shard_workers s' = shard_workers s" by (simp_all add: s' room)
qed

lemma submit_refused: "submit j s = (False, s') \<Longrightarrow> s' = s"
  by (auto simp: submit_def Let_def split: option.splits if_splits)

lemma submit_same:
  "submit j s = (ok, s') \<Longrightarrow> keys s' = keys s \<and> adms s' = adms s \<and> barriers s' = barriers s \<and> in_log s' = in_log s \<and>
     jobs s' = jobs s \<and> conns s' = conns s \<and> active s' = active s \<and> callsem s' = callsem s \<and> in_MaxCalls s' = in_MaxCalls s \<and>
     cancels s' = cancels s \<and> closed s' = closed s"
  by (auto simp: submit_def Let_def keys_def adms_def cancels_def closed_def split: option.splits if_splits)

lemma submit_slots_ok:
  assumes "submit j s = (True, s')" and "slots_ok s" and "j \<notin> set (pend s)"
  shows "slots_ok s'"
proof -
  note sub = submit_pend [OF assms(1)]
  have "distinct (pend s') = distinct (j # pend s)" by (rule distinct_mset_eq) (simp add: sub(1))
  then show ?thesis using assms(2,3) sub(4) by (simp add: slots_ok_mset sub del: size_mset)
qed

lemma submit_adm_ok:
  assumes "submit j s = (ok, s')" and "adm_ok (insert j X) s" and "j \<notin> X" and "j \<notin> set (pend s)"
  shows "adm_ok (if ok then X else insert j X) s'"
proof (cases ok)
  case True
  then have "mset (pend s') = mset (j # pend s)" using assms(1) submit_pend(1) [of j s s'] by simp
  then have "set (pend s') = insert j (set (pend s))" by (metis list.set(2) mset_eq_setD)
  then show ?thesis using assms(2) submit_same [OF assms(1)] True by (simp add: adm_ok_def)
next
  case False
  then show ?thesis using assms(1,2) submit_refused [of j s s'] by simp
qed

lemma adm_ok_upd_conn:
  "(\<And>x. adm_key (f x) = adm_key x) \<Longrightarrow> adm_ok X (upd_conn c f s) = adm_ok X s"
  by (cases "c < length (conns s)")
     (simp_all add: adm_ok_def adms_upd_conn adms_nth [symmetric] list_update_beyond)

lemma upd_conn_twice: "c < length (conns s) \<Longrightarrow> upd_conn c (\<lambda>x. f (g x)) s = upd_conn c f (upd_conn c g s)"
  by (simp add: upd_conn_def)

lemma forgetCall_adm: "adm_key (forgetCall r x) = adm_key x"
  by (simp add: forgetCall_def adm_key_def)

lemma fresh_job: "adm_ok X s \<Longrightarrow> length (jobs s) \<notin> set (pend s) \<and> length (jobs s) \<notin> X"
  by (auto simp: adm_ok_def adm_inv_def)

lemma receive_call_ok:
  assumes ok: "adm_ok {} s" "slots_ok s" and c: "c < length (conns s)"
  shows "adm_ok {} (receive_call c e s)" and "slots_ok (receive_call c e s)"
proof -
  let ?j = "length (jobs s)"
  define s1 where "s1 = upd_conn c (\<lambda>x. x\<lparr>conn_calls := (env_request_id e, ?j) # filter (\<lambda>(r, i). r \<noteq> env_request_id e) (conn_calls x)\<rparr>) (new_job c e s)"
  have a1: "adm_ok {?j} s1" unfolding s1_def using adm_ok_new [OF ok(1) c, of e]
    by (subst adm_ok_upd_conn) (simp_all add: adm_key_def)
  have p1: "pend s1 = pend s" "slots_ok s1" "jobs s1 = jobs (new_job c e s)" "length (conns s1) = length (conns s)"
    using ok(2) by (simp_all add: s1_def new_job_views)
  have fresh: "?j \<notin> set (pend s1)" using fresh_job [OF ok(1)] p1(1) by simp
  obtain b s2 where sub: "submit ?j s1 = (b, s2)" by (cases "submit ?j s1")
  have a2: "adm_ok (if b then {} else {?j}) s2" using submit_adm_ok [OF sub, of "{}"] a1 fresh by simp
  have "adm_ok {} (receive_call c e s) \<and> slots_ok (receive_call c e s)"
  proof (cases b)
    case True
    then have "receive_call c e s = s2" using sub by (simp add: receive_call_def Let_def flip: s1_def)
    then show ?thesis using a2 True submit_slots_ok [of ?j s1 s2] sub p1(2) fresh by simp
  next
    case False
    then have s2: "s2 = s1" using sub submit_refused by simp
    let ?s3 = "s2\<lparr>inboundRejected := inboundRejected s2 + 1\<rparr>"
    have jc: "job_conn (jobs s2 ! ?j) = c" using s2 p1(3) by (simp add: new_job_def beginAdmission_def)
    have q: "quiet s2 ?s3" by (rule quiet_counters)
    have "adm_ok ({?j} - {?j}) (upd_conn c (finishAdmission (admissionSeq (jobs s2 ! ?j))) ?s3)"
      using adm_ok_finish [of "{?j}" ?s3 ?j "admissionSeq (jobs s2 ! ?j)"] a2 False fresh s2 jc adm_ok_quiet [OF q] quiet_pend [OF q] by simp
    moreover have "receive_call c e s = logged (WroteResponse ?j (Some ErrTransportBackpressure))
        (upd_conn c (forgetCall (env_request_id e)) (upd_conn c (finishAdmission (admissionSeq (jobs s2 ! ?j))) ?s3))"
      using sub False c p1(4) s2 by (simp add: receive_call_def Let_def upd_conn_twice flip: s1_def)
    ultimately show ?thesis using p1(2) s2 slots_ok_quiet [OF q]
      by (simp add: adm_ok_logged adm_ok_upd_conn [OF forgetCall_adm])
  qed
  then show "adm_ok {} (receive_call c e s)" and "slots_ok (receive_call c e s)" by simp_all
qed

lemma receive_send_ok:
  assumes ok: "adm_ok {} s" "slots_ok s" and c: "c < length (conns s)"
  shows "adm_ok {} (receive_send c e s)" and "slots_ok (receive_send c e s)"
proof -
  let ?j = "length (jobs s)" and ?s1 = "new_job c e s"
  have a1: "adm_ok {?j} ?s1" using adm_ok_new [OF ok(1) c, of e] by simp
  have fresh: "?j \<notin> set (pend ?s1)" using fresh_job [OF ok(1)] by (simp add: new_job_views)
  obtain b s2 where sub: "submit ?j ?s1 = (b, s2)" by (cases "submit ?j ?s1")
  have a2: "adm_ok (if b then {} else {?j}) s2" using submit_adm_ok [OF sub, of "{}"] a1 fresh by simp
  have "adm_ok {} (receive_send c e s) \<and> slots_ok (receive_send c e s)"
  proof (cases b)
    case True
    then have "receive_send c e s = s2" using sub by (simp add: receive_send_def Let_def)
    then show ?thesis using a2 True submit_slots_ok [of ?j ?s1 s2] sub ok(2) fresh by (simp add: new_job_views)
  next
    case False
    then have s2: "s2 = ?s1" using sub submit_refused [of ?j ?s1 s2] by simp
    let ?s3 = "s2\<lparr>inboundRejected := inboundRejected s2 + 1, sendsDropped := sendsDropped s2 + 1\<rparr>"
    have jc: "job_conn (jobs s2 ! ?j) = c" using s2 by (simp add: new_job_def beginAdmission_def)
    have q: "quiet s2 ?s3" by (rule quiet_trans [OF quiet_counters(1) quiet_counters(2)])
    have "adm_ok ({?j} - {?j}) (upd_conn c (finishAdmission (admissionSeq (jobs s2 ! ?j))) ?s3)"
      using adm_ok_finish [of "{?j}" ?s3 ?j "admissionSeq (jobs s2 ! ?j)"] a2 False fresh s2 jc adm_ok_quiet [OF q] quiet_pend [OF q] by simp
    moreover have "receive_send c e s = logged (ReportedAsync ?j ErrTransportBackpressure)
        (upd_conn c (finishAdmission (admissionSeq (jobs s2 ! ?j))) ?s3)"
      using sub False by (simp add: receive_send_def Let_def)
    ultimately show ?thesis using ok(2) s2 slots_ok_quiet [OF q] by (simp add: adm_ok_logged new_job_views)
  qed
  then show "adm_ok {} (receive_send c e s)" and "slots_ok (receive_send c e s)" by simp_all
qed

lemma slots_ok_barriers: "slots_ok (s\<lparr>barriers := x\<rparr>) = slots_ok s"
  by (simp add: slots_ok_def pend_def)

lemma barrier_ok:
  assumes "adm_ok {} s" "slots_ok s" and c: "c < length (conns s)"
  shows "adm_ok {} (barrier c r s)" and "slots_ok (barrier c r s)"
proof -
  have b: "bar_ok (adms s) (c, admissionNext (conns s ! c), r)" using c by (simp add: bar_ok_def adms_nth adm_key_def)
  let ?s1 = "upd_conn c (\<lambda>x. x\<lparr>barrierPending := True\<rparr>) s"
  have "adm_ok {} ?s1" using assms(1) by (subst adm_ok_upd_conn) (simp_all add: adm_key_def)
  moreover have "adms ?s1 = adms s" using c by (simp add: adms_upd_conn adm_key_def adms_nth [OF c, symmetric, unfolded adm_key_def])
  ultimately have "adm_ok {} (?s1\<lparr>barriers := barriers s @ [(c, admissionNext (conns s ! c), r)]\<rparr>)"
    using b by (simp add: adm_ok_def adm_inv_def keys_def adms_def pend_def)
  then show "adm_ok {} (barrier c r s)" using assms(1) by (simp add: barrier_def Let_def adm_ok_logged)
  have "slots_ok ?s1" using assms(2) by simp
  then show "slots_ok (barrier c r s)" using assms(2) by (simp add: barrier_def Let_def slots_ok_barriers)
qed

lemma barrier_end:
  assumes "adm_ok {} s" "slots_ok s"
  shows "adm_ok {} ((upd_conn c (\<lambda>x. x\<lparr>barrierPending := False\<rparr>) s)\<lparr>barriers := take b (barriers s) @ drop (Suc b) (barriers s)\<rparr>)" (is "adm_ok {} ?s'")
    and "slots_ok ((upd_conn c (\<lambda>x. x\<lparr>barrierPending := False\<rparr>) s)\<lparr>barriers := take b (barriers s) @ drop (Suc b) (barriers s)\<rparr>)"
    and "adms ((upd_conn c (\<lambda>x. x\<lparr>barrierPending := False\<rparr>) s)\<lparr>barriers := take b (barriers s) @ drop (Suc b) (barriers s)\<rparr>) = adms s"
proof -
  let ?s1 = "upd_conn c (\<lambda>x. x\<lparr>barrierPending := False\<rparr>) s"
  have ok1: "adm_ok {} ?s1" "slots_ok ?s1" using assms by (subst adm_ok_upd_conn, simp_all add: adm_key_def)
  have "quiet s ?s1" by (rule quiet_upd_conn) (simp_all add: adm_key_def)
  then have same: "adms ?s1 = adms s" by (simp add: quiet_def)
  have "list_all P (barriers s) \<Longrightarrow> list_all P (take b (barriers s) @ drop (Suc b) (barriers s))" for P
    by (auto simp: list_all_iff dest: in_set_takeD in_set_dropD)
  then show "adm_ok {} ?s'" using ok1(1) by (simp add: adm_ok_def adm_inv_def keys_def adms_def pend_def)
  show "slots_ok ?s'" using ok1(2) by (simp add: slots_ok_def pend_def)
  show "adms ?s' = adms s" using same by (simp add: adms_def)
qed

lemma barrier_rounds_ok:
  assumes "adm_ok {} s" "slots_ok s"
  shows "adm_ok {} (barrier_check b s)" "slots_ok (barrier_check b s)" "adm_ok {} (barrier_expire b s)" "slots_ok (barrier_expire b s)"
proof -
  have "c < length (conns s)" if "b < length (barriers s)" "barriers s ! b = (c, q, r)" for c q r
  proof -
    have "bar_ok (adms s) (barriers s ! b)" using assms(1) that(1) by (simp add: adm_ok_def adm_inv_def list_all_length)
    then show ?thesis using that(2) by (simp add: bar_ok_def)
  qed
  then show "adm_ok {} (barrier_check b s)" "slots_ok (barrier_check b s)"
    using barrier_end [OF assms] assms
    by (auto simp: barrier_check_def adm_ok_logged adms_nth adm_key_def split: prod.splits)
  show "adm_ok {} (barrier_expire b s)" "slots_ok (barrier_expire b s)"
    using barrier_end [OF assms] assms by (auto simp: barrier_expire_def split: prod.splits)
qed

lemma run_take_pend:
  assumes "slots_ok s" and "k < length (shards s)"
  shows "mset (pend (run_take k s)) = mset (pend s)"
proof (cases "\<exists>j q. shard_workers s ! k = AtQueue \<and> shards s ! k = j # q")
  case True
  then obtain j q where w: "shard_workers s ! k = AtQueue" and q: "shards s ! k = j # q" by blast
  have k: "k < length (shard_workers s)" using assms by (simp add: slots_ok_def)
  have "mset (concat ((shards s)[k := q])) + {#j#} = mset (concat (shards s))"
    using mset_concat_update [OF assms(2), of q] q by simp
  moreover have "mset (taken ((shard_workers s)[k := Took j])) = mset (taken (shard_workers s)) + {#j#}"
    using mset_taken_update [OF k, of "Took j"] w by simp
  ultimately show ?thesis using w q by (simp add: run_take_def pend_def)
next
  case False
  then have "run_take k s = s" by (auto simp: run_take_def split: shard_worker.splits list.splits)
  then show ?thesis by simp
qed

lemma run_take_same:
  "keys (run_take k s) = keys s" "adms (run_take k s) = adms s" "barriers (run_take k s) = barriers s" "in_log (run_take k s) = in_log s"
  "slots (run_take k s) = slots s" "queued (run_take k s) = queued s" "in_Queue (run_take k s) = in_Queue s"
  "length (shards (run_take k s)) = length (shards s)" "length (shard_workers (run_take k s)) = length (shard_workers s)"
  "active (run_take k s) = active s" "callsem (run_take k s) = callsem s" "in_MaxCalls (run_take k s) = in_MaxCalls s"
  "cancels (run_take k s) = cancels s" "closed (run_take k s) = closed s"
  by (auto simp: run_take_def keys_def adms_def cancels_def closed_def split: shard_worker.splits list.splits)

lemma run_take_ok:
  assumes "adm_ok {} s" "slots_ok s" and "k < length (shards s)"
  shows "adm_ok {} (run_take k s)" and "slots_ok (run_take k s)"
proof -
  note m = run_take_pend [OF assms(2,3)]
  show "adm_ok {} (run_take k s)" using assms(1) mset_eq_setD [OF m] by (simp add: adm_ok_def run_take_same)
  show "slots_ok (run_take k s)" using assms(2) distinct_mset_eq [OF m] by (simp add: slots_ok_mset m run_take_same del: size_mset)
qed

text \<open>Giving the slot back leaves the job in the worker's hands.\<close>

definition released :: "nat \<Rightarrow> inbound \<Rightarrow> inbound" where
  "released k s = s\<lparr>queued := queued s - 1, slots := slots s - 1, shard_workers := (shard_workers s)[k := AtQueue]\<rparr>"

lemma released_views [simp]:
  "keys (released k s) = keys s" "adms (released k s) = adms s" "barriers (released k s) = barriers s" "in_log (released k s) = in_log s"
  "active (released k s) = active s" "callsem (released k s) = callsem s" "in_MaxCalls (released k s) = in_MaxCalls s"
  "cancels (released k s) = cancels s" "closed (released k s) = closed s" "jobs (released k s) = jobs s" "conns (released k s) = conns s"
  by (simp_all add: released_def keys_def adms_def cancels_def closed_def)

lemma released_pend:
  assumes "slots_ok s" and "k < length (shards s)" and "shard_workers s ! k = Took j"
  shows "mset (pend s) = add_mset j (mset (pend (released k s)))" and "j \<notin> set (pend (released k s))"
    and "slots_ok (released k s)"
proof -
  have k: "k < length (shard_workers s)" using assms(1,2) by (simp add: slots_ok_def)
  have t: "mset (taken (shard_workers s)) = add_mset j (mset (taken ((shard_workers s)[k := AtQueue])))"
    using mset_taken_update [OF k, of AtQueue] assms(3) by simp
  show m: "mset (pend s) = add_mset j (mset (pend (released k s)))"
    by (simp add: pend_def released_def t)
  then have "mset (pend s) = mset (j # pend (released k s))" by simp
  from distinct_mset_eq [OF this] assms(1) have d: "distinct (j # pend (released k s))" by (simp add: slots_ok_def)
  then show "j \<notin> set (pend (released k s))" by simp
  have len: "length (pend s) = Suc (length (pend (released k s)))"
    by (metis m size_add_mset size_mset)
  have f: "slots (released k s) = slots s - 1" "queued (released k s) = queued s - 1" "in_Queue (released k s) = in_Queue s"
    "length (shard_workers (released k s)) = length (shard_workers s)" "length (shards (released k s)) = length (shards s)"
    by (simp_all add: released_def)
  show "slots_ok (released k s)" unfolding slots_ok_def f using assms(1) [unfolded slots_ok_def] len d by auto
qed

lemma adm_ok_released:
  assumes "adm_ok {} s" "slots_ok s" and "k < length (shards s)" and "shard_workers s ! k = Took j"
  shows "adm_ok {j} (released k s)"
proof -
  have "mset (pend s) = mset (j # pend (released k s))" using released_pend(1) [OF assms(2-4)] by simp
  from mset_eq_setD [OF this] show ?thesis using assms(1) by (simp add: adm_ok_def)
qed

text \<open>The outcomes of \<open>dispatch\<close>.\<close>

lemma dispatch_body_cases:
  obtains (canceled) "job_canceled (jobs s ! j)" "dispatch_body answer j s = forget_job j s"
  | (responded) err n where "env_kind (job_envelope (jobs s ! j)) \<noteq> KIND_SEND"
      "dispatch_body answer j s = logged (WroteResponse j (Some err)) (forget_job j (s\<lparr>inboundRejected := n\<rparr>))"
  | (reported) err n where "env_kind (job_envelope (jobs s ! j)) = KIND_SEND"
      "dispatch_body answer j s = logged (ReportedAsync j err) (s\<lparr>inboundRejected := n\<rparr>)"
  | (delivered) "env_kind (job_envelope (jobs s ! j)) = KIND_SEND" "dispatch_body answer j s = s"
  | (started) "env_kind (job_envelope (jobs s ! j)) \<noteq> KIND_SEND"
      "env_kind (job_envelope (jobs s ! j)) = KIND_CALL \<Longrightarrow> callsem s < in_MaxCalls s"
      "dispatch_body answer j s = s\<lparr>callsem := callsem s + 1, active := active s @ [j]\<rparr>"
proof -
  let ?kind = "env_kind (job_envelope (jobs s ! j))"
  let ?valid = "validateInboundTarget s (fromWireTarget (env_target (job_envelope (jobs s ! j))))"
  have same: "s\<lparr>inboundRejected := inboundRejected s\<rparr> = s" by simp
  have ks: "KIND_SEND \<noteq> KIND_CALL" by (simp add: kind_defs)
  consider "job_canceled (jobs s ! j)" | err where "\<not> job_canceled (jobs s ! j)" "?valid = Some err"
    | "\<not> job_canceled (jobs s ! j)" "?valid = None" by (cases ?valid) auto
  then show thesis
  proof cases
    case 1
    then show thesis by (intro canceled) (simp_all add: dispatch_body_def)
  next
    case (2 err)
    show thesis
    proof (cases "?kind = KIND_SEND")
      case True
      then show thesis using 2 by (intro reported [of err "inboundRejected s + 1"]) (simp_all add: dispatch_body_def)
    next
      case False
      then show thesis using 2 by (intro responded [of err "inboundRejected s"]) (simp_all add: dispatch_body_def same)
    qed
  next
    case 3
    consider "?kind = KIND_CALL" "\<not> callsem s < in_MaxCalls s" | "?kind = KIND_SEND"
      | "?kind \<noteq> KIND_SEND" "?kind = KIND_CALL \<Longrightarrow> callsem s < in_MaxCalls s" by blast
    then show thesis
    proof cases
      case 1
      then show thesis using 3 ks
        by (intro responded [of ErrTransportBackpressure "inboundRejected s + 1"]) (simp_all add: dispatch_body_def)
    next
      case 2
      show thesis
      proof (cases answer)
        case None
        then show thesis using 2 3 ks by (intro delivered) (simp_all add: dispatch_body_def)
      next
        case (Some err)
        then show thesis using 2 3 ks by (intro reported [of err "inboundRejected s + 1"]) (simp_all add: dispatch_body_def)
      qed
    next
      case k: 3
      have nf: "\<not> (?kind = KIND_CALL \<and> \<not> callsem s < in_MaxCalls s)" using k(2) by blast
      show thesis
      proof (cases answer)
        case None
        then show thesis using k(1) nf 3 by (intro started [OF k]) (auto simp: dispatch_body_def Let_def)
      next
        case (Some err)
        then show thesis using k(1) nf 3 by (intro responded [of err "inboundRejected s"]) (auto simp: dispatch_body_def Let_def same)
      qed
    qed
  qed
qed

lemma forget_views:
  "keys (forget_job j s) = keys s" "adms (forget_job j s) = adms s" "pend (forget_job j s) = pend s"
  "barriers (forget_job j s) = barriers s" "slots_ok (forget_job j s) = slots_ok s" "in_log (forget_job j s) = in_log s"
  "jobs (forget_job j s) = jobs s"
  using quiet_forget [of s j] quiet_pend [OF quiet_forget [of s j]] slots_ok_quiet [OF quiet_forget [of s j]]
  by (simp_all add: quiet_def forget_job_def)

lemma rejected_views:
  "keys (s\<lparr>inboundRejected := n\<rparr>) = keys s" "adms (s\<lparr>inboundRejected := n\<rparr>) = adms s" "pend (s\<lparr>inboundRejected := n\<rparr>) = pend s"
  "slots_ok (s\<lparr>inboundRejected := n\<rparr>) = slots_ok s" "keys (s\<lparr>callsem := m, active := x\<rparr>) = keys s"
  "adms (s\<lparr>callsem := m, active := x\<rparr>) = adms s" "pend (s\<lparr>callsem := m, active := x\<rparr>) = pend s"
  "slots_ok (s\<lparr>callsem := m, active := x\<rparr>) = slots_ok s"
  by (simp_all add: keys_def adms_def pend_def slots_ok_def)

lemma logged_jobs [simp]: "jobs (logged e s) = jobs s"
  by (simp add: logged_def)

lemma dispatch_body_views:
  "keys (dispatch_body answer j s) = keys s \<and> adms (dispatch_body answer j s) = adms s \<and> pend (dispatch_body answer j s) = pend s \<and>
   barriers (dispatch_body answer j s) = barriers s \<and> slots_ok (dispatch_body answer j s) = slots_ok s \<and>
   jobs (dispatch_body answer j s) = jobs s \<and>
   (\<exists>l. in_log (dispatch_body answer j s) = in_log s @ l \<and> (\<forall>a. list_all (log_ok a) l))"
  by (cases rule: dispatch_body_cases [of s j answer]) (simp_all add: forget_views rejected_views)

lemma run_dispatch_took:
  "shard_workers s ! k = Took j \<Longrightarrow> run_dispatch answer k s =
     upd_conn (job_conn (jobs s ! j)) (finishAdmission (admissionSeq (jobs s ! j))) (dispatch_body answer j (released k s))"
  by (simp add: run_dispatch_def dispatch_def Let_def released_def)

lemma run_dispatch_not_took: "(\<And>j. shard_workers s ! k \<noteq> Took j) \<Longrightarrow> run_dispatch answer k s = s"
  by (cases "shard_workers s ! k") (auto simp: run_dispatch_def)

lemma run_dispatch_ok:
  assumes ok: "adm_ok {} s" "slots_ok s" and k: "k < length (shards s)"
  shows "adm_ok {} (run_dispatch answer k s)" and "slots_ok (run_dispatch answer k s)"
proof -
  have "adm_ok {} (run_dispatch answer k s) \<and> slots_ok (run_dispatch answer k s)"
  proof (cases "shard_workers s ! k")
    case (Took j)
    let ?b = "dispatch_body answer j (released k s)"
    note v = dispatch_body_views [of answer j "released k s"]
    obtain l where l: "in_log ?b = in_log (released k s) @ l" "\<forall>a. list_all (log_ok a) l" using v by blast
    have "adm_ok {j} ?b" using adm_ok_released [OF ok k Took] l by (simp add: adm_ok_def adm_inv_def v)
    from adm_ok_finish [OF this, of j] have "adm_ok {} (upd_conn (job_conn (jobs s ! j)) (finishAdmission (admissionSeq (jobs s ! j))) ?b)"
      using released_pend(2) [OF ok(2) k Took] by (simp add: v)
    moreover have "run_dispatch answer k s = upd_conn (job_conn (jobs s ! j)) (finishAdmission (admissionSeq (jobs s ! j))) ?b"
      by (rule run_dispatch_took [OF Took])
    ultimately show ?thesis using released_pend(3) [OF ok(2) k Took] by (simp add: v)
  qed (use ok in \<open>simp_all add: run_dispatch_def\<close>)
  then show "adm_ok {} (run_dispatch answer k s)" and "slots_ok (run_dispatch answer k s)" by simp_all
qed

lemma accept_conn_ok:
  assumes "adm_ok {} s" "slots_ok s"
  shows "adm_ok {} (accept_conn remote s)" and "slots_ok (accept_conn remote s)"
proof -
  have "adm_inv k (a @ [(0, 0, [])]) P bs l" if inv: "adm_inv k a P bs l" for k a P bs l
  proof -
    have num: "numbered k a" and fin: "finished_exactly k a P" and P: "P \<subseteq> {..<length k}" using inv by (auto simp: adm_inv_def)
    have old: "(a @ [(0, 0, [])]) ! c = a ! c" if "c < length a" for c using that by (simp add: nth_append)
    have "numbered k (a @ [(0, 0, [])])" using num by (auto simp: numbered_def nth_append)
    moreover have "finished_exactly k (a @ [(0, 0, [])]) P"
      using fin by (auto simp: finished_exactly_def nth_append less_Suc_eq)
    moreover have "list_all (bar_ok (a @ [(0, 0, [])])) bs" "list_all (log_ok (a @ [(0, 0, [])])) l"
    proof -
      have "bar_ok a b \<Longrightarrow> bar_ok (a @ [(0, 0, [])]) b" for b by (auto simp: bar_ok_def nth_append)
      then show "list_all (bar_ok (a @ [(0, 0, [])])) bs" using inv by (simp add: adm_inv_def list_all_iff)
      have "log_ok a e \<Longrightarrow> log_ok (a @ [(0, 0, [])]) e" for e by (cases e) (auto simp: nth_append)
      then show "list_all (log_ok (a @ [(0, 0, [])])) l" using inv by (simp add: adm_inv_def list_all_iff)
    qed
    ultimately show ?thesis using P by (simp add: adm_inv_def)
  qed
  then show "adm_ok {} (accept_conn remote s)"
    using assms(1) by (simp add: accept_conn_def adm_ok_def keys_def adms_def pend_def adm_key_def)
  show "slots_ok (accept_conn remote s)" using assms(2) by (simp add: accept_conn_def slots_ok_def pend_def)
qed

lemma run_exit_ok:
  assumes "adm_ok {} s" "slots_ok s" and k: "k < length (shards s)"
  shows "adm_ok {} (run_exit k s)" and "slots_ok (run_exit k s)"
proof -
  have "taken ((shard_workers s)[k := WorkerGone]) = taken (shard_workers s)" if "shard_workers s ! k = AtQueue"
    by (metis in_hand.simps(2,3) list_update_id map_update taken_def that)
  then show "adm_ok {} (run_exit k s)" "slots_ok (run_exit k s)"
    using assms(1,2) by (auto simp: run_exit_def adm_ok_def slots_ok_def keys_def adms_def pend_def split: shard_worker.splits)
qed

lemma active_ok:
  "adm_ok X (s\<lparr>active := x, callsem := n\<rparr>) = adm_ok X s" "slots_ok (s\<lparr>active := x, callsem := n\<rparr>) = slots_ok s"
  by (simp_all add: adm_ok_def slots_ok_def keys_def adms_def pend_def)

lemma call_end_ok:
  assumes "adm_ok {} s" "slots_ok s"
  shows "adm_ok {} (call_done r w j s)" "slots_ok (call_done r w j s)" "adm_ok {} (call_abandoned j s)" "slots_ok (call_abandoned j s)"
proof -
  note f = adm_ok_quiet [OF quiet_forget] slots_ok_quiet [OF quiet_forget]
  note q = adm_ok_quiet [OF quiet_close] slots_ok_quiet [OF quiet_close]
  note u = adm_ok_quiet [OF quiet_upd_job] slots_ok_quiet [OF quiet_upd_job]
  show "adm_ok {} (call_done r w j s)" "slots_ok (call_done r w j s)"
    using assms by (simp_all add: call_done_def Let_def active_ok f q adm_ok_logged)
  show "adm_ok {} (call_abandoned j s)" "slots_ok (call_abandoned j s)"
    using assms by (simp_all add: call_abandoned_def Let_def active_ok f u)
qed

lemma receive_ok:
  assumes "adm_ok {} s" "slots_ok s" and "c < length (conns s)"
  shows "adm_ok {} (receive lookup w c e s) \<and> slots_ok (receive lookup w c e s)"
proof -
  note q = adm_ok_quiet [OF quiet_close] slots_ok_quiet [OF quiet_close] adm_ok_quiet [OF quiet_counters(3)]
    slots_ok_quiet [OF quiet_counters(3)] adm_ok_quiet [OF quiet_receive_cancel] slots_ok_quiet [OF quiet_receive_cancel]
  show ?thesis
    using assms receive_call_ok [OF assms] receive_send_ok [OF assms] barrier_ok [OF assms]
    by (simp add: receive_def resolve_def q adm_ok_logged)
qed

lemma in_step_ok:
  assumes "adm_ok {} s \<and> slots_ok s"
  shows "adm_ok {} (in_step lookup ev s) \<and> slots_ok (in_step lookup ev s)"
proof -
  have ok: "adm_ok {} s" "slots_ok s" using assms by simp_all
  note q = adm_ok_quiet [OF quiet_close] slots_ok_quiet [OF quiet_close] adm_ok_quiet [OF quiet_counters(5)] slots_ok_quiet [OF quiet_counters(5)]
  show ?thesis
    by (cases ev) (simp_all add: ok q accept_conn_ok receive_ok run_take_ok run_dispatch_ok run_exit_ok call_end_ok barrier_rounds_ok)
qed

lemma in_run_ok:
  "adm_ok {} s \<and> slots_ok s \<Longrightarrow> adm_ok {} (fold (in_step lookup) evs s) \<and> slots_ok (fold (in_step lookup) evs s)"
  by (induction evs arbitrary: s) (simp_all add: in_step_ok)

lemma new_ok: "adm_ok {} (newInboundDispatcher node inc n queue calls) \<and> slots_ok (newInboundDispatcher node inc n queue calls)"
proof -
  have "concat (replicate n []) = []" "taken (replicate n AtQueue) = []" by (induction n) (simp_all add: taken_def)
  then show ?thesis
    by (simp add: newInboundDispatcher_def adm_ok_def slots_ok_def pend_def keys_def adms_def adm_inv_def numbered_def finished_exactly_def)
qed

section \<open>The barrier\<close>

lemma keys_quiet: "quiet s s' \<Longrightarrow> keys s' = keys s"
  by (simp add: quiet_def)

lemma keys_receive: "\<exists>ks. keys (receive lookup w c e s) = keys s @ ks"
proof -
  have bar: "keys (x\<lparr>barriers := b\<rparr>) = keys x" and cnt: "keys (x\<lparr>inboundRejected := n\<rparr>) = keys x"
    "keys (x\<lparr>inboundRejected := n, sendsDropped := m\<rparr>) = keys x" for x b n m by (simp_all add: keys_def)
  have sub: "submit j x = (b, y) \<Longrightarrow> keys y = keys x" for j x b y using submit_same by blast
  have call: "\<exists>ks. keys (receive_call c e s) = keys s @ ks"
    by (auto simp: receive_call_def Let_def new_job_views cnt dest!: sub split: prod.splits bool.splits)
  have send: "\<exists>ks. keys (receive_send c e s) = keys s @ ks"
    by (auto simp: receive_send_def Let_def new_job_views cnt dest!: sub split: prod.splits bool.splits)
  show ?thesis
    using call send
    by (auto simp: receive_def resolve_def barrier_def Let_def bar keys_quiet [OF quiet_close] keys_quiet [OF quiet_counters(3)]
        keys_quiet [OF quiet_receive_cancel])
qed

lemma keys_step: "\<exists>ks. keys (in_step lookup ev s) = keys s @ ks"
proof -
  have act: "keys (x\<lparr>active := a, callsem := n\<rparr>) = keys x" and bar: "keys (x\<lparr>barriers := b\<rparr>) = keys x" for x a n b
    by (simp_all add: keys_def)
  have disp: "keys (run_dispatch answer k s) = keys s" for answer k
  proof (cases "shard_workers s ! k")
    case (Took j)
    then show ?thesis using dispatch_body_views [of answer j "released k s"] by (simp add: run_dispatch_took)
  qed (simp_all add: run_dispatch_not_took)
  have wexit: "keys (run_exit k s) = keys s" and acc: "keys (accept_conn r s) = keys s" for k r
    by (auto simp: run_exit_def accept_conn_def keys_def split: shard_worker.split)
  have cdone: "keys (call_done r w j s) = keys s" "keys (call_abandoned j s) = keys s" for r w j
    by (simp_all add: call_done_def call_abandoned_def Let_def act forget_views keys_quiet [OF quiet_close] keys_quiet [OF quiet_upd_job])
  have bars: "keys (barrier_check b s) = keys s" "keys (barrier_expire b s) = keys s" for b
    by (auto simp: barrier_check_def barrier_expire_def bar split: prod.splits)
  show ?thesis
    by (cases ev) (simp_all add: keys_receive run_take_same disp wexit acc cdone bars keys_quiet [OF quiet_close] keys_quiet [OF quiet_counters(5)])
qed

lemma keys_run: "\<exists>ks. keys (fold (in_step lookup) evs s) = keys s @ ks"
proof (induction evs arbitrary: s)
  case (Cons ev evs)
  from Cons.IH [of "in_step lookup ev s"] keys_step [of lookup ev s] show ?case by (auto simp: append_assoc)
qed simp


definition demo_send :: Envelope where
  "demo_send = zero_Envelope\<lparr>env_version := protocolVersion, env_kind := KIND_SEND, env_source_node := ''b'',
     env_target := Some \<lparr>wt_node = ''a'', wt_incarnation = ''i'', wt_service = ''s'', wt_address = 3, wt_generation = 1\<rparr>\<rparr>"

definition demo_marker :: Envelope where
  "demo_marker = zero_Envelope\<lparr>env_version := protocolVersion, env_kind := KIND_PING, env_source_node := ''b'',
     env_request_id := 9, env_protocol := admissionBarrierProtocol\<rparr>"

definition demo_before :: inbound where
  "demo_before = fold (in_step (\<lambda>_. Inr 0)) [Accept ''b'', Frame 0 demo_send True] (newInboundDispatcher ''a'' ''i'' 2 4 4)"

definition demo_after :: inbound where
  "demo_after = fold (in_step (\<lambda>_. Inr 0)) [Frame 0 demo_marker True, Take 1, BarrierCheck 0, Dispatch 1 None, BarrierCheck 0] demo_before"


end
