(* ===== verification/Cluster_Answers.thy ===== *)
theory Cluster_Answers
  imports Cluster_Inbound
begin

text \<open>
  What becomes of the inbound jobs of \<open>Cluster_Inbound\<close>: the global queue bound, the bound on concurrent
  calls, and how often a call is answered.
\<close>

definition resp :: "nat \<Rightarrow> in_log list \<Rightarrow> nat" where
  "resp j l = length (filter (\<lambda>e. case e of WroteResponse i r \<Rightarrow> i = j | _ \<Rightarrow> False) l)"

abbreviation (input) kind_of :: "job_keys \<Rightarrow> nat \<Rightarrow> 32 word" where "kind_of k j \<equiv> env_kind (snd (snd (k ! j)))"

text \<open>
  \<open>P\<close> are the jobs still waiting, \<open>A\<close> the calls in progress.  Only a call that is neither was answered, and
  at most once; and a call that is neither and was not canceled, on a connection that is open, was answered.
\<close>

definition call_inv :: "job_keys \<Rightarrow> bool list \<Rightarrow> bool list \<Rightarrow> nat set \<Rightarrow> nat set \<Rightarrow> in_log list \<Rightarrow> bool" where
  "call_inv k cs cl P A l \<longleftrightarrow> A \<subseteq> {..<length k} \<and> P \<subseteq> {..<length k} \<and> A \<inter> P = {} \<and> length cs = length k \<and>
     (\<forall>j < length k. (kind_of k j = KIND_CALL \<or> kind_of k j = KIND_SEND) \<and> fst (k ! j) < length cl) \<and>
     (\<forall>j \<in> A. kind_of k j = KIND_CALL) \<and>
     (\<forall>j. resp j l \<le> (if j < length k \<and> kind_of k j = KIND_CALL \<and> j \<notin> P \<and> j \<notin> A then 1 else 0)) \<and>
     (\<forall>j < length k. kind_of k j = KIND_CALL \<and> j \<notin> P \<and> j \<notin> A \<and> \<not> cs ! j \<and> \<not> cl ! fst (k ! j) \<longrightarrow> resp j l = 1)"

lemma call_inv_D:
  assumes "call_inv k cs cl P A l"
  shows "A \<subseteq> {..<length k}" "P \<subseteq> {..<length k}" "A \<inter> P = {}" "length cs = length k"
    "j < length k \<Longrightarrow> kind_of k j = KIND_CALL \<or> kind_of k j = KIND_SEND" "j < length k \<Longrightarrow> fst (k ! j) < length cl"
    "j \<in> A \<Longrightarrow> kind_of k j = KIND_CALL"
    "resp j l \<le> (if j < length k \<and> kind_of k j = KIND_CALL \<and> j \<notin> P \<and> j \<notin> A then 1 else 0)"
    "j < length k \<Longrightarrow> kind_of k j = KIND_CALL \<Longrightarrow> j \<notin> P \<Longrightarrow> j \<notin> A \<Longrightarrow> \<not> cs ! j \<Longrightarrow> \<not> cl ! fst (k ! j) \<Longrightarrow> resp j l = 1"
  using assms unfolding call_inv_def by blast+

lemma resp_append [simp]: "resp j (l @ l') = resp j l + resp j l'"
  by (simp add: resp_def)

lemma resp_single: "resp j [e] = (case e of WroteResponse i r \<Rightarrow> if i = j then 1 else 0 | _ \<Rightarrow> 0)"
  by (simp add: resp_def split: in_log.split)

lemma resp_Nil [simp]: "resp j [] = 0"
  by (simp add: resp_def)

text \<open>A finished job: it leaves \<open>P\<close> or \<open>A\<close> with an answer, or without one that is owed.\<close>

lemma call_inv_answer:
  assumes inv: "call_inv k cs cl P A l" and j: "j \<in> P \<or> j \<in> A" "kind_of k j = KIND_CALL"
  shows "call_inv k cs cl (P - {j}) (A - {j}) (l @ [WroteResponse j r])"
proof -
  note d = call_inv_D [OF inv]
  have jk: "j < length k" using j(1) d(1,2) by auto
  have zero: "resp j l = 0" using d(8) [of j] j(1) by (auto split: if_splits)
  have "resp i (l @ [WroteResponse j r]) \<le> (if i < length k \<and> kind_of k i = KIND_CALL \<and> i \<notin> P - {j} \<and> i \<notin> A - {j} then 1 else 0)" for i
    using d(8) [of i] zero jk j(2) by (cases "i = j") (auto simp: resp_single split: if_splits)
  moreover have "resp i (l @ [WroteResponse j r]) = 1"
    if "i < length k" "kind_of k i = KIND_CALL" "i \<notin> P - {j}" "i \<notin> A - {j}" "\<not> cs ! i" "\<not> cl ! fst (k ! i)" for i
    using d(9) [of i] that zero by (cases "i = j") (auto simp: resp_single)
  ultimately show ?thesis using d(1-7) unfolding call_inv_def by auto
qed

lemma call_inv_drop:
  assumes inv: "call_inv k cs cl P A l" and j: "j < length k" "kind_of k j = KIND_CALL \<Longrightarrow> cs ! j \<or> cl ! fst (k ! j)"
  shows "call_inv k cs cl (P - {j}) (A - {j}) l"
proof -
  note d = call_inv_D [OF inv]
  have "resp i l \<le> (if i < length k \<and> kind_of k i = KIND_CALL \<and> i \<notin> P - {j} \<and> i \<notin> A - {j} then 1 else 0)" for i
    using d(8) [of i] by (auto split: if_splits)
  moreover have "resp i l = 1"
    if "i < length k" "kind_of k i = KIND_CALL" "i \<notin> P - {j}" "i \<notin> A - {j}" "\<not> cs ! i" "\<not> cl ! fst (k ! i)" for i
    using d(9) [of i] that j(2) by (cases "i = j") auto
  ultimately show ?thesis using d(1-7) unfolding call_inv_def by auto
qed

lemma call_inv_start:
  assumes inv: "call_inv k cs cl P A l" and j: "j \<in> P" "kind_of k j = KIND_CALL"
  shows "call_inv k cs cl (P - {j}) (insert j A) l"
proof -
  note d = call_inv_D [OF inv]
  have "resp i l \<le> (if i < length k \<and> kind_of k i = KIND_CALL \<and> i \<notin> P - {j} \<and> i \<notin> insert j A then 1 else 0)" for i
    using d(8) [of i] j(1) by (auto split: if_splits)
  moreover have "resp i l = 1"
    if "i < length k" "kind_of k i = KIND_CALL" "i \<notin> P - {j}" "i \<notin> insert j A" "\<not> cs ! i" "\<not> cl ! fst (k ! i)" for i
    using d(9) [of i] that by auto
  ultimately show ?thesis using d(1-7) j unfolding call_inv_def by auto
qed

lemma call_inv_new:
  assumes inv: "call_inv k cs cl P A l" and new: "c < length cl" "env_kind e = KIND_CALL \<or> env_kind e = KIND_SEND"
  shows "call_inv (k @ [(c, q, e)]) (cs @ [False]) cl (insert (length k) P) A l"
proof -
  let ?k = "k @ [(c, q, e)]"
  note d = call_inv_D [OF inv]
  have old: "?k ! i = k ! i" "(cs @ [False]) ! i = cs ! i" if "i < length k" for i using that d(4) by (simp_all add: nth_append)
  have cases: "i < length k \<or> i = length k" if "i < length ?k" for i using that by auto
  have "resp i l \<le> (if i < length ?k \<and> kind_of ?k i = KIND_CALL \<and> i \<notin> insert (length k) P \<and> i \<notin> A then 1 else 0)" for i
    using d(8) [of i] old [of i] by (auto split: if_splits)
  moreover have "resp i l = 1"
    if "i < length ?k" "kind_of ?k i = KIND_CALL" "i \<notin> insert (length k) P" "i \<notin> A" "\<not> (cs @ [False]) ! i" "\<not> cl ! fst (?k ! i)" for i
    using d(9) [of i] that cases [of i] old [of i] by auto
  moreover have "(kind_of ?k i = KIND_CALL \<or> kind_of ?k i = KIND_SEND) \<and> fst (?k ! i) < length cl" if "i < length ?k" for i
    using cases [OF that] d(5,6) [of i] old [of i] new by auto
  moreover have "kind_of ?k i = KIND_CALL" if "i \<in> A" for i
    using d(1) d(7) [OF that] old [of i] that by auto
  moreover have "A \<inter> insert (length k) P = {}" using d(1,3) by auto
  ultimately show ?thesis using d(1,2,4) unfolding call_inv_def by auto
qed

lemma call_inv_mono:
  assumes inv: "call_inv k cs cl P A l" and "list_all2 (\<longrightarrow>) cs cs'" and "list_all2 (\<longrightarrow>) cl cl'"
  shows "call_inv k cs' cl' P A l"
proof -
  note d = call_inv_D [OF inv]
  have "\<not> cs' ! j \<Longrightarrow> \<not> cs ! j" if "j < length k" for j using assms(2) that d(4) by (auto simp: list_all2_conv_all_nth)
  moreover have "\<not> cl' ! fst (k ! j) \<Longrightarrow> \<not> cl ! fst (k ! j)" if "j < length k" for j
    using assms(3) d(6) [OF that] by (auto simp: list_all2_conv_all_nth)
  moreover have "length cs' = length k" "length cl' = length cl" using assms(2,3) d(4) by (simp_all add: list_all2_lengthD [symmetric])
  ultimately show ?thesis using inv unfolding call_inv_def by auto
qed

lemma call_inv_log:
  "call_inv k cs cl P A l \<Longrightarrow> (\<And>j. resp j [e] = 0) \<Longrightarrow> call_inv k cs cl P A (l @ [e])"
  by (simp add: call_inv_def)

section \<open>The operations keep the invariant\<close>

definition call_ok :: "nat set \<Rightarrow> inbound \<Rightarrow> bool" where
  "call_ok X s \<longleftrightarrow> callsem s = length (active s) \<and> callsem s \<le> in_MaxCalls s \<and> distinct (active s) \<and>
     call_inv (keys s) (cancels s) (closed s) (set (pend s) \<union> X) (set (active s)) (in_log s)"

lemma call_ok_quiet: "quiet s s' \<Longrightarrow> call_ok X s \<Longrightarrow> call_ok X s'"
  using quiet_pend [of s s'] call_inv_mono [of "keys s" "cancels s" "closed s" _ _ _ "cancels s'" "closed s'"]
  by (simp add: call_ok_def quiet_def)

lemma call_ok_logged: "call_ok X s \<Longrightarrow> (\<And>j. resp j [e] = 0) \<Longrightarrow> call_ok X (logged e s)"
  by (simp add: call_ok_def call_inv_log)

lemma call_ok_upd_conn:
  assumes "\<And>x. conn_closed (f x) = conn_closed x"
  shows "call_ok X (upd_conn c f s) = call_ok X s"
proof -
  have "closed (upd_conn c f s) = closed s"
    by (cases "c < length (conns s)") (auto simp: closed_def upd_conn_def map_update assms list_update_same_conv intro!: nth_equalityI)
  then show ?thesis by (simp add: call_ok_def)
qed

lemma finish_closed: "conn_closed (finishAdmission q x) = conn_closed x"
  by (simp add: finishAdmission_def split: prod.split)

lemma forget_closed: "conn_closed (forgetCall r x) = conn_closed x"
  by (simp add: forgetCall_def)

lemma closed_length [simp]: "length (closed s) = length (conns s)"
  by (simp add: closed_def)

lemma map_update_same: "(map f xs)[c := f (xs ! c)] = map f xs"
  by (simp flip: map_update)

lemma new_job_more:
  "cancels (new_job c e s) = cancels s @ [False]" "closed (new_job c e s) = closed s" "active (new_job c e s) = active s"
  "callsem (new_job c e s) = callsem s" "in_MaxCalls (new_job c e s) = in_MaxCalls s"
  by (simp_all add: new_job_def beginAdmission_def cancels_def closed_def map_update map_update_same)

lemma call_ok_new:
  assumes "call_ok X s" and "c < length (conns s)" and "env_kind e = KIND_CALL \<or> env_kind e = KIND_SEND"
  shows "call_ok (insert (length (jobs s)) X) (new_job c e s)"
  using assms(1) call_inv_new [OF _ _ assms(3), of "keys s" "cancels s" "closed s" "set (pend s) \<union> X" "set (active s)" "in_log s" c] assms(2)
  by (simp add: call_ok_def new_job_more new_job_views)

lemma call_ok_submit:
  assumes "submit j s = (True, s')" and "call_ok (insert j X) s"
  shows "call_ok X s'"
proof -
  have "mset (pend s') = mset (j # pend s)" using submit_pend(1) [OF assms(1)] by simp
  from mset_eq_setD [OF this] show ?thesis using assms(2) submit_same [OF assms(1)] by (simp add: call_ok_def)
qed

lemma call_ok_waiting: "call_ok X s \<Longrightarrow> j \<in> set (pend s) \<union> X \<Longrightarrow> j < length (jobs s) \<and> j \<notin> set (active s)"
  by (auto simp: call_ok_def call_inv_def)

lemma call_ok_answer:
  assumes "call_ok {j} s" and "j \<notin> set (pend s)" and "env_kind (job_envelope (jobs s ! j)) = KIND_CALL"
  shows "call_ok {} (logged (WroteResponse j r) s)"
proof -
  have j: "j < length (jobs s)" "j \<notin> set (active s)" using call_ok_waiting [OF assms(1), of j] by simp_all
  have k: "kind_of (keys s) j = KIND_CALL" using j(1) assms(3) by (simp add: keys_nth job_key_def)
  have P: "set (pend s) \<union> {j} - {j} = set (pend s)" and A: "set (active s) - {j} = set (active s)" using assms(2) j(2) by auto
  from call_inv_answer [of "keys s" "cancels s" "closed s" "set (pend s) \<union> {j}" "set (active s)" "in_log s" j r] assms(1) k
  show ?thesis unfolding P A by (simp add: call_ok_def)
qed

lemma call_ok_drop:
  assumes "call_ok {j} s" and "j \<notin> set (pend s)" and "env_kind (job_envelope (jobs s ! j)) = KIND_SEND \<or> job_canceled (jobs s ! j)"
  shows "call_ok {} s"
proof -
  have j: "j < length (jobs s)" "j \<notin> set (active s)" using call_ok_waiting [OF assms(1), of j] by simp_all
  have k: "cancels s ! j \<or> closed s ! fst (keys s ! j)" if "kind_of (keys s) j = KIND_CALL"
    using that j(1) assms(3) by (auto simp: keys_nth job_key_def cancels_def kind_defs)
  have P: "set (pend s) \<union> {j} - {j} = set (pend s)" and A: "set (active s) - {j} = set (active s)" using assms(2) j(2) by auto
  from call_inv_drop [OF _ _ k, of "set (pend s) \<union> {j}" "set (active s)" "in_log s"] assms(1) j(1)
  show ?thesis unfolding P A by (simp add: call_ok_def)
qed

lemma receive_call_calls:
  assumes ok: "call_ok {} s" and fresh: "length (jobs s) \<notin> set (pend s)" and c: "c < length (conns s)" and k: "env_kind e = KIND_CALL"
  shows "call_ok {} (receive_call c e s)"
proof -
  let ?j = "length (jobs s)"
  define s1 where "s1 = upd_conn c (\<lambda>x. x\<lparr>conn_calls := (env_request_id e, ?j) # filter (\<lambda>(r, i). r \<noteq> env_request_id e) (conn_calls x)\<rparr>) (new_job c e s)"
  have "call_ok {?j} (new_job c e s)" using call_ok_new [OF ok c] k by simp
  then have a1: "call_ok {?j} s1" unfolding s1_def by (subst call_ok_upd_conn) simp_all
  have env: "job_envelope (jobs s1 ! ?j) = e" by (simp add: s1_def new_job_def beginAdmission_def)
  obtain b s2 where sub: "submit ?j s1 = (b, s2)" by (cases "submit ?j s1")
  show ?thesis
  proof (cases b)
    case True
    then have "receive_call c e s = s2" using sub by (simp add: receive_call_def Let_def flip: s1_def)
    then show ?thesis using call_ok_submit [of ?j s1 s2 "{}"] sub True a1 by simp
  next
    case False
    let ?f = "\<lambda>x. forgetCall (env_request_id e) (finishAdmission (admissionSeq (jobs s1 ! ?j)) x)"
    let ?s3 = "upd_conn c ?f (s1\<lparr>inboundRejected := inboundRejected s1 + 1\<rparr>)"
    have "call_ok {?j} (s1\<lparr>inboundRejected := inboundRejected s1 + 1\<rparr>)" by (rule call_ok_quiet [OF quiet_counters(1) a1])
    then have "call_ok {?j} ?s3" by (subst call_ok_upd_conn) (simp_all add: finish_closed forget_closed)
    moreover have "?j \<notin> set (pend ?s3)" using fresh by (simp add: s1_def rejected_views new_job_views)
    moreover have "env_kind (job_envelope (jobs ?s3 ! ?j)) = KIND_CALL" using env k by simp
    ultimately have "call_ok {} (logged (WroteResponse ?j (Some ErrTransportBackpressure)) ?s3)" by (rule call_ok_answer)
    then show ?thesis using sub False submit_refused [of ?j s1 s2] by (simp add: receive_call_def Let_def flip: s1_def)
  qed
qed

lemma receive_send_calls:
  assumes ok: "call_ok {} s" and fresh: "length (jobs s) \<notin> set (pend s)" and c: "c < length (conns s)" and k: "env_kind e = KIND_SEND"
  shows "call_ok {} (receive_send c e s)"
proof -
  let ?j = "length (jobs s)" and ?s1 = "new_job c e s"
  have a1: "call_ok {?j} ?s1" using call_ok_new [OF ok c] k by simp
  have env: "job_envelope (jobs ?s1 ! ?j) = e" by (simp add: new_job_def beginAdmission_def)
  obtain b s2 where sub: "submit ?j ?s1 = (b, s2)" by (cases "submit ?j ?s1")
  show ?thesis
  proof (cases b)
    case True
    then have "receive_send c e s = s2" using sub by (simp add: receive_send_def Let_def)
    then show ?thesis using call_ok_submit [of ?j ?s1 s2 "{}"] sub True a1 by simp
  next
    case False
    have "call_ok {} ?s1" by (rule call_ok_drop [OF a1]) (use fresh env k in \<open>simp_all add: new_job_views\<close>)
    from call_ok_quiet [OF quiet_trans [OF quiet_counters(1) quiet_counters(2)] this]
    have "call_ok {} (?s1\<lparr>inboundRejected := inboundRejected ?s1 + 1, sendsDropped := sendsDropped ?s1 + 1\<rparr>)" .
    then have "call_ok {} (upd_conn c (finishAdmission (admissionSeq (jobs ?s1 ! ?j)))
        (?s1\<lparr>inboundRejected := inboundRejected ?s1 + 1, sendsDropped := sendsDropped ?s1 + 1\<rparr>))"
      by (subst call_ok_upd_conn) (simp_all add: finish_closed)
    from call_ok_logged [OF this, of "ReportedAsync ?j ErrTransportBackpressure"]
    show ?thesis using sub False submit_refused [of ?j ?s1 s2] by (simp add: receive_send_def Let_def resp_single)
  qed
qed

lemma dispatch_calls:
  assumes ok: "call_ok {j} s" and np: "j \<notin> set (pend s)"
  shows "call_ok {} (dispatch_body answer j s)"
proof -
  have j: "j < length (jobs s)" "j \<notin> set (active s)" using call_ok_waiting [OF ok, of j] by simp_all
  have inv: "call_inv (keys s) (cancels s) (closed s) (set (pend s) \<union> {j}) (set (active s)) (in_log s)"
    using ok by (simp add: call_ok_def)
  have kind: "kind_of (keys s) j = env_kind (job_envelope (jobs s ! j))" using j(1) by (simp add: keys_nth job_key_def)
  then have ks: "env_kind (job_envelope (jobs s ! j)) = KIND_CALL" if "env_kind (job_envelope (jobs s ! j)) \<noteq> KIND_SEND"
    using call_inv_D(5) [OF inv, of j] that j(1) by simp
  show ?thesis
  proof (cases rule: dispatch_body_cases [of s j answer])
    case canceled
    then show ?thesis using call_ok_quiet [OF quiet_forget call_ok_drop [OF ok np]] by simp
  next
    case (responded err n)
    let ?s1 = "forget_job j (s\<lparr>inboundRejected := n\<rparr>)"
    have "quiet s ?s1" by (rule quiet_trans [OF quiet_counters(1) quiet_forget])
    then have "call_ok {j} ?s1" by (rule call_ok_quiet [OF _ ok])
    moreover have "env_kind (job_envelope (jobs ?s1 ! j)) = KIND_CALL" using ks responded(1) by (simp add: forget_views)
    ultimately have "call_ok {} (logged (WroteResponse j (Some err)) ?s1)"
      using np by (intro call_ok_answer) (simp_all add: forget_views rejected_views)
    then show ?thesis by (simp add: responded(2))
  next
    case (reported err n)
    have "call_ok {} s" using call_ok_drop [OF ok np] reported(1) by simp
    from call_ok_quiet [OF quiet_counters(1) this] show ?thesis by (simp add: reported(2) call_ok_logged resp_single)
  next
    case delivered
    then show ?thesis using call_ok_drop [OF ok np] by simp
  next
    case started
    have P: "set (pend s) \<union> {j} - {j} = set (pend s)" using np by auto
    from call_inv_start [OF inv, of j] ks started(1) kind
    have "call_inv (keys s) (cancels s) (closed s) (set (pend s)) (insert j (set (active s))) (in_log s)" unfolding P by simp
    moreover have "callsem s < in_MaxCalls s" using started(2) ks started(1) by blast
    ultimately show ?thesis using ok j(2)
      by (simp add: started(3) call_ok_def rejected_views) (simp add: cancels_def closed_def)
  qed
qed

lemma call_ok_released:
  assumes "call_ok {} s" "slots_ok s" and "k < length (shards s)" and "shard_workers s ! k = Took j"
  shows "call_ok {j} (released k s)"
proof -
  have "mset (pend s) = mset (j # pend (released k s))" using released_pend(1) [OF assms(2-4)] by simp
  from mset_eq_setD [OF this] show ?thesis using assms(1) by (simp add: call_ok_def)
qed

lemma run_dispatch_calls:
  assumes "call_ok {} s" "slots_ok s" and "k < length (shards s)"
  shows "call_ok {} (run_dispatch answer k s)"
proof (cases "shard_workers s ! k")
  case (Took j)
  have "call_ok {} (dispatch_body answer j (released k s))"
    by (rule dispatch_calls [OF call_ok_released [OF assms Took] released_pend(2) [OF assms(2,3) Took]])
  then show ?thesis by (simp add: run_dispatch_took [OF Took] call_ok_upd_conn [OF finish_closed])
qed (use assms in \<open>simp_all add: run_dispatch_not_took\<close>)

lemma run_take_calls: "call_ok {} s \<Longrightarrow> slots_ok s \<Longrightarrow> k < length (shards s) \<Longrightarrow> call_ok {} (run_take k s)"
  using mset_eq_setD [OF run_take_pend] by (simp add: call_ok_def run_take_same)

lemma run_exit_calls: "call_ok {} s \<Longrightarrow> call_ok {} (run_exit k s)"
proof -
  have "in_hand ((shard_workers s)[k := WorkerGone] ! i) = in_hand (shard_workers s ! i)"
    if "shard_workers s ! k = AtQueue" "i < length (shard_workers s)" for i
    using that by (cases "k = i") simp_all
  then have "taken ((shard_workers s)[k := WorkerGone]) = taken (shard_workers s)" if "shard_workers s ! k = AtQueue"
    unfolding taken_def using that by (intro arg_cong [where f = concat] nth_equalityI) simp_all
  then show "call_ok {} s \<Longrightarrow> call_ok {} (run_exit k s)"
    by (auto simp: run_exit_def call_ok_def keys_def cancels_def closed_def pend_def split: shard_worker.splits)
qed

text \<open>A call in progress ends.\<close>

lemma remove1_length: "x \<in> set xs \<Longrightarrow> length xs = Suc (length (remove1 x xs))"
  by (induction xs) (auto simp: length_remove1 dest: length_pos_if_in_set)

lemma close_conn_closed:
  assumes "c < length (conns s)"
  shows "closed (close_conn c s) ! c"
proof (cases "conn_closed (conns s ! c)")
  case True
  then show ?thesis using assms by (simp add: close_conn_def closed_def)
next
  case False
  let ?s1 = "upd_conn c (\<lambda>x. x\<lparr>conn_closed := True\<rparr>) s"
  have "list_all2 (\<longrightarrow>) (closed ?s1) (closed (close_conn c s))"
    using quiet_cancel_all [of ?s1 "conn_calls (conns s ! c)"] False by (simp add: close_conn_def quiet_def)
  moreover have "closed ?s1 ! c" "c < length (closed ?s1)" using assms by (simp_all add: closed_def upd_conn_def)
  ultimately show ?thesis by (auto simp: list_all2_conv_all_nth)
qed

lemma call_ends:
  assumes ok: "call_ok {} s" and j: "j \<in> set (active s)"
    and inv: "call_inv (keys s) (cancels s) (closed s) (set (pend s)) (set (active s) - {j}) (in_log s)"
  shows "call_ok {} (s\<lparr>active := remove1 j (active s), callsem := callsem s - 1\<rparr>)"
proof -
  have "length (active s) = Suc (length (remove1 j (active s)))" using j by (rule remove1_length)
  then show ?thesis using ok inv
    by (simp add: call_ok_def set_remove1_eq) (simp add: keys_def cancels_def closed_def pend_def)
qed

lemma call_ok_active: "call_ok {} s \<Longrightarrow> j \<in> set (active s) \<Longrightarrow> j < length (jobs s) \<and> j \<notin> set (pend s) \<and> kind_of (keys s) j = KIND_CALL"
  by (auto simp: call_ok_def call_inv_def)

lemma call_done_calls:
  assumes ok: "call_ok {} s"
  shows "call_ok {} (call_done r w j s)"
proof (cases "j \<in> set (active s)")
  case True
  let ?s1 = "forget_job j s"
  have q: "quiet s ?s1" by (rule quiet_forget)
  have ok1: "call_ok {} ?s1" by (rule call_ok_quiet [OF q ok])
  have a1: "active ?s1 = active s" using q by (simp add: quiet_def)
  note j = call_ok_active [OF ok1, of j, unfolded a1, OF True]
  have P: "set (pend ?s1) - {j} = set (pend ?s1)" using j by auto
  have inv1: "call_inv (keys ?s1) (cancels ?s1) (closed ?s1) (set (pend ?s1)) (set (active ?s1)) (in_log ?s1)"
    using ok1 by (simp add: call_ok_def)
  consider "job_canceled (jobs ?s1 ! j)" | "\<not> job_canceled (jobs ?s1 ! j)" w | "\<not> job_canceled (jobs ?s1 ! j)" "\<not> w" by blast
  then show ?thesis
  proof cases
    case 1
    then have "call_inv (keys ?s1) (cancels ?s1) (closed ?s1) (set (pend ?s1)) (set (active ?s1) - {j}) (in_log ?s1)"
      using call_inv_drop [OF inv1, of j] j P by (simp add: cancels_def)
    then show ?thesis using call_ends [OF ok1] True 1 by (simp add: call_done_def Let_def a1)
  next
    case 2
    have "call_inv (keys ?s1) (cancels ?s1) (closed ?s1) (set (pend ?s1)) (set (active ?s1) - {j}) (in_log ?s1 @ [WroteResponse j r])"
      using call_inv_answer [OF inv1, of j r] j P True a1 by simp
    moreover have "length (active s) = Suc (length (remove1 j (active s)))" using True by (rule remove1_length)
    ultimately have "call_ok {} ((logged (WroteResponse j r) ?s1)\<lparr>active := remove1 j (active s), callsem := callsem ?s1 - 1\<rparr>)"
      using ok1 a1 by (simp add: call_ok_def set_remove1_eq) (simp add: logged_def keys_def cancels_def closed_def pend_def)
    then show ?thesis using True 2 a1 by (simp add: call_done_def Let_def)
  next
    case 3
    let ?s2 = "close_conn (job_conn (jobs ?s1 ! j)) ?s1"
    have q2: "quiet ?s1 ?s2" by (rule quiet_close)
    have ok2: "call_ok {} ?s2" by (rule call_ok_quiet [OF q2 ok1])
    have same: "keys ?s2 = keys ?s1" "active ?s2 = active ?s1" "in_log ?s2 = in_log ?s1" using q2 by (simp_all add: quiet_def)
    have "fst (keys ?s1 ! j) = job_conn (jobs ?s1 ! j)" using j by (simp add: keys_nth job_key_def)
    then have cl: "closed ?s2 ! fst (keys ?s2 ! j)"
      using close_conn_closed [of "job_conn (jobs ?s1 ! j)" ?s1] call_inv_D(6) [OF inv1, of j] j by (simp add: same)
    have "call_inv (keys ?s2) (cancels ?s2) (closed ?s2) (set (pend ?s2)) (set (active ?s2) - {j}) (in_log ?s2)"
      using call_inv_drop [of "keys ?s2" "cancels ?s2" "closed ?s2" "set (pend ?s2)" "set (active ?s2)" "in_log ?s2" j] ok2 cl j P same
        quiet_pend [OF q2] by (simp add: call_ok_def)
    then show ?thesis using call_ends [OF ok2] True 3 same a1 by (simp add: call_done_def Let_def)
  qed
qed (use ok in \<open>simp add: call_done_def\<close>)

lemma call_abandoned_calls:
  assumes ok: "call_ok {} s"
  shows "call_ok {} (call_abandoned j s)"
proof (cases "j \<in> set (active s) \<and> in_stopped s")
  case True
  let ?s0 = "upd_job j (\<lambda>x. x\<lparr>job_canceled := True\<rparr>) s"
  let ?s1 = "forget_job j ?s0"
  have q: "quiet s ?s1" by (rule quiet_trans [OF quiet_upd_job quiet_forget])
  have ok1: "call_ok {} ?s1" by (rule call_ok_quiet [OF q ok])
  have a1: "active ?s1 = active s" using q by (simp add: quiet_def)
  note j = call_ok_active [OF ok1, of j, unfolded a1, OF conjunct1 [OF True]]
  have "cancels ?s1 ! j" using j by (simp add: cancels_def forget_views upd_job_def)
  then have "call_inv (keys ?s1) (cancels ?s1) (closed ?s1) (set (pend ?s1)) (set (active ?s1) - {j}) (in_log ?s1)"
    using call_inv_drop [of "keys ?s1" "cancels ?s1" "closed ?s1" "set (pend ?s1)" "set (active ?s1)" "in_log ?s1" j] ok1 j
    by (simp add: call_ok_def)
  then show ?thesis using call_ends [OF ok1] True by (simp add: call_abandoned_def Let_def a1)
next
  case False
  then have "call_abandoned j s = s" by (simp add: call_abandoned_def)
  then show ?thesis using ok by simp
qed

lemma call_ok_barriers: "call_ok X (s\<lparr>barriers := b\<rparr>) = call_ok X s"
  by (simp add: call_ok_def keys_def cancels_def closed_def pend_def)

lemma barrier_calls:
  assumes "call_ok {} s"
  shows "call_ok {} (barrier c r s)" "call_ok {} (barrier_check b s)" "call_ok {} (barrier_expire b s)"
proof -
  have "call_ok {} (upd_conn c (\<lambda>x. x\<lparr>barrierPending := v\<rparr>) s)" for c v using assms by (subst call_ok_upd_conn) simp_all
  then show "call_ok {} (barrier c r s)" "call_ok {} (barrier_check b s)" "call_ok {} (barrier_expire b s)"
    using assms
    by (auto simp: barrier_def barrier_check_def barrier_expire_def Let_def call_ok_barriers resp_single
        split: prod.splits intro!: call_ok_logged)
qed

lemma accept_calls: "call_ok {} s \<Longrightarrow> call_ok {} (accept_conn remote s)"
proof -
  have "call_inv k cs (cl @ [False]) P A l" if inv: "call_inv k cs cl P A l" for k cs cl P A l
  proof -
    note d = call_inv_D [OF inv]
    have "fst (k ! j) < length (cl @ [False]) \<and> (cl @ [False]) ! fst (k ! j) = cl ! fst (k ! j)" if "j < length k" for j
      using d(6) [OF that] by (simp add: nth_append)
    then show ?thesis using inv unfolding call_inv_def by auto
  qed
  then show "call_ok {} s \<Longrightarrow> call_ok {} (accept_conn remote s)"
    by (simp add: accept_conn_def call_ok_def keys_def cancels_def closed_def pend_def)
qed

lemma receive_calls:
  assumes "call_ok {} s" and "adm_ok {} s" and "c < length (conns s)"
  shows "call_ok {} (receive lookup w c e s)"
proof -
  have fresh: "length (jobs s) \<notin> set (pend s)" using fresh_job [OF assms(2)] by simp
  note q = call_ok_quiet [OF quiet_close] call_ok_quiet [OF quiet_counters(3)] call_ok_quiet [OF quiet_receive_cancel]
  show ?thesis
    using assms(1) receive_call_calls [OF assms(1) fresh assms(3), of e] receive_send_calls [OF assms(1) fresh assms(3), of e]
      barrier_calls [OF assms(1)]
    by (simp add: receive_def resolve_def q call_ok_logged resp_single)
qed

lemma in_step_calls:
  assumes "call_ok {} s" and "adm_ok {} s \<and> slots_ok s"
  shows "call_ok {} (in_step lookup ev s)"
  using assms
  by (cases ev)
     (simp_all add: accept_calls receive_calls run_take_calls run_dispatch_calls run_exit_calls call_done_calls call_abandoned_calls
        barrier_calls call_ok_quiet [OF quiet_close] call_ok_quiet [OF quiet_counters(5)])

lemma in_run_calls:
  "call_ok {} s \<Longrightarrow> adm_ok {} s \<and> slots_ok s \<Longrightarrow> call_ok {} (fold (in_step lookup) evs s)"
  by (induction evs arbitrary: s) (simp_all add: in_step_calls in_step_ok)

section \<open>The limits are fixed\<close>

definition limits :: "inbound \<Rightarrow> nat \<times> nat" where
  "limits s = (in_Queue s, in_MaxCalls s)"

lemma limits_quiet: "quiet s s' \<Longrightarrow> limits s' = limits s"
  by (simp add: quiet_def limits_def)

lemma limits_simps [simp]:
  "limits (logged lg s) = limits s" "limits (upd_conn c f s) = limits s" "limits (new_job c e s) = limits s"
  "limits (s\<lparr>barriers := bs\<rparr>) = limits s" "limits (s\<lparr>active := x, callsem := n\<rparr>) = limits s"
  "limits (s\<lparr>callsem := n, active := x\<rparr>) = limits s" "limits (s\<lparr>inboundRejected := n\<rparr>) = limits s"
  "limits (s\<lparr>inboundRejected := n, sendsDropped := m\<rparr>) = limits s" "limits (released k s) = limits s"
  "limits (forget_job j s) = limits s" "limits (close_conn c s) = limits s" "limits (run_take k s) = limits s"
  "limits (upd_job j (\<lambda>x. x\<lparr>job_canceled := True\<rparr>) s) = limits s" "limits (receive_cancel c r s) = limits s"
  "limits (s\<lparr>protocolErrors := n\<rparr>) = limits s" "limits (s\<lparr>in_stopped := bb\<rparr>) = limits s"
  using limits_quiet [OF quiet_forget, of j s] limits_quiet [OF quiet_close, of c s] limits_quiet [OF quiet_upd_job, of j s]
    limits_quiet [OF quiet_receive_cancel, of c r s]
  by (simp_all add: limits_def logged_def upd_conn_def new_job_def beginAdmission_def released_def run_take_same)

lemma limits_submit: "submit j s = (b, s') \<Longrightarrow> limits s' = limits s"
  by (auto simp: submit_def Let_def limits_def split: option.splits if_splits)

lemma limits_step: "limits (in_step lookup ev s) = limits s"
proof -
  have call: "limits (receive_call c e s) = limits s" and send: "limits (receive_send c e s) = limits s" for c e
    by (auto simp: receive_call_def receive_send_def Let_def dest!: limits_submit split: prod.splits bool.splits)
  have disp: "limits (run_dispatch answer k s) = limits s" for answer k
  proof (cases "shard_workers s ! k")
    case (Took j)
    have "limits (dispatch_body answer j (released k s)) = limits s"
      by (cases rule: dispatch_body_cases [of "released k s" j answer]) simp_all
    then show ?thesis by (simp add: run_dispatch_took [OF Took])
  qed (simp_all add: run_dispatch_not_took)
  have misc: "limits (run_exit k s) = limits s" "limits (accept_conn r s) = limits s" for k r
    by (auto simp: run_exit_def accept_conn_def limits_def split: shard_worker.split)
  have rest: "limits (call_done r w j s) = limits s" "limits (call_abandoned j s) = limits s" "limits (barrier c q s) = limits s"
    "limits (barrier_check b s) = limits s" "limits (barrier_expire b s) = limits s" for r w j c q b
    by (auto simp: call_done_def call_abandoned_def barrier_def barrier_check_def barrier_expire_def Let_def split: prod.splits)
  show ?thesis by (cases ev) (simp_all add: call send disp misc rest receive_def resolve_def)
qed

lemma limits_run: "limits (fold (in_step lookup) evs s) = limits s"
  by (induction evs arbitrary: s) (simp_all add: limits_step)


definition demo_call :: Envelope where
  "demo_call = demo_send\<lparr>env_kind := KIND_CALL, env_request_id := 5\<rparr>"

definition demo_calls :: "in_event list" where
  "demo_calls = [Accept ''b'', Frame 0 demo_call True, Take 1, Dispatch 1 None, CallDone 0 None True]"


end
