(* ===== verification/Cluster_Peer.thy ===== *)
theory Cluster_Peer
  imports Cluster_Inbound
begin

text \<open>
  One outgoing connection (\<open>peer\<close> in \<open>cluster/peer.go\<close>) with its users: the callers of \<open>Node.request\<close>,
  \<open>Node.Send\<close> and \<open>Node.FlushOutgoing\<close>, the goroutines \<open>writeLoop\<close> and \<open>readLoop\<close>, and whoever runs the body
  of \<open>close\<close>.  Each goroutine is a program counter in the state, and a history is a list of events, each of
  which is one atomic section of one goroutine.  A \<open>select\<close> with several ready cases takes the one the event
  names; a case that is not ready leaves the state as it is.
\<close>

section \<open>State\<close>

record outbound =
  ob_envelope :: Envelope
  ob_target :: RemoteTarget
  ob_protocol :: string
  ob_notify :: bool

type_synonym peerResult = "go_error + Envelope"

datatype client_kind = KRequest | KFlush | KSend bool

text \<open>
  Where a user of the peer is: before \<open>beginEnqueue\<close>, in the \<open>select\<close> of \<open>enqueue\<close>, about to call
  \<open>removePending\<close> because \<open>enqueue\<close> failed, waiting for the answer, or done.
\<close>

datatype client_pc = Entering | Inside | Removing go_error | Waiting | Returned "go_error + Envelope option"

record client =
  cl_kind :: client_kind
  cl_request :: nat
  cl_item :: outbound
  cl_pc :: client_pc

datatype close_phase = Open | Flagged go_error | Answered go_error | Closed

datatype writer_pc = AtTop | AtSelect | Holding outbound | WriterGone

datatype reader_pc = Reading | PongSeen Envelope | ReaderGone

text \<open>
  The response channel of a request is named by the number of the request, and \<open>results\<close> logs what was sent
  on it.  \<open>accepted\<close>, \<open>written\<close> and \<open>reports\<close> log the items put into the send queue, written to the
  connection, and handed to the error callback.
\<close>

record peer =
  p_nodeID :: string
  p_IdleTimeout :: int
  p_remoteNode :: string
  p_remoteIncarnation :: string
  sendCap :: nat
  send :: "outbound list"
  control :: "outbound list"
  p_done :: bool
  enqueueClosed :: bool
  enqueueWG :: nat
  pending :: "nat list"
  connClosed :: bool
  closing :: close_phase
  lastRead :: int
  lastWrite :: int
  writer :: writer_pc
  reader :: reader_pc
  nextRequest :: nat
  clients :: "client list"
  results :: "(nat \<times> peerResult) list"
  accepted :: "outbound list"
  written :: "outbound list"
  reports :: "(outbound \<times> go_error) list"
  lateResponses :: nat
  sendWriteFailures :: nat
  heartbeatTimeouts :: nat
  peerProtocolErrors :: nat
  callTimeouts :: nat
  cancelsSent :: nat

text \<open>The end of \<open>dialPeer\<close>, after the handshake.\<close>

definition newPeer :: "string \<Rightarrow> int \<Rightarrow> nat \<Rightarrow> string \<Rightarrow> string \<Rightarrow> int \<Rightarrow> nat \<Rightarrow> peer" where
  "newPeer node idle queue remote incarnation now requests =
     \<lparr>p_nodeID = node, p_IdleTimeout = idle, p_remoteNode = remote, p_remoteIncarnation = incarnation,
      sendCap = queue, send = [], control = [], p_done = False, enqueueClosed = False, enqueueWG = 0,
      pending = [], connClosed = False, closing = Open, lastRead = now, lastWrite = now, writer = AtTop,
      reader = Reading, nextRequest = requests, clients = [], results = [], accepted = [], written = [],
      reports = [], lateResponses = 0, sendWriteFailures = 0, heartbeatTimeouts = 0, peerProtocolErrors = 0,
      callTimeouts = 0, cancelsSent = 0\<rparr>"

definition controlCap :: nat where "controlCap = 32"

definition set_pc :: "nat \<Rightarrow> client_pc \<Rightarrow> peer \<Rightarrow> peer" where
  "set_pc i pc p = p\<lparr>clients := (clients p)[i := (clients p ! i)\<lparr>cl_pc := pc\<rparr>]\<rparr>"

definition zero_target :: RemoteTarget where
  "zero_target = \<lparr>tgt_Node = '''', tgt_Incarnation = '''', tgt_Service = '''', tgt_Address = 0, tgt_Generation = 0\<rparr>"

definition plain :: "Envelope \<Rightarrow> outbound" where
  "plain e = \<lparr>ob_envelope = e, ob_target = zero_target, ob_protocol = '''', ob_notify = False\<rparr>"

section \<open>Operations of the peer\<close>

definition isClosed :: "peer \<Rightarrow> bool" where "isClosed p = p_done p"

definition beginEnqueue :: "peer \<Rightarrow> bool \<times> peer" where
  "beginEnqueue p = (if enqueueClosed p then (False, p) else (True, p\<lparr>enqueueWG := enqueueWG p + 1\<rparr>))"

datatype select_case = CaseDone | CaseCtx ctx_error | CaseSend | CaseDefault

text \<open>The two \<open>select\<close> statements of \<open>enqueue\<close>; \<open>None\<close> when the named case is not ready.\<close>

definition enqueue_select :: "bool \<Rightarrow> select_case \<Rightarrow> outbound \<Rightarrow> peer \<Rightarrow> (go_error option \<times> peer) option" where
  "enqueue_select nonBlocking choice item p =
     (case choice of
        CaseDone \<Rightarrow> if p_done p then Some (Some ErrRemoteUnavailable, p) else None
      | CaseCtx err \<Rightarrow> if nonBlocking then None else Some (Some (ErrCtx err), p)
      | CaseSend \<Rightarrow>
          if length (send p) < sendCap p
          then Some (None, p\<lparr>send := send p @ [item], accepted := accepted p @ [item]\<rparr>) else None
      | CaseDefault \<Rightarrow>
          if nonBlocking \<and> \<not> p_done p \<and> \<not> length (send p) < sendCap p
          then Some (Some ErrTransportBackpressure, p) else None)"

definition addPending :: "nat \<Rightarrow> peer \<Rightarrow> peer" where
  "addPending k p = p\<lparr>pending := List.insert k (pending p)\<rparr>"

definition removePending :: "nat \<Rightarrow> peer \<Rightarrow> peer" where
  "removePending k p = p\<lparr>pending := removeAll k (pending p)\<rparr>"

definition complete :: "Envelope \<Rightarrow> peer \<Rightarrow> peer" where
  "complete e p =
     (let k = env_request_id e
      in if k \<in> set (pending p) then p\<lparr>pending := removeAll k (pending p), results := results p @ [(k, Inr e)]\<rparr>
         else p\<lparr>lateResponses := lateResponses p + 1\<rparr>)"

definition reportSendFailure :: "outbound \<Rightarrow> go_error \<Rightarrow> peer \<Rightarrow> peer" where
  "reportSendFailure item err p =
     (if \<not> ob_notify item then p
      else p\<lparr>sendWriteFailures := sendWriteFailures p + 1, reports := reports p @ [(item, err)]\<rparr>)"

text \<open>
  \<open>close\<close>: the flag and the done channel; the connection; the answers to the pending requests, once no
  \<open>enqueue\<close> is under way; and the rest of the send queue, item by item.  The once-guard lets one caller
  through, so that the body runs once.
\<close>

definition close_flag :: "go_error \<Rightarrow> peer \<Rightarrow> peer" where
  "close_flag err p =
     (if closing p = Open then p\<lparr>enqueueClosed := True, p_done := True, closing := Flagged err\<rparr> else p)"

definition close_conn_of :: "peer \<Rightarrow> peer" where
  "close_conn_of p = (case closing p of Flagged err \<Rightarrow> p\<lparr>connClosed := True\<rparr> | _ \<Rightarrow> p)"

definition close_pending :: "peer \<Rightarrow> peer" where
  "close_pending p =
     (case closing p of
        Flagged err \<Rightarrow>
          if connClosed p \<and> enqueueWG p = 0
          then p\<lparr>pending := [], results := results p @ map (\<lambda>k. (k, Inl err)) (pending p), closing := Answered err\<rparr>
          else p
      | _ \<Rightarrow> p)"

definition close_drain :: "peer \<Rightarrow> peer" where
  "close_drain p =
     (case closing p of
        Answered err \<Rightarrow>
          (case send p of
             [] \<Rightarrow> p\<lparr>closing := Closed\<rparr>
           | item # rest \<Rightarrow> reportSendFailure item err (p\<lparr>send := rest\<rparr>))
      | _ \<Rightarrow> p)"

text \<open>With the done channel closed and room in the queue both cases are ready; \<open>quit\<close> says which is taken.\<close>

definition enqueueControl :: "bool \<Rightarrow> Envelope \<Rightarrow> peer \<Rightarrow> peer" where
  "enqueueControl quit e p =
     (if p_done p \<and> (quit \<or> \<not> length (control p) < controlCap) then p
      else if length (control p) < controlCap then p\<lparr>control := control p @ [plain e]\<rparr>
      else close_flag ErrRemoteUnavailable p)"

definition peer_write :: "bool \<Rightarrow> int \<Rightarrow> outbound \<Rightarrow> peer \<Rightarrow> bool \<times> peer" where
  "peer_write ok now item p =
     (if \<not> ok \<or> connClosed p
      then (False, close_flag ErrRemoteUnavailable (reportSendFailure item ErrRemoteUnavailable p))
      else (True, p\<lparr>lastWrite := now, written := written p @ [item]\<rparr>))"

section \<open>The goroutines\<close>

definition write_top :: "peer \<Rightarrow> peer" where
  "write_top p =
     (if writer p \<noteq> AtTop then p
      else case control p of
        [] \<Rightarrow> p\<lparr>writer := AtSelect\<rparr>
      | item # rest \<Rightarrow> p\<lparr>control := rest, writer := Holding item\<rparr>)"

datatype write_case = WriteDone | WriteControl | WriteSend | WriteTick int

definition write_select :: "write_case \<Rightarrow> peer \<Rightarrow> peer" where
  "write_select choice p =
     (if writer p \<noteq> AtSelect then p
      else case choice of
        WriteDone \<Rightarrow> if p_done p then p\<lparr>writer := WriterGone\<rparr> else p
      | WriteControl \<Rightarrow>
          (case control p of [] \<Rightarrow> p | item # rest \<Rightarrow> p\<lparr>control := rest, writer := Holding item\<rparr>)
      | WriteSend \<Rightarrow>
          (case send p of [] \<Rightarrow> p | item # rest \<Rightarrow> p\<lparr>send := rest, writer := Holding item\<rparr>)
      | WriteTick now \<Rightarrow>
          if now - lastRead p \<ge> p_IdleTimeout p
          then close_flag ErrRemoteUnavailable (p\<lparr>heartbeatTimeouts := heartbeatTimeouts p + 1, writer := WriterGone\<rparr>)
          else p\<lparr>nextRequest := nextRequest p + 1,
                 writer := Holding (plain (zero_Envelope\<lparr>env_version := protocolVersion, env_kind := KIND_PING,
                   env_source_node := p_nodeID p, env_request_id := nextRequest p + 1\<rparr>))\<rparr>)"

definition write_item :: "bool \<Rightarrow> int \<Rightarrow> peer \<Rightarrow> peer" where
  "write_item ok now p =
     (case writer p of
        Holding item \<Rightarrow> let (went, p) = peer_write ok now item p in p\<lparr>writer := (if went then AtTop else WriterGone)\<rparr>
      | _ \<Rightarrow> p)"

text \<open>
  \<open>readLoop\<close>: the result of reading is an argument, and a frame may have been read just before the
  connection was closed.  For a PONG the pending table is read in one section and \<open>complete\<close> runs in the next.
\<close>

definition read_frame :: "bool \<Rightarrow> int \<Rightarrow> Envelope option \<Rightarrow> peer \<Rightarrow> peer" where
  "read_frame quit now frame p =
     (if reader p \<noteq> Reading then p
      else case frame of
        None \<Rightarrow> close_flag ErrRemoteUnavailable (p\<lparr>reader := ReaderGone\<rparr>)
      | Some e \<Rightarrow>
          let p = p\<lparr>lastRead := now\<rparr>
          in if env_version e \<noteq> protocolVersion \<or> env_source_node e \<noteq> p_remoteNode p
             then close_flag ErrRemoteUnavailable
                    (p\<lparr>peerProtocolErrors := peerProtocolErrors p + 1, reader := ReaderGone\<rparr>)
             else if env_kind e = KIND_RESOLVE_RESPONSE \<or> env_kind e = KIND_RESPONSE then complete e p
             else if env_kind e = KIND_PING
             then enqueueControl quit (zero_Envelope\<lparr>env_version := protocolVersion, env_kind := KIND_PONG,
                    env_source_node := p_nodeID p, env_request_id := env_request_id e\<rparr>) p
             else if env_kind e = KIND_PONG
             then (if env_request_id e \<in> set (pending p) then p\<lparr>reader := PongSeen e\<rparr> else p)
             else p\<lparr>peerProtocolErrors := peerProtocolErrors p + 1\<rparr>)"

definition read_pong :: "peer \<Rightarrow> peer" where
  "read_pong p = (case reader p of PongSeen e \<Rightarrow> complete e (p\<lparr>reader := Reading\<rparr>) | _ \<Rightarrow> p)"

section \<open>The users\<close>

text \<open>
  The part of \<open>Node.request\<close> up to the call of \<open>enqueue\<close>, once \<open>peerFor\<close> has returned this peer.  The caller's
  trace identifier is empty when its context has none.
\<close>

definition request_begin :: "string \<Rightarrow> string \<Rightarrow> Envelope \<Rightarrow> peer \<Rightarrow> peer" where
  "request_begin expectedIncarnation trace e p =
     (if expectedIncarnation \<noteq> '''' \<and> expectedIncarnation \<noteq> p_remoteIncarnation p
      then p\<lparr>clients := clients p @ [\<lparr>cl_kind = KRequest, cl_request = 0, cl_item = plain e, cl_pc = Returned (Inl ErrStaleRef)\<rparr>]\<rparr>
      else let requestID = nextRequest p + 1;
               e = e\<lparr>env_version := protocolVersion, env_request_id := requestID, env_source_node := p_nodeID p,
                     env_trace_id := (if trace = '''' then env_trace_id e else trace)\<rparr>;
               p = addPending requestID (p\<lparr>nextRequest := requestID\<rparr>)
           in p\<lparr>clients := clients p @ [\<lparr>cl_kind = KRequest, cl_request = requestID, cl_item = plain e, cl_pc = Entering\<rparr>]\<rparr>)"

text \<open>One round of the second loop of \<open>FlushOutgoing\<close>.\<close>

definition flush_begin :: "peer \<Rightarrow> peer" where
  "flush_begin p =
     (let requestID = nextRequest p + 1;
          ping = zero_Envelope\<lparr>env_version := protocolVersion, env_kind := KIND_PING, env_source_node := p_nodeID p,
                   env_request_id := requestID, env_protocol := admissionBarrierProtocol\<rparr>;
          p = addPending requestID (p\<lparr>nextRequest := requestID\<rparr>)
      in p\<lparr>clients := clients p @ [\<lparr>cl_kind = KFlush, cl_request = requestID, cl_item = plain ping, cl_pc = Entering\<rparr>]\<rparr>)"

definition send_begin ::
  "RemoteTarget \<Rightarrow> string \<Rightarrow> string \<Rightarrow> byte list \<Rightarrow> CallFrame list \<Rightarrow> string \<Rightarrow> int \<Rightarrow> bool \<Rightarrow> peer \<Rightarrow> peer" where
  "send_begin target protocol fingerprint payload path trace deadline nonBlocking p =
     (let e = zero_Envelope\<lparr>env_version := protocolVersion, env_kind := KIND_SEND, env_source_node := p_nodeID p,
                env_target := Some (toWireTarget target), env_protocol := protocol, env_fingerprint := fingerprint,
                env_payload := payload, env_call_path := toWirePath path, env_trace_id := trace,
                env_deadline_unix_nano := deadline\<rparr>;
          item = \<lparr>ob_envelope = e, ob_target = target, ob_protocol = protocol, ob_notify = True\<rparr>;
          pc = (if tgt_Incarnation target \<noteq> p_remoteIncarnation p then Returned (Inl ErrStaleRef) else Entering)
      in p\<lparr>clients := clients p @ [\<lparr>cl_kind = KSend nonBlocking, cl_request = 0, cl_item = item, cl_pc = pc\<rparr>]\<rparr>)"

text \<open>What a user does with the result of \<open>enqueue\<close>.\<close>

definition after_enqueue :: "nat \<Rightarrow> go_error option \<Rightarrow> peer \<Rightarrow> peer" where
  "after_enqueue i err p =
     (case cl_kind (clients p ! i) of
        KSend nonBlocking \<Rightarrow>
          (case err of
             None \<Rightarrow> set_pc i (Returned (Inr None)) p
           | Some e \<Rightarrow>
               set_pc i (Returned (Inl (if \<not> nonBlocking \<and> errors_Is e (ErrCtx DeadlineExceeded) then ErrTransportBackpressure else e))) p)
      | _ \<Rightarrow> (case err of None \<Rightarrow> set_pc i Waiting p | Some e \<Rightarrow> set_pc i (Removing e) p))"

definition blocking :: "client \<Rightarrow> bool" where
  "blocking c = (case cl_kind c of KSend nonBlocking \<Rightarrow> \<not> nonBlocking | _ \<Rightarrow> True)"

text \<open>\<open>enqueue\<close> in two sections: \<open>beginEnqueue\<close>, and the \<open>select\<close> with the deferred \<open>enqueueWG.Done\<close>.\<close>

definition client_enter :: "nat \<Rightarrow> peer \<Rightarrow> peer" where
  "client_enter i p =
     (if i < length (clients p) \<and> cl_pc (clients p ! i) = Entering
      then (case beginEnqueue p of
              (False, p) \<Rightarrow> after_enqueue i (Some ErrRemoteUnavailable) p
            | (True, p) \<Rightarrow> set_pc i Inside p)
      else p)"

definition client_select :: "nat \<Rightarrow> select_case \<Rightarrow> peer \<Rightarrow> peer" where
  "client_select i choice p =
     (if i < length (clients p) \<and> cl_pc (clients p ! i) = Inside
      then (case enqueue_select (\<not> blocking (clients p ! i)) choice (cl_item (clients p ! i)) p of
              None \<Rightarrow> p
            | Some (err, p) \<Rightarrow> after_enqueue i err (p\<lparr>enqueueWG := enqueueWG p - 1\<rparr>))
      else p)"

definition client_remove :: "nat \<Rightarrow> peer \<Rightarrow> peer" where
  "client_remove i p =
     (if i < length (clients p)
      then (case cl_pc (clients p ! i) of
              Removing err \<Rightarrow> set_pc i (Returned (Inl err)) (removePending (cl_request (clients p ! i)) p)
            | _ \<Rightarrow> p)
      else p)"

definition sendCancel :: "bool \<Rightarrow> nat \<Rightarrow> peer \<Rightarrow> peer" where
  "sendCancel quit k p =
     enqueueControl quit (zero_Envelope\<lparr>env_version := protocolVersion, env_kind := KIND_CANCEL,
       env_source_node := p_nodeID p, env_request_id := k\<rparr>) (p\<lparr>cancelsSent := cancelsSent p + 1\<rparr>)"

datatype wait_case = WaitResult | WaitCtx ctx_error bool | WaitDone

text \<open>The last \<open>select\<close> of \<open>request\<close>, and the one of \<open>FlushOutgoing\<close>, which does not look at the done channel.\<close>

definition request_wait :: "nat \<Rightarrow> wait_case \<Rightarrow> peer \<Rightarrow> peer" where
  "request_wait i choice p =
     (let k = cl_request (clients p ! i)
      in case choice of
        WaitResult \<Rightarrow>
          (case find (\<lambda>(n, r). n = k) (results p) of
             None \<Rightarrow> p
           | Some (_, r) \<Rightarrow> set_pc i (Returned (map_sum id Some r)) p)
      | WaitCtx err quit \<Rightarrow>
          let p = sendCancel quit k (removePending k p)
          in if err = DeadlineExceeded
             then set_pc i (Returned (Inl ErrCallTimeout)) (p\<lparr>callTimeouts := callTimeouts p + 1\<rparr>)
             else set_pc i (Returned (Inl (ErrCtx err))) p
      | WaitDone \<Rightarrow>
          if p_done p then set_pc i (Returned (Inl ErrRemoteUnavailable)) (removePending k p) else p)"

definition flush_wait :: "nat \<Rightarrow> wait_case \<Rightarrow> peer \<Rightarrow> peer" where
  "flush_wait i choice p =
     (let k = cl_request (clients p ! i)
      in case choice of
        WaitResult \<Rightarrow>
          (case find (\<lambda>(n, r). n = k) (results p) of
             None \<Rightarrow> p
           | Some (_, Inl err) \<Rightarrow> set_pc i (Returned (Inl err)) p
           | Some (_, Inr e) \<Rightarrow>
               set_pc i (Returned (if env_protocol e \<noteq> admissionBarrierProtocol
                 then Inl (ErrText ''cluster: peer does not support admission barriers'') else Inr (Some e))) p)
      | WaitCtx err quit \<Rightarrow> set_pc i (Returned (Inl (ErrCtx err))) (removePending k p)
      | WaitDone \<Rightarrow> p)"

definition client_wait :: "nat \<Rightarrow> wait_case \<Rightarrow> peer \<Rightarrow> peer" where
  "client_wait i choice p =
     (if i < length (clients p) \<and> cl_pc (clients p ! i) = Waiting
      then (case cl_kind (clients p ! i) of
              KRequest \<Rightarrow> request_wait i choice p | KFlush \<Rightarrow> flush_wait i choice p | KSend _ \<Rightarrow> p)
      else p)"

text \<open>
  The events.  \<open>Elsewhere\<close> is a request or a heart beat of another peer of the node, which takes a number of the
  shared counter; \<open>CloseFlag\<close> is a call of \<open>close\<close> by the node (\<open>Reload\<close>, \<open>Stop\<close>, \<open>connectSlot\<close>).
\<close>

datatype peer_event =
    RequestBegin string string Envelope
  | FlushBegin
  | SendBegin RemoteTarget string string "byte list" "CallFrame list" string int bool
  | Enter nat
  | Select nat select_case
  | Remove nat
  | Wait nat wait_case
  | WriteTop
  | WriteSelect write_case
  | WriteItem bool int
  | ReadFrame bool int "Envelope option"
  | ReadPong
  | CloseFlag go_error
  | CloseConnection
  | ClosePending
  | CloseDrain
  | Elsewhere

fun peer_step :: "peer_event \<Rightarrow> peer \<Rightarrow> peer" where
  "peer_step (RequestBegin inc trace e) p = request_begin inc trace e p"
| "peer_step FlushBegin p = flush_begin p"
| "peer_step (SendBegin target protocol fingerprint payload path trace deadline nonBlocking) p =
     send_begin target protocol fingerprint payload path trace deadline nonBlocking p"
| "peer_step (Enter i) p = client_enter i p"
| "peer_step (Select i choice) p = client_select i choice p"
| "peer_step (Remove i) p = client_remove i p"
| "peer_step (Wait i choice) p = client_wait i choice p"
| "peer_step WriteTop p = write_top p"
| "peer_step (WriteSelect choice) p = write_select choice p"
| "peer_step (WriteItem ok now) p = write_item ok now p"
| "peer_step (ReadFrame quit now frame) p = read_frame quit now frame p"
| "peer_step ReadPong p = read_pong p"
| "peer_step (CloseFlag err) p = close_flag err p"
| "peer_step CloseConnection p = close_conn_of p"
| "peer_step ClosePending p = close_pending p"
| "peer_step CloseDrain p = close_drain p"
| "peer_step Elsewhere p = p\<lparr>nextRequest := nextRequest p + 1\<rparr>"

section \<open>Requests and their answers\<close>

text \<open>
  What the histories keep about requests, stated on the counter, the pending numbers, the numbers that were
  answered, the users, the number of users inside \<open>enqueue\<close> and the progress of \<open>close\<close>.
\<close>

definition is_send :: "client \<Rightarrow> bool" where
  "is_send c \<longleftrightarrow> cl_kind c \<noteq> KRequest \<and> cl_kind c \<noteq> KFlush"

definition returned :: "client_pc \<Rightarrow> bool" where
  "returned pc \<longleftrightarrow> (\<exists>r. pc = Returned r)"

definition client_ok :: "nat set \<Rightarrow> client \<Rightarrow> bool" where
  "client_ok K c \<longleftrightarrow> returned (cl_pc c) \<or> is_send c \<and> (cl_pc c = Entering \<or> cl_pc c = Inside) \<or>
     \<not> is_send c \<and> cl_request c \<noteq> 0 \<and> cl_request c \<in> K"

lemma returned_simps [simp]:
  "returned (Returned r)" "\<not> returned Entering" "\<not> returned Inside" "\<not> returned Waiting" "\<not> returned (Removing err)"
  by (simp_all add: returned_def)

definition answered_phase :: "close_phase \<Rightarrow> bool" where
  "answered_phase ph \<longleftrightarrow> ph = Closed \<or> (\<exists>err. ph = Answered err)"

definition late_ok :: "nat list \<Rightarrow> client \<Rightarrow> bool" where
  "late_ok rs c \<longleftrightarrow> cl_pc c \<noteq> Inside \<and> (cl_pc c = Waiting \<longrightarrow> cl_request c \<in> set rs)"

definition req_inv :: "nat \<Rightarrow> nat list \<Rightarrow> nat list \<Rightarrow> client list \<Rightarrow> nat \<Rightarrow> close_phase \<Rightarrow> bool" where
  "req_inv n ps rs cs wg ph \<longleftrightarrow>
     distinct (ps @ rs) \<and> set (ps @ rs) \<subseteq> {1..n} \<and>
     distinct (filter (\<lambda>k. k \<noteq> 0) (map cl_request cs)) \<and> set (map cl_request cs) \<subseteq> {0..n} \<and>
     (\<forall>c \<in> set cs. client_ok (set ps \<union> set rs) c) \<and>
     wg = length (filter (\<lambda>c. cl_pc c = Inside) cs) \<and>
     (answered_phase ph \<longrightarrow> (\<forall>c \<in> set cs. late_ok rs c))"

lemma client_ok_mono: "client_ok K c \<Longrightarrow> K \<subseteq> K' \<Longrightarrow> client_ok K' c"
  by (auto simp: client_ok_def)

lemma req_inv_counter: "req_inv n ps rs cs wg ph \<Longrightarrow> n \<le> m \<Longrightarrow> req_inv m ps rs cs wg ph"
  by (fastforce simp: req_inv_def)

lemma req_inv_new_user:
  "req_inv n ps rs cs wg ph \<Longrightarrow> cl_request c = 0 \<Longrightarrow> client_ok {} c \<Longrightarrow> cl_pc c \<noteq> Inside \<Longrightarrow> cl_pc c \<noteq> Waiting \<Longrightarrow>
     req_inv n ps rs (cs @ [c]) wg ph"
  by (auto simp: req_inv_def late_ok_def intro: client_ok_mono)

lemma req_inv_new_request:
  assumes "req_inv n ps rs cs wg ph" and "cl_request c = n + 1" and "cl_pc c = Entering"
    and "\<not> is_send c"
  shows "req_inv (n + 1) (List.insert (n + 1) ps) rs (cs @ [c]) wg ph"
proof -
  have fresh: "n + 1 \<notin> set ps" "n + 1 \<notin> set rs" "n + 1 \<notin> cl_request ` set cs"
    using assms(1) by (fastforce simp: req_inv_def)+
  have ok: "client_ok (set (List.insert (n + 1) ps) \<union> set rs) d" if "d \<in> set (cs @ [c])" for d
  proof (cases "d \<in> set cs")
    case True
    then have "client_ok (set ps \<union> set rs) d" using assms(1) by (simp add: req_inv_def)
    then show ?thesis by (rule client_ok_mono) auto
  next
    case False
    then have "d = c" using that by simp
    then show ?thesis using assms(2,3,4) by (simp add: client_ok_def)
  qed
  moreover have "set (map cl_request (cs @ [c])) \<subseteq> {0..n + 1}" using assms by (fastforce simp: req_inv_def)
  moreover have "set (List.insert (n + 1) ps @ rs) \<subseteq> {1..n + 1}" using assms(1) by (fastforce simp: req_inv_def)
  moreover have "late_ok rs d" if "answered_phase ph" "d \<in> set (cs @ [c])" for d
    using assms that by (auto simp: req_inv_def late_ok_def)
  moreover have "distinct (filter (\<lambda>k. k \<noteq> 0) (map cl_request (cs @ [c])))" "distinct (List.insert (n + 1) ps @ rs)"
    using assms(1,2) fresh by (auto simp: req_inv_def)
  ultimately show ?thesis using assms(1,3) by (simp add: req_inv_def)
qed

lemma req_inv_answer:
  "req_inv n ps rs cs wg ph \<Longrightarrow> k \<in> set ps \<Longrightarrow> req_inv n (removeAll k ps) (rs @ [k]) cs wg ph"
  by (auto simp: req_inv_def late_ok_def distinct_removeAll intro: client_ok_mono)

lemma req_inv_answer_all:
  assumes "req_inv n ps rs cs 0 ph"
  shows "req_inv n [] (rs @ ps) cs 0 ph'"
proof -
  have ni: "cl_pc c \<noteq> Inside" if "c \<in> set cs" for c using assms that by (auto simp: req_inv_def filter_empty_conv)
  have "cl_request c \<in> set (rs @ ps)" if "c \<in> set cs" "cl_pc c = Waiting" for c
    using assms that by (auto simp: req_inv_def client_ok_def)
  then have "\<forall>c \<in> set cs. late_ok (rs @ ps) c" using ni by (simp add: late_ok_def)
  then show ?thesis using assms by (simp add: req_inv_def Un_commute Int_commute conj_commute)
qed

text \<open>A user moves; one that gives up its number takes it out of the pending ones.\<close>

lemma req_inv_move:
  assumes "req_inv n ps rs (xs @ c # ys) wg ph" and "c' = c\<lparr>cl_pc := pc\<rparr>"
    and "client_ok (set ps \<union> set rs) c'" and "answered_phase ph \<Longrightarrow> late_ok rs c'"
    and "wg' + (if cl_pc c = Inside then 1 else 0) = wg + (if pc = Inside then 1 else 0)"
  shows "req_inv n ps rs (xs @ c' # ys) wg' ph"
proof -
  have "length (filter (\<lambda>c. cl_pc c = Inside) (xs @ c # ys)) + (if pc = Inside then 1 else 0) =
      length (filter (\<lambda>c. cl_pc c = Inside) (xs @ c' # ys)) + (if cl_pc c = Inside then 1 else 0)"
    using assms(2) by simp
  moreover have "wg = length (filter (\<lambda>c. cl_pc c = Inside) (xs @ c # ys))" using assms(1) unfolding req_inv_def by blast
  ultimately have "wg' = length (filter (\<lambda>c. cl_pc c = Inside) (xs @ c' # ys))" using assms(5) by linarith
  moreover have "map cl_request (xs @ c' # ys) = map cl_request (xs @ c # ys)" using assms(2) by simp
  moreover have "\<forall>d \<in> set (xs @ c' # ys). client_ok (set ps \<union> set rs) d" using assms(1,3) by (simp add: req_inv_def)
  moreover have "answered_phase ph \<longrightarrow> (\<forall>d \<in> set (xs @ c' # ys). late_ok rs d)" using assms(1,4) by (simp add: req_inv_def)
  ultimately show ?thesis using assms(1) unfolding req_inv_def by simp
qed

lemma req_inv_give_up:
  assumes "req_inv n ps rs (xs @ c # ys) wg ph" and "c' = c\<lparr>cl_pc := Returned r\<rparr>" and "cl_pc c \<noteq> Inside"
  shows "req_inv n (removeAll (cl_request c) ps) rs (xs @ c' # ys) wg ph"
proof -
  have "distinct (filter (\<lambda>k. k \<noteq> 0) (map cl_request (xs @ c # ys)))" and
    old: "\<forall>d \<in> set (xs @ c # ys). client_ok (set ps \<union> set rs) d" using assms(1) unfolding req_inv_def by blast+
  then have apart: "cl_request c = 0 \<or> cl_request c \<notin> cl_request ` set (xs @ ys)" by auto
  have ok: "client_ok (set (removeAll (cl_request c) ps) \<union> set rs) d" if "d \<in> set (xs @ ys)" for d
  proof -
    have "cl_request d = 0 \<or> cl_request d \<noteq> cl_request c" using apart that by (metis image_eqI)
    moreover have "client_ok (set ps \<union> set rs) d" using old that by auto
    ultimately show ?thesis unfolding client_ok_def by auto
  qed
  have moved: "req_inv n ps rs (xs @ c' # ys) wg ph"
    by (rule req_inv_move [OF assms(1,2)]) (use assms(2,3) in \<open>simp_all add: client_ok_def late_ok_def\<close>)
  moreover have "client_ok (set (removeAll (cl_request c) ps) \<union> set rs) c'" using assms(2) by (simp add: client_ok_def)
  ultimately have "\<forall>d \<in> set (xs @ c' # ys). client_ok (set (removeAll (cl_request c) ps) \<union> set rs) d" using ok by simp
  moreover have "distinct (removeAll (cl_request c) ps @ rs)" "set (removeAll (cl_request c) ps @ rs) \<subseteq> {1..n}"
    using moved unfolding req_inv_def by (auto simp: distinct_removeAll)
  ultimately show ?thesis using moved unfolding req_inv_def by blast
qed

lemma req_inv_phase: "req_inv n ps rs cs wg ph \<Longrightarrow> answered_phase ph' = answered_phase ph \<Longrightarrow> req_inv n ps rs cs wg ph'"
  by (simp add: req_inv_def)

lemma answered_phase_simps [simp]:
  "\<not> answered_phase Open" "\<not> answered_phase (Flagged err)" "answered_phase (Answered err)" "answered_phase Closed"
  by (simp_all add: answered_phase_def)

definition p_ok :: "peer \<Rightarrow> bool" where
  "p_ok p \<longleftrightarrow> req_inv (nextRequest p) (pending p) (map fst (results p)) (clients p) (enqueueWG p) (closing p) \<and>
     (enqueueClosed p \<longleftrightarrow> closing p \<noteq> Open) \<and> (p_done p \<longleftrightarrow> closing p \<noteq> Open)"

text \<open>Operations that leave all of this alone.\<close>

definition same_requests :: "peer \<Rightarrow> peer \<Rightarrow> bool" where
  "same_requests p p' \<longleftrightarrow> nextRequest p \<le> nextRequest p' \<and> pending p' = pending p \<and> results p' = results p \<and>
     clients p' = clients p \<and> enqueueWG p' = enqueueWG p \<and> closing p' = closing p \<and>
     enqueueClosed p' = enqueueClosed p \<and> p_done p' = p_done p"

lemma same_requests_ok: "same_requests p p' \<Longrightarrow> p_ok p \<Longrightarrow> p_ok p'"
  by (auto simp: same_requests_def p_ok_def intro: req_inv_counter)

lemma close_flag_ok: "p_ok p \<Longrightarrow> p_ok (close_flag err p)"
  by (auto simp: p_ok_def close_flag_def intro: req_inv_phase)

lemma reportSendFailure_same: "same_requests p (reportSendFailure item err p)"
  by (simp add: same_requests_def reportSendFailure_def)

lemma complete_ok: "p_ok p \<Longrightarrow> p_ok (complete e p)"
  by (auto simp: p_ok_def complete_def Let_def intro: req_inv_answer)

lemma enqueueControl_ok: "p_ok p \<Longrightarrow> p_ok (enqueueControl quit e p)"
  by (auto simp: enqueueControl_def intro: close_flag_ok) (auto simp: p_ok_def)

lemma peer_write_ok: "p_ok p \<Longrightarrow> p_ok (snd (peer_write ok now item p))"
  using same_requests_ok [OF reportSendFailure_same]
  by (auto simp: peer_write_def intro: close_flag_ok) (auto simp: p_ok_def)

lemma p_ok_updates [simp]:
  "p_ok (p\<lparr>writer := w\<rparr>) = p_ok p" "p_ok (p\<lparr>reader := r\<rparr>) = p_ok p" "p_ok (p\<lparr>lastRead := t\<rparr>) = p_ok p"
  "p_ok (p\<lparr>send := xs\<rparr>) = p_ok p" "p_ok (p\<lparr>control := xs\<rparr>) = p_ok p" "p_ok (p\<lparr>accepted := xs\<rparr>) = p_ok p"
  "p_ok (p\<lparr>connClosed := b\<rparr>) = p_ok p" "p_ok (p\<lparr>peerProtocolErrors := k\<rparr>) = p_ok p"
  "p_ok (p\<lparr>heartbeatTimeouts := k\<rparr>) = p_ok p" "p_ok (p\<lparr>cancelsSent := k\<rparr>) = p_ok p" "p_ok (p\<lparr>callTimeouts := k\<rparr>) = p_ok p"
  by (simp_all add: p_ok_def)

lemma p_ok_counter [simp]: "p_ok p \<Longrightarrow> p_ok (p\<lparr>nextRequest := Suc (nextRequest p)\<rparr>)"
  by (auto simp: p_ok_def intro: req_inv_counter)

lemma writer_ok: "p_ok p \<Longrightarrow> p_ok (write_top p)" "p_ok p \<Longrightarrow> p_ok (write_select choice p)" "p_ok p \<Longrightarrow> p_ok (write_item ok now p)"
  using peer_write_ok
  by (auto simp: write_top_def write_select_def write_item_def Let_def intro: close_flag_ok
      split: list.split write_case.split writer_pc.split prod.split) (metis snd_conv)+

lemma reader_ok: "p_ok p \<Longrightarrow> p_ok (read_frame quit now frame p)" "p_ok p \<Longrightarrow> p_ok (read_pong p)"
  by (auto simp: read_frame_def read_pong_def Let_def intro: close_flag_ok complete_ok enqueueControl_ok
      split: option.split reader_pc.split)

lemma closer_ok: "p_ok p \<Longrightarrow> p_ok (close_conn_of p)" "p_ok p \<Longrightarrow> p_ok (close_pending p)" "p_ok p \<Longrightarrow> p_ok (close_drain p)"
proof -
  assume p: "p_ok p"
  show "p_ok (close_conn_of p)" using p by (simp add: close_conn_of_def split: close_phase.split)
  show "p_ok (close_pending p)" using p req_inv_answer_all
    by (auto simp: close_pending_def p_ok_def comp_def split: close_phase.split)
  show "p_ok (close_drain p)"
  proof (cases "closing p")
    case (Answered err)
    then show ?thesis using p same_requests_ok [OF reportSendFailure_same]
      by (auto simp: close_drain_def split: list.split) (auto simp: p_ok_def intro: req_inv_phase)
  qed (use p in \<open>simp_all add: close_drain_def\<close>)
qed

text \<open>The users.\<close>

lemma set_pc_views [simp]:
  "nextRequest (set_pc i pc p) = nextRequest p" "pending (set_pc i pc p) = pending p" "results (set_pc i pc p) = results p"
  "enqueueWG (set_pc i pc p) = enqueueWG p" "closing (set_pc i pc p) = closing p"
  "enqueueClosed (set_pc i pc p) = enqueueClosed p" "p_done (set_pc i pc p) = p_done p"
  "send (set_pc i pc p) = send p" "accepted (set_pc i pc p) = accepted p" "control (set_pc i pc p) = control p"
  "writer (set_pc i pc p) = writer p" "written (set_pc i pc p) = written p" "reports (set_pc i pc p) = reports p"
  "sendCap (set_pc i pc p) = sendCap p" "length (clients (set_pc i pc p)) = length (clients p)"
  by (simp_all add: set_pc_def)

lemma clients_split: "i < length cs \<Longrightarrow> cs = take i cs @ cs ! i # drop (Suc i) cs"
  by (rule id_take_nth_drop)

lemma clients_set_pc:
  "i < length (clients p) \<Longrightarrow>
     clients (set_pc i pc p) = take i (clients p) @ (clients p ! i)\<lparr>cl_pc := pc\<rparr> # drop (Suc i) (clients p)"
  by (simp add: set_pc_def upd_conv_take_nth_drop)

lemma user_moves:
  assumes "p_ok p" and "i < length (clients p)"
    and "client_ok (set (pending p) \<union> set (map fst (results p))) ((clients p ! i)\<lparr>cl_pc := pc\<rparr>)"
    and "answered_phase (closing p) \<Longrightarrow> late_ok (map fst (results p)) ((clients p ! i)\<lparr>cl_pc := pc\<rparr>)"
    and "wg + (if cl_pc (clients p ! i) = Inside then 1 else 0) = enqueueWG p + (if pc = Inside then 1 else 0)"
  shows "p_ok (set_pc i pc (p\<lparr>enqueueWG := wg\<rparr>))"
proof -
  note sp = clients_split [OF assms(2)]
  have "req_inv (nextRequest p) (pending p) (map fst (results p)) (take i (clients p) @ clients p ! i # drop (Suc i) (clients p))
      (enqueueWG p) (closing p)" using assms(1) sp by (simp add: p_ok_def)
  from req_inv_move [OF this refl assms(3-5)]
  show ?thesis using assms(1,2) clients_set_pc [of i "p\<lparr>enqueueWG := wg\<rparr>" pc] by (simp add: p_ok_def)
qed

lemma user_stays:
  assumes "p_ok p" and "i < length (clients p)" and "pc \<noteq> Inside" and "cl_pc (clients p ! i) \<noteq> Inside"
    and "client_ok (set (pending p) \<union> set (map fst (results p))) ((clients p ! i)\<lparr>cl_pc := pc\<rparr>)"
    and "answered_phase (closing p) \<Longrightarrow> late_ok (map fst (results p)) ((clients p ! i)\<lparr>cl_pc := pc\<rparr>)"
  shows "p_ok (set_pc i pc p)"
  using user_moves [OF assms(1,2,5,6), where wg = "enqueueWG p"] assms(3,4) by simp

lemma user_gives_up:
  assumes "p_ok p" and "i < length (clients p)" and "cl_pc (clients p ! i) \<noteq> Inside"
  shows "p_ok (set_pc i (Returned r) (removePending (cl_request (clients p ! i)) p))"
proof -
  note sp = clients_split [OF assms(2)]
  have "req_inv (nextRequest p) (pending p) (map fst (results p)) (take i (clients p) @ clients p ! i # drop (Suc i) (clients p))
      (enqueueWG p) (closing p)" using assms(1) sp by (simp add: p_ok_def)
  from req_inv_give_up [OF this refl assms(3)]
  show ?thesis using assms(1,2) clients_set_pc [of i "removePending (cl_request (clients p ! i)) p" "Returned r"]
    by (simp add: p_ok_def removePending_def)
qed

lemma user_ok: "p_ok p \<Longrightarrow> i < length (clients p) \<Longrightarrow> client_ok (set (pending p) \<union> set (map fst (results p))) (clients p ! i)"
  unfolding p_ok_def req_inv_def by (meson nth_mem)

lemma user_late: "p_ok p \<Longrightarrow> i < length (clients p) \<Longrightarrow> answered_phase (closing p) \<Longrightarrow> late_ok (map fst (results p)) (clients p ! i)"
  unfolding p_ok_def req_inv_def by (meson nth_mem)

lemma user_begin_ok: "p_ok p \<Longrightarrow> p_ok (request_begin inc trace e p)" "p_ok p \<Longrightarrow> p_ok (flush_begin p)"
  "p_ok p \<Longrightarrow> p_ok (send_begin target protocol fingerprint payload path trace deadline nonBlocking p)"
proof -
  assume p: "p_ok p"
  show "p_ok (request_begin inc trace e p)"
    using p by (auto simp: request_begin_def p_ok_def addPending_def Let_def client_ok_def is_send_def
        intro!: req_inv_new_user req_inv_new_request [where n = "nextRequest p", simplified])
  show "p_ok (flush_begin p)"
    using p by (auto simp: flush_begin_def p_ok_def addPending_def Let_def is_send_def
        intro!: req_inv_new_request [where n = "nextRequest p", simplified])
  show "p_ok (send_begin target protocol fingerprint payload path trace deadline nonBlocking p)"
    using p by (auto simp: send_begin_def p_ok_def Let_def client_ok_def is_send_def intro!: req_inv_new_user)
qed

lemma client_remove_ok: "p_ok p \<Longrightarrow> p_ok (client_remove i p)"
  by (auto simp: client_remove_def intro!: user_gives_up split: client_pc.split)

lemma client_enter_ok:
  assumes p: "p_ok p"
  shows "p_ok (client_enter i p)"
proof (cases "i < length (clients p) \<and> cl_pc (clients p ! i) = Entering")
  case True
  note ok = user_ok [OF p conjunct1 [OF True]]
  show ?thesis
  proof (cases "enqueueClosed p")
    case True': True
    have "p_ok (set_pc i (Returned r) p)" for r
      using True by (intro user_stays [OF p]) (auto simp: client_ok_def late_ok_def)
    moreover have "p_ok (set_pc i (Removing err) p)" if "\<not> is_send (clients p ! i)" for err
      using True that ok by (intro user_stays [OF p]) (auto simp: client_ok_def late_ok_def is_send_def)
    ultimately show ?thesis using True True'
      by (auto simp: client_enter_def beginEnqueue_def after_enqueue_def is_send_def split: client_kind.split)
  next
    case False
    then have "closing p = Open" using p by (simp add: p_ok_def)
    then have "p_ok (set_pc i Inside (p\<lparr>enqueueWG := Suc (enqueueWG p)\<rparr>))"
      using True ok by (intro user_moves [OF p]) (auto simp: client_ok_def is_send_def)
    then show ?thesis using True False by (simp add: client_enter_def beginEnqueue_def)
  qed
qed (use p in \<open>auto simp: client_enter_def\<close>)

lemma enqueue_select_keeps:
  assumes "enqueue_select nb choice item p = Some (err, q)"
  shows "q = p \<or> q = p\<lparr>send := send p @ [item], accepted := accepted p @ [item]\<rparr>"
  using assms by (auto simp: enqueue_select_def split: select_case.splits if_splits)

lemma after_enqueue_ok:
  assumes p: "p_ok p" and i: "i < length (clients p)" and inside: "cl_pc (clients p ! i) = Inside"
  shows "p_ok (after_enqueue i err (p\<lparr>enqueueWG := enqueueWG p - 1\<rparr>))"
proof -
  note ok = user_ok [OF p i]
  have "answered_phase (closing p) \<Longrightarrow> False" using user_late [OF p i] inside by (simp add: late_ok_def)
  then have na: "\<not> answered_phase (closing p)" by blast
  have "enqueueWG p = length (filter (\<lambda>c. cl_pc c = Inside) (clients p))" using p by (simp add: p_ok_def req_inv_def)
  then have pos: "0 < enqueueWG p" using i inside by (auto simp: filter_empty_conv)
  have "p_ok (set_pc i (Returned r) (p\<lparr>enqueueWG := enqueueWG p - 1\<rparr>))" for r
    using na pos inside by (intro user_moves [OF p i]) (auto simp: client_ok_def)
  moreover have "p_ok (set_pc i pc (p\<lparr>enqueueWG := enqueueWG p - 1\<rparr>))" if "\<not> is_send (clients p ! i)" "pc \<noteq> Inside" for pc
    using na pos inside ok that by (intro user_moves [OF p i]) (auto simp: client_ok_def is_send_def)
  ultimately show ?thesis by (auto simp: after_enqueue_def is_send_def split: client_kind.split option.split)
qed

lemma client_select_ok:
  assumes p: "p_ok p"
  shows "p_ok (client_select i choice p)"
proof (cases "i < length (clients p) \<and> cl_pc (clients p ! i) = Inside")
  case True
  show ?thesis
  proof (cases "enqueue_select (\<not> blocking (clients p ! i)) choice (cl_item (clients p ! i)) p")
    case (Some a)
    obtain err q where a: "a = (err, q)" by (cases a)
    from enqueue_select_keeps [OF Some [unfolded a]] have "p_ok q" "clients q = clients p" using p by auto
    then show ?thesis using True Some a after_enqueue_ok [of q i err] by (simp add: client_select_def)
  qed (use p True in \<open>simp add: client_select_def\<close>)
qed (use p in \<open>auto simp: client_select_def\<close>)

lemma set_pc_control: "set_pc i pc (enqueueControl quit e p) = enqueueControl quit e (set_pc i pc p)"
  by (simp add: enqueueControl_def set_pc_def close_flag_def)

lemma set_pc_cancel: "set_pc i pc (sendCancel quit k p) = sendCancel quit k (set_pc i pc p)"
  by (simp add: sendCancel_def enqueueControl_def set_pc_def close_flag_def)

lemma sendCancel_ok: "p_ok p \<Longrightarrow> p_ok (sendCancel quit k p)"
  by (auto simp: sendCancel_def intro!: enqueueControl_ok)

lemma set_pc_timeouts: "set_pc i pc (p\<lparr>callTimeouts := k\<rparr>) = (set_pc i pc p)\<lparr>callTimeouts := k\<rparr>"
  by (simp add: set_pc_def)

lemma client_wait_ok:
  assumes p: "p_ok p"
  shows "p_ok (client_wait i choice p)"
proof (cases "i < length (clients p) \<and> cl_pc (clients p ! i) = Waiting")
  case True
  then have up: "p_ok (set_pc i (Returned r) (removePending (cl_request (clients p ! i)) p))" for r
    using user_gives_up [OF p] by simp
  have ret: "p_ok (set_pc i (Returned r) p)" for r
    using True by (intro user_stays [OF p]) (auto simp: client_ok_def late_ok_def)
  have "p_ok (request_wait i choice p)" using p up ret
    by (auto simp: request_wait_def Let_def set_pc_timeouts set_pc_cancel intro!: sendCancel_ok split: wait_case.split option.split)
  moreover have "p_ok (flush_wait i choice p)" using p up ret
    by (auto simp: flush_wait_def Let_def split: wait_case.split option.split sum.split)
  ultimately show ?thesis using p True by (simp add: client_wait_def split: client_kind.split)
qed (use p in \<open>auto simp: client_wait_def\<close>)

lemma peer_step_ok: "p_ok p \<Longrightarrow> p_ok (peer_step ev p)"
  by (cases ev) (simp_all add: user_begin_ok client_enter_ok client_select_ok client_remove_ok client_wait_ok writer_ok
      reader_ok close_flag_ok closer_ok)

lemma newPeer_ok: "p_ok (newPeer node idle queue remote incarnation now requests)"
  by (simp add: newPeer_def p_ok_def req_inv_def)

lemma peer_run_ok: "p_ok p \<Longrightarrow> p_ok (fold peer_step evs p)"
  by (induction evs arbitrary: p) (simp_all add: peer_step_ok)

section \<open>What becomes of an accepted item\<close>

definition in_writer :: "writer_pc \<Rightarrow> outbound list" where
  "in_writer w = (case w of Holding item \<Rightarrow> [item] | _ \<Rightarrow> [])"

text \<open>
  Stated on the queues and the logs: of the items with a notification, those accepted are those written, queued,
  in the hands of the writer, and reported.
\<close>

definition acc_inv :: "nat \<Rightarrow> outbound list \<Rightarrow> outbound list \<Rightarrow> outbound list \<Rightarrow> writer_pc \<Rightarrow> outbound list \<Rightarrow> outbound list \<Rightarrow> close_phase \<Rightarrow> bool" where
  "acc_inv cap acc snd_q ctl w wr rep ph \<longleftrightarrow>
     mset (filter ob_notify acc) = mset (filter ob_notify wr) + mset (filter ob_notify snd_q) + mset (filter ob_notify (in_writer w)) + mset rep \<and>
     length snd_q \<le> cap \<and> length ctl \<le> controlCap \<and> (\<forall>x \<in> set ctl. \<not> ob_notify x) \<and> (ph = Closed \<longrightarrow> snd_q = [])"

definition a_ok :: "peer \<Rightarrow> bool" where
  "a_ok p \<longleftrightarrow> acc_inv (sendCap p) (accepted p) (send p) (control p) (writer p) (written p) (map fst (reports p)) (closing p)"

lemmas acc_defs = a_ok_def acc_inv_def in_writer_def

lemma plain_notify [simp]: "\<not> ob_notify (plain e)"
  by (simp add: plain_def)

lemma a_close_flag: "a_ok p \<Longrightarrow> a_ok (close_flag err p)"
  by (simp add: acc_defs close_flag_def)

lemma a_control: "a_ok p \<Longrightarrow> a_ok (enqueueControl quit e p)"
  by (auto simp: acc_defs enqueueControl_def close_flag_def)

lemma a_ok_updates [simp]:
  "a_ok (p\<lparr>reader := r\<rparr>) = a_ok p" "a_ok (p\<lparr>lastRead := t\<rparr>) = a_ok p" "a_ok (p\<lparr>connClosed := b\<rparr>) = a_ok p"
  "a_ok (p\<lparr>peerProtocolErrors := k\<rparr>) = a_ok p" "a_ok (p\<lparr>cancelsSent := k\<rparr>) = a_ok p" "a_ok (p\<lparr>callTimeouts := k\<rparr>) = a_ok p"
  "a_ok (p\<lparr>nextRequest := k\<rparr>) = a_ok p" "a_ok (p\<lparr>clients := cs\<rparr>) = a_ok p" "a_ok (p\<lparr>enqueueWG := k\<rparr>) = a_ok p"
  "a_ok (p\<lparr>pending := ks\<rparr>) = a_ok p" "a_ok (p\<lparr>results := rs\<rparr>) = a_ok p" "a_ok (p\<lparr>lateResponses := k\<rparr>) = a_ok p"
  "a_ok (set_pc i pc p) = a_ok p"
  by (simp_all add: a_ok_def set_pc_def)

lemma a_users:
  "a_ok p \<Longrightarrow> a_ok (request_begin inc trace e p)" "a_ok p \<Longrightarrow> a_ok (flush_begin p)"
  "a_ok p \<Longrightarrow> a_ok (send_begin target protocol fingerprint payload path trace deadline nonBlocking p)"
  "a_ok p \<Longrightarrow> a_ok (client_remove i p)" "a_ok p \<Longrightarrow> a_ok (complete e p)"
  by (auto simp: request_begin_def flush_begin_def send_begin_def client_remove_def addPending_def removePending_def complete_def
      Let_def split: client_pc.split)

lemma a_after: "a_ok (after_enqueue i err p) = a_ok p"
  by (simp add: after_enqueue_def split: client_kind.split option.split)

lemma a_enter: "a_ok p \<Longrightarrow> a_ok (client_enter i p)"
  by (auto simp: client_enter_def beginEnqueue_def a_after split: prod.splits bool.splits if_splits)

lemma a_select:
  assumes "a_ok p" and "p_ok p"
  shows "a_ok (client_select i choice p)"
proof (cases "i < length (clients p) \<and> cl_pc (clients p ! i) = Inside")
  case True
  then have "closing p \<noteq> Closed" using user_late [OF assms(2), of i] by (auto simp: late_ok_def)
  then have "a_ok q" if "enqueue_select nb choice item p = Some (err, q)" for nb item err q
    using assms(1) that by (auto simp: acc_defs enqueue_select_def split: select_case.splits if_splits)
  then show ?thesis using assms(1) by (auto simp: client_select_def a_after split: option.split)
qed (use assms in \<open>auto simp: client_select_def\<close>)

lemma a_wait: "a_ok p \<Longrightarrow> a_ok (client_wait i choice p)"
  by (auto simp: client_wait_def request_wait_def flush_wait_def sendCancel_def removePending_def Let_def
      intro!: a_control split: client_kind.split wait_case.split option.split sum.split)

lemma a_writer: "a_ok p \<Longrightarrow> a_ok (write_top p)" "a_ok p \<Longrightarrow> a_ok (write_select choice p)" "a_ok p \<Longrightarrow> a_ok (write_item ok now p)"
proof -
  assume p: "a_ok p"
  show "a_ok (write_top p)" using p by (auto simp: write_top_def acc_defs split: list.split)
  show "a_ok (write_select choice p)"
    using p by (auto simp: write_select_def acc_defs close_flag_def split: list.split write_case.split)
  show "a_ok (write_item ok now p)"
    using p by (auto simp: write_item_def peer_write_def acc_defs close_flag_def reportSendFailure_def split: writer_pc.split)
qed

lemma a_reader: "a_ok p \<Longrightarrow> a_ok (read_frame quit now frame p)" "a_ok p \<Longrightarrow> a_ok (read_pong p)"
  by (auto simp: read_frame_def read_pong_def Let_def intro: a_close_flag a_users a_control split: option.split reader_pc.split)

lemma a_closer: "a_ok p \<Longrightarrow> a_ok (close_conn_of p)" "a_ok p \<Longrightarrow> a_ok (close_pending p)" "a_ok p \<Longrightarrow> a_ok (close_drain p)"
proof -
  assume p: "a_ok p"
  show "a_ok (close_conn_of p)" using p by (simp add: close_conn_of_def split: close_phase.split)
  show "a_ok (close_pending p)" using p by (simp add: close_pending_def acc_defs split: close_phase.split)
  show "a_ok (close_drain p)"
    using p by (auto simp: close_drain_def acc_defs reportSendFailure_def split: close_phase.split list.split)
qed

lemma peer_step_acc: "a_ok p \<Longrightarrow> p_ok p \<Longrightarrow> a_ok (peer_step ev p)"
  by (cases ev) (simp_all add: a_users a_enter a_select a_wait a_writer a_reader a_close_flag a_closer)

lemma peer_run_acc: "a_ok p \<Longrightarrow> p_ok p \<Longrightarrow> a_ok (fold peer_step evs p)"
  by (induction evs arbitrary: p) (simp_all add: peer_step_acc peer_step_ok)

lemma newPeer_acc: "a_ok (newPeer node idle queue remote incarnation now requests)"
  by (simp add: newPeer_def acc_defs)

section \<open>Properties\<close>

lemma sendCap_helpers [simp]:
  "sendCap (close_flag err p) = sendCap p" "sendCap (complete e p) = sendCap p" "sendCap (enqueueControl quit e p) = sendCap p"
  "sendCap (reportSendFailure item err p) = sendCap p" "sendCap (after_enqueue i r p) = sendCap p"
  "sendCap (removePending k p) = sendCap p" "sendCap (addPending k p) = sendCap p"
  by (simp_all add: close_flag_def complete_def enqueueControl_def reportSendFailure_def after_enqueue_def removePending_def
      addPending_def Let_def split: client_kind.split option.split)

lemma sendCap_step: "sendCap (peer_step ev p) = sendCap p"
  by (cases ev) (auto simp: request_begin_def flush_begin_def send_begin_def client_enter_def beginEnqueue_def client_select_def
      enqueue_select_def client_remove_def client_wait_def request_wait_def flush_wait_def sendCancel_def write_top_def
      write_select_def write_item_def peer_write_def read_frame_def read_pong_def close_conn_of_def close_pending_def
      close_drain_def Let_def split: select_case.splits client_pc.splits client_kind.splits wait_case.splits option.splits
      sum.splits list.splits write_case.splits writer_pc.splits reader_pc.splits close_phase.splits if_splits)

lemma sendCap_run: "sendCap (fold peer_step evs p) = sendCap p"
  by (induction evs arbitrary: p) (simp_all add: sendCap_step)

text \<open>
  C28: Nobody waits for a lost answer.  In every history of a peer a request is sent at most one result, so
  that no result ever blocks on its channel.  When \<open>close\<close> has finished, every caller of \<open>request\<close> or
  \<open>FlushOutgoing\<close> that is still waiting has exactly one result in its channel, and receiving it ends the wait;
  \<open>FlushOutgoing\<close> relies on this, since it does not look at the done channel.
\<close>

theorem waiting_users_are_answered:
  assumes "p = fold peer_step evs (newPeer node idle queue remote incarnation now requests)"
  shows "distinct (map fst (results p)) \<and>
    (closing p = Closed \<and> i < length (clients p) \<and> cl_pc (clients p ! i) = Waiting \<longrightarrow>
       (\<exists>!r. (cl_request (clients p ! i), r) \<in> set (results p)) \<and>
       (\<exists>r. cl_pc (clients (peer_step (Wait i WaitResult) p) ! i) = Returned r))"
proof (intro conjI impI)
  have ok: "p_ok p" unfolding assms by (rule peer_run_ok [OF newPeer_ok])
  then show dist: "distinct (map fst (results p))" by (simp add: p_ok_def req_inv_def)
  assume "closing p = Closed \<and> i < length (clients p) \<and> cl_pc (clients p ! i) = Waiting"
  then have c: "closing p = Closed" and i: "i < length (clients p)" and w: "cl_pc (clients p ! i) = Waiting" by auto
  let ?k = "cl_request (clients p ! i)"
  have "?k \<in> set (map fst (results p))" using user_late [OF ok i] c w by (simp add: late_ok_def)
  then obtain r where r: "(?k, r) \<in> set (results p)" by auto
  then show "\<exists>!r. (?k, r) \<in> set (results p)" using dist by (metis eq_key_imp_eq_value)
  have "find (\<lambda>(n, r). n = ?k) (results p) \<noteq> None" using r by (auto simp: find_None_iff)
  moreover have "\<not> is_send (clients p ! i)" using user_ok [OF ok i] w by (simp add: client_ok_def)
  ultimately show "\<exists>r. cl_pc (clients (peer_step (Wait i WaitResult) p) ! i) = Returned r" using i w
    by (auto simp: client_wait_def request_wait_def flush_wait_def is_send_def set_pc_def split: client_kind.split sum.split)
qed

text \<open>
  C29: No accepted send is lost silently.  The send queue never exceeds its capacity, and at any time the sends
  that \<open>enqueue\<close> accepted are, counted with multiplicity, those written to the connection, those in the queue
  or in the hands of the writer, and those reported to the error callback.  Once \<open>close\<close> has finished and the
  writer has returned, each accepted send was either written or reported, and not both.
\<close>

theorem accepted_sends_written_or_reported:
  assumes "p = fold peer_step evs (newPeer node idle queue remote incarnation now requests)"
  shows "length (send p) \<le> queue \<and>
    mset (filter ob_notify (accepted p)) = mset (filter ob_notify (written p)) + mset (filter ob_notify (send p)) +
      mset (filter ob_notify (in_writer (writer p))) + mset (map fst (reports p)) \<and>
    (closing p = Closed \<and> writer p = WriterGone \<longrightarrow>
       mset (filter ob_notify (accepted p)) = mset (filter ob_notify (written p)) + mset (map fst (reports p)))"
proof -
  have "a_ok p" unfolding assms by (rule peer_run_acc [OF newPeer_acc newPeer_ok])
  moreover have "sendCap p = queue" unfolding assms sendCap_run by (simp add: newPeer_def)
  ultimately show ?thesis by (auto simp: acc_defs)
qed

text \<open>The steps that finish a \<open>close\<close>: whoever is inside \<open>enqueue\<close> sees the done channel, then the body goes on.\<close>

definition finish_close :: "peer \<Rightarrow> peer_event list" where
  "finish_close p = map (\<lambda>i. Select i CaseDone) [0..<length (clients p)] @ [CloseConnection, ClosePending] @
     replicate (Suc (length (send p))) CloseDrain"

lemma select_done:
  assumes "p_done p"
  shows "p_done (client_select i CaseDone p)" "closing (client_select i CaseDone p) = closing p"
    "send (client_select i CaseDone p) = send p" "length (clients (client_select i CaseDone p)) = length (clients p)"
    "j < length (clients p) \<Longrightarrow> j \<noteq> i \<Longrightarrow> clients (client_select i CaseDone p) ! j = clients p ! j"
    "i < length (clients p) \<Longrightarrow> cl_pc (clients (client_select i CaseDone p) ! i) \<noteq> Inside"
  using assms by (auto simp: client_select_def enqueue_select_def after_enqueue_def set_pc_def split: client_kind.split)

lemma all_leave:
  assumes "p_done p" and "n \<le> length (clients p)"
  defines "q \<equiv> fold peer_step (map (\<lambda>i. Select i CaseDone) [0..<n]) p"
  shows "p_done q \<and> closing q = closing p \<and> send q = send p \<and> length (clients q) = length (clients p) \<and>
    (\<forall>j < n. cl_pc (clients q ! j) \<noteq> Inside)"
  using assms(2) unfolding q_def
proof (induction n)
  case (Suc n)
  let ?q = "fold peer_step (map (\<lambda>i. Select i CaseDone) [0..<n]) p"
  have IH: "p_done ?q" "closing ?q = closing p" "send ?q = send p" "length (clients ?q) = length (clients p)"
    "\<forall>j < n. cl_pc (clients ?q ! j) \<noteq> Inside" using Suc by simp_all
  note s = select_done [OF IH(1)]
  have "cl_pc (clients (client_select n CaseDone ?q) ! j) \<noteq> Inside" if "j < Suc n" for j
    using that s(5,6) IH(4,5) Suc.prems by (cases "j = n") auto
  then show ?case using s(1-4) IH by simp
qed (use assms(1) in simp)

lemma drain_all:
  "closing p = Answered err \<Longrightarrow> closing (fold peer_step (replicate (Suc (length (send p))) CloseDrain) p) = Closed"
proof (induction "send p" arbitrary: p)
  case Nil
  then show ?case using Nil.hyps by (simp add: close_drain_def flip: Nil.hyps)
next
  case (Cons item rest)
  let ?q = "close_drain p"
  have "closing ?q = Answered err" "send ?q = rest"
    using Cons.prems Cons.hyps(2) by (simp_all add: close_drain_def reportSendFailure_def flip: Cons.hyps(2))
  with Cons.hyps(1) [of ?q] Cons.hyps(2) show ?case by (simp flip: Cons.hyps(2))
qed

text \<open>
  C30: \<open>close\<close> always comes to its end.  From every state a history can reach in which \<open>close\<close> has been called,
  the steps of \<open>finish_close\<close>, all of which are possible without the network, a timeout or a new message, lead to
  the state in which it has returned.
\<close>

theorem close_completes:
  assumes "p = fold peer_step evs (newPeer node idle queue remote incarnation now requests)" and "closing p = Flagged err"
  shows "closing (fold peer_step (finish_close p) p) = Closed"
proof -
  have ok: "p_ok p" unfolding assms(1) by (rule peer_run_ok [OF newPeer_ok])
  then have "p_done p" using assms(2) by (simp add: p_ok_def)
  let ?q = "fold peer_step (map (\<lambda>i. Select i CaseDone) [0..<length (clients p)]) p"
  have q: "closing ?q = Flagged err" "send ?q = send p" "length (clients ?q) = length (clients p)"
    "\<forall>j < length (clients p). cl_pc (clients ?q ! j) \<noteq> Inside"
    using all_leave [OF \<open>p_done p\<close> le_refl] assms(2) by auto
  have "enqueueWG ?q = length (filter (\<lambda>c. cl_pc c = Inside) (clients ?q))"
    using peer_run_ok [OF ok] by (simp add: p_ok_def req_inv_def)
  moreover have "filter (\<lambda>c. cl_pc c = Inside) (clients ?q) = []"
    using q(3,4) by (auto simp: filter_empty_conv in_set_conv_nth)
  ultimately have "enqueueWG ?q = 0" by simp
  then have "closing (close_pending (close_conn_of ?q)) = Answered err" "send (close_pending (close_conn_of ?q)) = send p"
    using q by (simp_all add: close_pending_def close_conn_of_def)
  with drain_all [of "close_pending (close_conn_of ?q)" err] show ?thesis by (simp add: finish_close_def del: replicate_Suc)
qed

text \<open>A history: a flush and two sends are accepted, one send is written, and the peer is closed.\<close>

definition demo_target :: RemoteTarget where
  "demo_target = \<lparr>tgt_Node = ''b'', tgt_Incarnation = ''i'', tgt_Service = ''s'', tgt_Address = 1, tgt_Generation = 1\<rparr>"

definition demo_traffic :: "peer_event list" where
  "demo_traffic = [SendBegin demo_target ''p'' '''' [] [] '''' 0 True, Enter 0, Select 0 CaseSend, WriteTop, WriteSelect WriteSend,
     WriteItem True 5, FlushBegin, Enter 1, Select 1 CaseSend, SendBegin demo_target ''p'' '''' [] [] '''' 0 True, Enter 2,
     Select 2 CaseSend, RequestBegin ''i'' '''' zero_Envelope, Enter 3, CloseFlag ErrRemoteUnavailable]"

definition demo_closed :: "peer_event list" where
  "demo_closed = demo_traffic @ [Select 3 CaseDone, CloseConnection, ClosePending, CloseDrain, CloseDrain, CloseDrain, WriteTop,
     WriteSelect WriteDone]"

abbreviation demo_peer :: peer where
  "demo_peer \<equiv> newPeer ''a'' 60 4 ''b'' ''i'' 0 0"

theorem waiting_users_are_answered_witness:
  "\<exists>!r. (1, r) \<in> set (results (fold peer_step demo_closed demo_peer))"
proof -
  let ?p = "fold peer_step demo_closed demo_peer"
  have "closing ?p = Closed" "1 < length (clients ?p)" "cl_pc (clients ?p ! 1) = Waiting" "cl_request (clients ?p ! 1) = 1"
    by code_simp+
  with waiting_users_are_answered [OF refl, of demo_closed "''a''" 60 4 "''b''" "''i''" 0 0 1] show ?thesis by simp
qed

theorem accepted_sends_written_or_reported_witness:
  "mset (filter ob_notify (accepted (fold peer_step demo_closed demo_peer))) =
     mset (filter ob_notify (written (fold peer_step demo_closed demo_peer))) + mset (map fst (reports (fold peer_step demo_closed demo_peer))) \<and>
   length (reports (fold peer_step demo_closed demo_peer)) = 1 \<and> length (written (fold peer_step demo_closed demo_peer)) = 1"
proof -
  let ?p = "fold peer_step demo_closed demo_peer"
  have "closing ?p = Closed" "writer ?p = WriterGone" "length (reports ?p) = 1" "length (written ?p) = 1" by code_simp+
  with accepted_sends_written_or_reported [OF refl, of demo_closed "''a''" 60 4 "''b''" "''i''" 0 0] show ?thesis by blast
qed

theorem close_completes_witness:
  "closing (fold peer_step (finish_close (fold peer_step demo_traffic demo_peer)) (fold peer_step demo_traffic demo_peer)) = Closed"
proof -
  have "closing (fold peer_step demo_traffic demo_peer) = Flagged ErrRemoteUnavailable" by code_simp
  then show ?thesis by (rule close_completes [OF refl])
qed

end
