(* ===== verification/Cluster_Registry.thy ===== *)
theory Cluster_Registry
  imports Sky_Prelude "HOL-Library.List_Lexorder" "HOL-Library.Char_ord" "HOL-Library.Finite_Map" "HOL-Library.Sublist" "HOL-Library.Multiset"
begin

text \<open>
  The node registry: snapshots and their validation (\<open>cluster/registry.go\<close>) and the table of endpoints a
  node installs from them (\<open>registryManager\<close> in \<open>cluster/managers.go\<close>).  Go strings are lists of bytes and
  compare bytewise.  The revision, the hash of the JSON text of the nodes, is a parameter, and so are reading
  and parsing the file of a \<open>FileRegistry\<close>.
\<close>

section \<open>Trimming\<close>

text \<open>The byte sequences of the characters that \<open>unicode.IsSpace\<close> accepts.\<close>

definition space_seqs :: "string list" where
  "space_seqs = [[CHR 0x09], [CHR 0x0A], [CHR 0x0B], [CHR 0x0C], [CHR 0x0D], [CHR 0x20],
     [CHR 0xC2, CHR 0x85], [CHR 0xC2, CHR 0xA0], [CHR 0xE1, CHR 0x9A, CHR 0x80],
     [CHR 0xE2, CHR 0x80, CHR 0x80], [CHR 0xE2, CHR 0x80, CHR 0x81], [CHR 0xE2, CHR 0x80, CHR 0x82],
     [CHR 0xE2, CHR 0x80, CHR 0x83], [CHR 0xE2, CHR 0x80, CHR 0x84], [CHR 0xE2, CHR 0x80, CHR 0x85],
     [CHR 0xE2, CHR 0x80, CHR 0x86], [CHR 0xE2, CHR 0x80, CHR 0x87], [CHR 0xE2, CHR 0x80, CHR 0x88],
     [CHR 0xE2, CHR 0x80, CHR 0x89], [CHR 0xE2, CHR 0x80, CHR 0x8A], [CHR 0xE2, CHR 0x80, CHR 0xA8],
     [CHR 0xE2, CHR 0x80, CHR 0xA9], [CHR 0xE2, CHR 0x80, CHR 0xAF], [CHR 0xE2, CHR 0x81, CHR 0x9F],
     [CHR 0xE3, CHR 0x80, CHR 0x80]]"

function trim_front :: "string list \<Rightarrow> string \<Rightarrow> string" where
  "trim_front seqs s =
     (case find (\<lambda>p. p \<noteq> [] \<and> prefix p s) seqs of None \<Rightarrow> s | Some p \<Rightarrow> trim_front seqs (drop (length p) s))"
  by pat_completeness auto
termination
proof (relation "measure (\<lambda>(seqs, s). length s)", goal_cases)
  case (2 seqs s p)
  then have "p \<noteq> []" "prefix p s" by (auto simp: find_Some_iff)
  then show ?case by (auto simp: prefix_def)
qed simp

declare trim_front.simps [simp del]

definition TrimSpace :: "string \<Rightarrow> string" where
  "TrimSpace s = rev (trim_front (map rev space_seqs) (rev (trim_front space_seqs s)))"

section \<open>Snapshots\<close>

record Endpoint =
  ep_NodeID :: string
  ep_Address :: string

record Snapshot =
  SchemaVersion :: int
  Revision :: string
  Nodes :: "Endpoint list"

definition RegistrySchemaVersion :: int where "RegistrySchemaVersion = 1"

datatype registry_error =
    ReadRegistry string | ParseRegistry string | SchemaMismatch int | NodeIncomplete nat | DuplicateNode string
  | RevisionMismatch string string | NoLocalNode string

definition trim_endpoint :: "Endpoint \<Rightarrow> Endpoint" where
  "trim_endpoint e = \<lparr>ep_NodeID = TrimSpace (ep_NodeID e), ep_Address = TrimSpace (ep_Address e)\<rparr>"

text \<open>
  \<open>sort.Slice\<close> leaves the order of equal keys open; a snapshot with equal node names is never returned by
  \<open>Validate\<close>, and for distinct names there is only one sorted order.
\<close>

definition normalized :: "Snapshot \<Rightarrow> Snapshot" where
  "normalized s = s\<lparr>Nodes := sort_key ep_NodeID (map trim_endpoint (Nodes s))\<rparr>"

definition computedRevision :: "(Endpoint list \<Rightarrow> string) \<Rightarrow> Snapshot \<Rightarrow> string" where
  "computedRevision digest s = digest (Nodes (normalized s))"

text \<open>The loop of \<open>Validate\<close>, with the index and the names seen so far.\<close>

fun check_nodes :: "nat \<Rightarrow> string list \<Rightarrow> Endpoint list \<Rightarrow> registry_error option" where
  "check_nodes i seen [] = None"
| "check_nodes i seen (e # es) =
     (let node = TrimSpace (ep_NodeID e); address = TrimSpace (ep_Address e)
      in if node = '''' \<or> address = '''' then Some (NodeIncomplete i)
         else if node \<in> set seen then Some (DuplicateNode node)
         else check_nodes (i + 1) (node # seen) es)"

definition Validate :: "(Endpoint list \<Rightarrow> string) \<Rightarrow> Snapshot \<Rightarrow> registry_error option" where
  "Validate digest s =
     (if SchemaVersion s \<noteq> RegistrySchemaVersion then Some (SchemaMismatch (SchemaVersion s))
      else case check_nodes 0 [] (Nodes s) of
        Some err \<Rightarrow> Some err
      | None \<Rightarrow>
          let want = computedRevision digest (normalized s)
          in if Revision s = '''' \<or> Revision s \<noteq> want then Some (RevisionMismatch (Revision s) want) else None)"

text \<open>\<open>FileRegistry.Load\<close>: what the file read gives, and how its text parses.\<close>

definition File_Load ::
  "(Endpoint list \<Rightarrow> string) \<Rightarrow> (string \<Rightarrow> string + Snapshot) \<Rightarrow> string + string \<Rightarrow> registry_error + Snapshot" where
  "File_Load digest parse file =
     (case file of
        Inl err \<Rightarrow> Inl (ReadRegistry err)
      | Inr data \<Rightarrow>
          (case parse data of
             Inl err \<Rightarrow> Inl (ParseRegistry err)
           | Inr snapshot \<Rightarrow>
               (case Validate digest snapshot of Some err \<Rightarrow> Inl err | None \<Rightarrow> Inr (normalized snapshot))))"

text \<open>\<open>StaticRegistry\<close>: its state is the snapshot.\<close>

definition Static_Replace :: "(Endpoint list \<Rightarrow> string) \<Rightarrow> Endpoint list \<Rightarrow> Snapshot" where
  "Static_Replace digest nodes =
     (let snapshot = normalized \<lparr>SchemaVersion = RegistrySchemaVersion, Revision = '''', Nodes = nodes\<rparr>
      in snapshot\<lparr>Revision := computedRevision digest snapshot\<rparr>)"

definition NewStaticRegistry :: "(Endpoint list \<Rightarrow> string) \<Rightarrow> Endpoint list \<Rightarrow> Snapshot" where
  "NewStaticRegistry digest nodes = Static_Replace digest nodes"

definition Static_Load :: "(Endpoint list \<Rightarrow> string) \<Rightarrow> Snapshot \<Rightarrow> registry_error + Snapshot" where
  "Static_Load digest snapshot = (case Validate digest snapshot of Some err \<Rightarrow> Inl err | None \<Rightarrow> Inr snapshot)"

definition endpoints :: "Snapshot \<Rightarrow> (string, string) fmap" where
  "endpoints s = fold (\<lambda>e. fmupd (ep_NodeID e) (ep_Address e)) (Nodes s) fmempty"

section \<open>The installed table\<close>

record registryManager =
  localNode :: string
  rm_endpoints :: "(string, string) fmap"
  rm_revision :: string

definition newRegistryManager :: "string \<Rightarrow> registryManager" where
  "newRegistryManager local = \<lparr>localNode = local, rm_endpoints = fmempty, rm_revision = ''''\<rparr>"

text \<open>A missing entry of a Go map reads as the empty string.\<close>

definition entry_of :: "(string, string) fmap \<Rightarrow> string \<Rightarrow> string" where
  "entry_of m k = (case fmlookup m k of None \<Rightarrow> '''' | Some v \<Rightarrow> v)"

definition install :: "Snapshot \<Rightarrow> registryManager \<Rightarrow> (registry_error + string fset) \<times> registryManager" where
  "install snapshot r =
     (let next = endpoints snapshot
      in if entry_of next (localNode r) = '''' then (Inl (NoLocalNode (localNode r)), r)
         else let gone = ffilter (\<lambda>n. entry_of next n = '''' \<or> Some (entry_of next n) \<noteq> fmlookup (rm_endpoints r) n) (fmdom (rm_endpoints r));
                  moved = ffilter (\<lambda>n. entry_of (rm_endpoints r) n \<noteq> '''' \<and> Some (entry_of (rm_endpoints r) n) \<noteq> fmlookup next n) (fmdom next)
              in (Inr (gone |\<union>| moved), r\<lparr>rm_endpoints := next, rm_revision := Revision snapshot\<rparr>))"

definition rm_endpoint :: "registryManager \<Rightarrow> string \<Rightarrow> string" where
  "rm_endpoint r n = entry_of (rm_endpoints r) n"

definition known :: "registryManager \<Rightarrow> string \<Rightarrow> bool" where
  "known r n \<longleftrightarrow> rm_endpoint r n \<noteq> ''''"

definition revisionValue :: "registryManager \<Rightarrow> string" where
  "revisionValue r = rm_revision r"

section \<open>Trimming and normal forms\<close>

lemma trim_front_clean: "find (\<lambda>p. p \<noteq> [] \<and> prefix p (trim_front seqs s)) seqs = None"
proof (induction seqs s rule: trim_front.induct)
  case (1 seqs s)
  show ?case
  proof (cases "find (\<lambda>p. p \<noteq> [] \<and> prefix p s) seqs")
    case None
    then show ?thesis by (simp add: trim_front.simps [of seqs s])
  next
    case (Some p)
    then show ?thesis using "1.IH" [OF Some] by (simp add: trim_front.simps [of seqs s])
  qed
qed

lemma trim_front_fixed: "find (\<lambda>p. p \<noteq> [] \<and> prefix p s) seqs = None \<Longrightarrow> trim_front seqs s = s"
  by (simp add: trim_front.simps [of seqs s])

lemma trim_front_suffix: "suffix (trim_front seqs s) s"
proof (induction seqs s rule: trim_front.induct)
  case (1 seqs s)
  show ?case
  proof (cases "find (\<lambda>p. p \<noteq> [] \<and> prefix p s) seqs")
    case (Some p)
    then have "suffix (trim_front seqs s) (drop (length p) s)" using "1.IH" [OF Some] by (simp add: trim_front.simps [of seqs s])
    then show ?thesis using suffix_drop suffix_order.trans by blast
  qed (simp add: trim_front.simps [of seqs s])
qed

lemma TrimSpace_idem [simp]: "TrimSpace (TrimSpace s) = TrimSpace s"
proof -
  let ?l = "trim_front space_seqs s"
  let ?t = "trim_front (map rev space_seqs) (rev ?l)"
  have pre: "prefix (rev ?t) ?l" using trim_front_suffix [of "map rev space_seqs" "rev ?l"] by (simp add: suffix_to_prefix)
  have "find (\<lambda>p. p \<noteq> [] \<and> prefix p (rev ?t)) space_seqs = None"
    using trim_front_clean [of space_seqs s] pre by (auto simp: find_None_iff dest: prefix_order.trans)
  then have "trim_front space_seqs (rev ?t) = rev ?t" by (rule trim_front_fixed)
  moreover have "trim_front (map rev space_seqs) ?t = ?t" by (rule trim_front_fixed [OF trim_front_clean])
  ultimately show ?thesis by (simp add: TrimSpace_def)
qed

lemma trim_endpoint_idem [simp]: "trim_endpoint (trim_endpoint e) = trim_endpoint e"
  by (simp add: trim_endpoint_def)

lemma trim_endpoint_map: "map trim_endpoint (sort_key ep_NodeID (map trim_endpoint xs)) = sort_key ep_NodeID (map trim_endpoint xs)"
proof -
  have "map trim_endpoint ys = ys" if "set ys \<subseteq> trim_endpoint ` set xs" for ys
    using that by (intro map_idI) auto
  then show ?thesis by simp
qed

lemma normalized_idem [simp]: "normalized (normalized s) = normalized s"
proof -
  have "sort_key ep_NodeID (sort_key ep_NodeID ys) = sort_key ep_NodeID ys" for ys :: "Endpoint list"
    by (rule sort_key_id_if_sorted) simp
  then show ?thesis by (simp add: normalized_def trim_endpoint_map)
qed

section \<open>Validation\<close>

definition valid_nodes :: "Endpoint list \<Rightarrow> bool" where
  "valid_nodes es \<longleftrightarrow> list_all (\<lambda>e. TrimSpace (ep_NodeID e) \<noteq> [] \<and> TrimSpace (ep_Address e) \<noteq> []) es \<and>
     distinct (map (\<lambda>e. TrimSpace (ep_NodeID e)) es)"

lemma check_nodes_iff:
  "check_nodes i seen es = None \<longleftrightarrow> valid_nodes es \<and> set seen \<inter> set (map (\<lambda>e. TrimSpace (ep_NodeID e)) es) = {}"
  by (induction i seen es rule: check_nodes.induct) (auto simp: valid_nodes_def Let_def)

lemma Validate_iff:
  "Validate digest s = None \<longleftrightarrow> SchemaVersion s = RegistrySchemaVersion \<and> valid_nodes (Nodes s) \<and>
     Revision s = digest (Nodes (normalized s)) \<and> Revision s \<noteq> []"
  using check_nodes_iff [of 0 "[]" "Nodes s"]
  by (auto simp: Validate_def Let_def computedRevision_def split: option.splits)

lemma normalized_views [simp]:
  "SchemaVersion (normalized s) = SchemaVersion s" "Revision (normalized s) = Revision s"
  by (simp_all add: normalized_def)

lemma valid_nodes_normalized: "valid_nodes (Nodes (normalized s)) = valid_nodes (Nodes s)"
proof -
  let ?f = "\<lambda>e. TrimSpace (ep_NodeID e)"
  have "image_mset ?f (image_mset trim_endpoint (mset (Nodes s))) = image_mset ?f (mset (Nodes s))"
    by (simp add: image_mset.compositionality comp_def trim_endpoint_def)
  then have "mset (map ?f (Nodes (normalized s))) = mset (map ?f (Nodes s))" by (simp add: normalized_def)
  then have "distinct (map ?f (Nodes (normalized s))) = distinct (map ?f (Nodes s))" by (rule mset_eq_imp_distinct_iff)
  then show ?thesis by (auto simp: valid_nodes_def list_all_iff normalized_def trim_endpoint_def)
qed

text \<open>A snapshot in the form every registry hands out.\<close>

definition canonical :: "(Endpoint list \<Rightarrow> string) \<Rightarrow> Snapshot \<Rightarrow> bool" where
  "canonical digest s \<longleftrightarrow> normalized s = s \<and> Validate digest s = None \<and> sorted_wrt (<) (map ep_NodeID (Nodes s)) \<and>
     list_all (\<lambda>e. trim_endpoint e = e \<and> ep_NodeID e \<noteq> [] \<and> ep_Address e \<noteq> []) (Nodes s)"

lemma trimmed_fields: "trim_endpoint e = e \<Longrightarrow> TrimSpace (ep_NodeID e) = ep_NodeID e \<and> TrimSpace (ep_Address e) = ep_Address e"
  by (metis Endpoint.select_convs(1,2) trim_endpoint_def)

lemma normalized_canonical:
  assumes "Validate digest s = None"
  shows "canonical digest (normalized s)"
proof -
  let ?n = "Nodes (normalized s)"
  have trimmed: "trim_endpoint e = e" if "e \<in> set ?n" for e using that by (auto simp: normalized_def)
  note tf = trimmed_fields [OF trimmed]
  have valid: "valid_nodes ?n" using assms by (simp add: Validate_iff valid_nodes_normalized)
  have ids: "map (\<lambda>e. TrimSpace (ep_NodeID e)) ?n = map ep_NodeID ?n" using tf by (intro map_cong) auto
  have "distinct (map ep_NodeID ?n)" using valid by (simp only: valid_nodes_def ids)
  moreover have "sorted (map ep_NodeID ?n)" by (simp add: normalized_def)
  ultimately have "sorted_wrt (<) (map ep_NodeID ?n)" by (simp add: strict_sorted_iff)
  moreover have "ep_NodeID e \<noteq> [] \<and> ep_Address e \<noteq> []" if "e \<in> set ?n" for e
    using valid that tf [OF that] by (auto simp: valid_nodes_def list_all_iff)
  ultimately show ?thesis using assms trimmed valid by (auto simp: canonical_def Validate_iff list_all_iff)
qed

text \<open>
  Whatever a registry loads is canonical.  A snapshot that FileRegistry or StaticRegistry returns is its
  own normal form, passes Validate again, and lists trimmed, non-empty, strictly increasing node names.  A
  static registry whose digest is never empty serves its nodes exactly when their trimmed names and addresses
  are not empty and the names are distinct, and then the very nodes it was given, trimmed and sorted.
\<close>

theorem loaded_registry_is_canonical:
  assumes "\<And>ns. digest ns \<noteq> ''''"
  shows "(\<forall>s. File_Load digest parse file = Inr s \<longrightarrow> canonical digest s) \<and>
    (case Static_Load digest (Static_Replace digest nodes) of
       Inl err \<Rightarrow> \<not> valid_nodes nodes
     | Inr s \<Rightarrow> valid_nodes nodes \<and> canonical digest s \<and> mset (Nodes s) = mset (map trim_endpoint nodes))"
proof -
  have fl: "canonical digest s" if "File_Load digest parse file = Inr s" for s
    using that normalized_canonical by (auto simp: File_Load_def split: sum.splits option.splits)
  let ?s = "Static_Replace digest nodes"
  let ?t = "\<lparr>SchemaVersion = RegistrySchemaVersion, Revision = '''', Nodes = nodes\<rparr>"
  have nodes: "Nodes ?s = Nodes (normalized ?t)" by (simp add: Static_Replace_def Let_def)
  have norm: "normalized ?s = ?s"
    using normalized_idem [of ?t] by (simp add: Static_Replace_def Let_def normalized_def)
  have rev: "Revision ?s = digest (Nodes ?s)"
    by (simp add: Static_Replace_def Let_def computedRevision_def)
  have valid: "valid_nodes (Nodes ?s) = valid_nodes nodes" using valid_nodes_normalized [of ?t] by (simp add: nodes)
  have "Validate digest ?s = None \<longleftrightarrow> valid_nodes nodes"
    using assms by (simp add: Validate_iff norm rev valid) (simp add: Static_Replace_def Let_def)
  moreover have "mset (Nodes ?s) = mset (map trim_endpoint nodes)" by (simp add: nodes normalized_def)
  moreover have "canonical digest ?s" if "Validate digest ?s = None" using normalized_canonical [OF that] norm by simp
  ultimately show ?thesis using fl by (auto simp: Static_Load_def split: option.splits)
qed

definition demo_nodes :: "Endpoint list" where
  "demo_nodes = [\<lparr>ep_NodeID = '' b'', ep_Address = ''y''\<rparr>, \<lparr>ep_NodeID = ''a'', ep_Address = ''x''\<rparr>]"

theorem loaded_registry_is_canonical_witness:
  "case Static_Load (\<lambda>ns. ''r'') (Static_Replace (\<lambda>ns. ''r'') demo_nodes) of
     Inl err \<Rightarrow> \<not> valid_nodes demo_nodes
   | Inr s \<Rightarrow> valid_nodes demo_nodes \<and> canonical (\<lambda>ns. ''r'') s \<and> mset (Nodes s) = mset (map trim_endpoint demo_nodes)"
  using loaded_registry_is_canonical [of "\<lambda>ns. ''r''"] by simp

section \<open>Installing\<close>

lemma endpoints_lookup:
  "distinct (map ep_NodeID ns) \<Longrightarrow>
     fmlookup (fold (\<lambda>e. fmupd (ep_NodeID e) (ep_Address e)) ns m) n = Some a \<longleftrightarrow>
       (\<exists>e \<in> set ns. ep_NodeID e = n \<and> ep_Address e = a) \<or> n \<notin> ep_NodeID ` set ns \<and> fmlookup m n = Some a"
proof (induction ns arbitrary: m)
  case (Cons e ns)
  then have "ep_NodeID e \<notin> ep_NodeID ` set ns" by simp
  then show ?case using Cons.IH [of "fmupd (ep_NodeID e) (ep_Address e) m"] Cons.prems by (cases "n = ep_NodeID e") auto
qed simp

definition no_blank :: "(string, string) fmap \<Rightarrow> bool" where
  "no_blank m \<longleftrightarrow> (\<forall>n a. fmlookup m n = Some a \<longrightarrow> a \<noteq> [])"

lemma endpoint_mem: "(\<exists>e \<in> set es. ep_NodeID e = n \<and> ep_Address e = a) \<longleftrightarrow> \<lparr>ep_NodeID = n, ep_Address = a\<rparr> \<in> set es"
proof
  assume "\<exists>e \<in> set es. ep_NodeID e = n \<and> ep_Address e = a"
  then obtain e where e: "e \<in> set es" "ep_NodeID e = n" "ep_Address e = a" by blast
  then have eq: "e = \<lparr>ep_NodeID = n, ep_Address = a\<rparr>" by simp
  from e(1) show "\<lparr>ep_NodeID = n, ep_Address = a\<rparr> \<in> set es" unfolding eq .
next
  assume "\<lparr>ep_NodeID = n, ep_Address = a\<rparr> \<in> set es"
  then show "\<exists>e \<in> set es. ep_NodeID e = n \<and> ep_Address e = a" by (intro bexI) simp_all
qed

lemma endpoints_of_canonical:
  assumes "canonical digest s"
  shows "fmlookup (endpoints s) n = Some a \<longleftrightarrow> \<lparr>ep_NodeID = n, ep_Address = a\<rparr> \<in> set (Nodes s)" and "no_blank (endpoints s)"
proof -
  have dist: "distinct (map ep_NodeID (Nodes s))" using assms by (simp add: canonical_def strict_sorted_iff)
  have mem: "(\<exists>e \<in> set (Nodes s). ep_NodeID e = n \<and> ep_Address e = a) \<longleftrightarrow> \<lparr>ep_NodeID = n, ep_Address = a\<rparr> \<in> set (Nodes s)" for n a
    by (rule endpoint_mem)
  have lk: "fmlookup (endpoints s) n = Some a \<longleftrightarrow> \<lparr>ep_NodeID = n, ep_Address = a\<rparr> \<in> set (Nodes s)" for n a
    unfolding mem [symmetric] endpoints_def endpoints_lookup [OF dist] by simp
  then show "fmlookup (endpoints s) n = Some a \<longleftrightarrow> \<lparr>ep_NodeID = n, ep_Address = a\<rparr> \<in> set (Nodes s)" by simp
  have "a \<noteq> []" if "\<lparr>ep_NodeID = n, ep_Address = a\<rparr> \<in> set (Nodes s)" for n a
    using assms that unfolding canonical_def list_all_iff by (metis Endpoint.select_convs(2))
  then show "no_blank (endpoints s)" unfolding no_blank_def lk by blast
qed

lemma entry_of_empty: "no_blank m \<Longrightarrow> entry_of m n = [] \<longleftrightarrow> fmlookup m n = None"
  by (auto simp: entry_of_def no_blank_def split: option.splits)

text \<open>
  C21: Reloading reports exactly the nodes that changed.  When canonical snapshots are installed one after the
  other, the nodes reported as changed are those of the old table whose address is different in the new one
  or that are gone from it; new nodes are not reported.  The table then holds exactly the endpoints of the new
  snapshot, with its revision.  A snapshot without the local node is refused and changes nothing.
\<close>

theorem install_reports_changes:
  assumes "canonical digest old" and "canonical digest new" and "rm_endpoints r = endpoints old"
  shows "case install new r of
      (Inl err, r') \<Rightarrow> r' = r \<and> localNode r \<notin> ep_NodeID ` set (Nodes new)
    | (Inr changed, r') \<Rightarrow>
        (\<forall>n. n |\<in>| changed \<longleftrightarrow> (\<exists>a. \<lparr>ep_NodeID = n, ep_Address = a\<rparr> \<in> set (Nodes old) - set (Nodes new))) \<and>
        localNode r \<in> ep_NodeID ` set (Nodes new) \<and> rm_endpoints r' = endpoints new \<and> revisionValue r' = Revision new \<and>
        (\<forall>n. known r' n \<longleftrightarrow> n \<in> ep_NodeID ` set (Nodes new))"
proof -
  note o = endpoints_of_canonical [OF assms(1)] and w = endpoints_of_canonical [OF assms(2)]
  have mem: "n \<in> ep_NodeID ` set (Nodes new) \<longleftrightarrow> (\<exists>a. fmlookup (endpoints new) n = Some a)" for n
    unfolding w(1) endpoint_mem [symmetric] by (simp add: image_iff) metis
  have entry: "entry_of m n = [] \<longleftrightarrow> fmlookup m n = None" "entry_of m n \<noteq> [] \<Longrightarrow> Some (entry_of m n) = fmlookup m n"
    if "no_blank m" for m n using that entry_of_empty by (auto simp: entry_of_def split: option.splits)
  have ch: "n |\<in>| ffilter (\<lambda>n. entry_of (endpoints new) n = [] \<or> Some (entry_of (endpoints new) n) \<noteq> fmlookup (endpoints old) n) (fmdom (endpoints old))
      |\<union>| ffilter (\<lambda>n. entry_of (endpoints old) n \<noteq> [] \<and> Some (entry_of (endpoints old) n) \<noteq> fmlookup (endpoints new) n) (fmdom (endpoints new))
    \<longleftrightarrow> (\<exists>a. fmlookup (endpoints old) n = Some a \<and> fmlookup (endpoints new) n \<noteq> Some a)" for n
    using entry [OF o(2), of n] entry [OF w(2), of n]
    by (cases "fmlookup (endpoints old) n"; cases "fmlookup (endpoints new) n") (auto simp: fmlookup_dom_iff)
  show ?thesis
  proof (cases "entry_of (endpoints new) (localNode r) = []")
    case True
    then show ?thesis using entry(1) [OF w(2)] mem by (simp add: install_def Let_def)
  next
    case False
    then have "localNode r \<in> ep_NodeID ` set (Nodes new)" using entry(1) [OF w(2)] mem by auto
    moreover have "entry_of (endpoints new) n \<noteq> [] \<longleftrightarrow> n \<in> ep_NodeID ` set (Nodes new)" for n using entry(1) [OF w(2), of n] mem by auto
    ultimately show ?thesis using False ch unfolding o(1) w(1)
      by (simp add: install_def Let_def assms(3) revisionValue_def known_def rm_endpoint_def)
  qed
qed

definition demo_old :: Snapshot where "demo_old = Static_Replace (\<lambda>ns. ''r'') demo_nodes"

definition demo_new :: Snapshot where
  "demo_new = Static_Replace (\<lambda>ns. ''r'') [\<lparr>ep_NodeID = ''b'', ep_Address = ''z''\<rparr>, \<lparr>ep_NodeID = ''a'', ep_Address = ''x''\<rparr>]"

lemma demo_canonical: "canonical (\<lambda>ns. ''r'') demo_old" "canonical (\<lambda>ns. ''r'') demo_new"
proof -
  have "Validate (\<lambda>ns. ''r'') demo_old = None" "normalized demo_old = demo_old"
    "Validate (\<lambda>ns. ''r'') demo_new = None" "normalized demo_new = demo_new" by code_simp+
  then show "canonical (\<lambda>ns. ''r'') demo_old" "canonical (\<lambda>ns. ''r'') demo_new" by (metis normalized_canonical)+
qed

theorem install_reports_changes_witness:
  "\<exists>changed r'. install demo_new (snd (install demo_old (newRegistryManager ''a''))) = (Inr changed, r') \<and>
     ''b'' |\<in>| changed \<and> ''a'' |\<notin>| changed"
proof -
  let ?r = "\<lparr>localNode = ''a'', rm_endpoints = endpoints demo_old, rm_revision = ''r''\<rparr>"
  have nodes: "Nodes demo_old = [\<lparr>ep_NodeID = ''a'', ep_Address = ''x''\<rparr>, \<lparr>ep_NodeID = ''b'', ep_Address = ''y''\<rparr>]"
    "Nodes demo_new = [\<lparr>ep_NodeID = ''a'', ep_Address = ''x''\<rparr>, \<lparr>ep_NodeID = ''b'', ep_Address = ''z''\<rparr>]"
    "Revision demo_old = ''r''" by code_simp+
  then have r: "snd (install demo_old (newRegistryManager ''a'')) = ?r"
    by (simp add: install_def newRegistryManager_def endpoints_def entry_of_def Let_def)
  obtain res r' where i: "install demo_new ?r = (res, r')" by (cases "install demo_new ?r")
  from install_reports_changes [OF demo_canonical, of ?r] i nodes show ?thesis unfolding r by (cases res) auto
qed

end
