(* ===== verification/Cluster_Lanes.thy ===== *)
theory Cluster_Lanes
  imports Cluster_Registry Complex_Main
begin

text \<open>
  The connection lanes of a node: the slots of \<open>peerManager\<close> (\<open>cluster/managers.go\<close>), \<open>peerFor\<close>, \<open>connectSlot\<close>,
  \<open>Reload\<close> and \<open>Stop\<close> (\<open>cluster/node.go\<close>), and \<open>peerClosed\<close> and \<open>backoff\<close> (\<open>cluster/peer.go\<close>).  Slots, peers and
  the channels that announce the end of a dial live in heaps and are named by their positions.  Callers of
  \<open>peerFor\<close> and the goroutines of \<open>connectSlot\<close> have program counters, and a history is a list of events, each of
  which is one section under a lock.  Times and the random jitter are arguments of the events.
\<close>

section \<open>State\<close>

datatype PeerState = PeerDisconnected | PeerConnecting | PeerReady | PeerBackoff | PeerClosing

text \<open>\<open>slot_owner\<close> is the node the slot was made for; the code does not store it.\<close>

record peerSlot =
  slot_peer :: "nat option"
  slot_state :: PeerState
  slot_endpoint :: string
  connecting :: "nat option"
  backoffUntil :: int
  failures :: nat
  connectFailures :: nat
  handshakeFailures :: nat
  reconnects :: nat
  everConnected :: bool
  slot_owner :: string

text \<open>Of a peer: its node, endpoint and slot, whether its done channel is closed, and whether it told its slot.\<close>

record lane_peer =
  lp_node :: string
  lp_endpoint :: string
  lp_slot :: nat
  lp_closed :: bool
  lp_told :: bool

datatype caller_pc = AtSlot | Chosen nat | Awaiting nat | Got nat | Refused go_error

record caller =
  ca_node :: string
  ca_endpoint :: string
  ca_slot :: nat
  ca_pc :: caller_pc

datatype connector_pc = Dialing | Dialed nat | DialFailed bool | ConnectorGone

record connector =
  co_slot :: nat
  co_node :: string
  co_endpoint :: string
  co_done :: nat
  co_pc :: connector_pc

record lanes =
  ln_registry :: registryManager
  perPeer :: nat
  backoffMin :: int
  backoffMax :: int
  stopping :: bool
  slot_heap :: "peerSlot list"
  slot_table :: "(string, nat list) fmap"
  peers :: "lane_peer list"
  chans :: "bool list"
  callers :: "caller list"
  connectors :: "connector list"
  nodeReconnects :: nat

definition newLanes :: "string \<Rightarrow> nat \<Rightarrow> int \<Rightarrow> int \<Rightarrow> lanes" where
  "newLanes node lanesPer least most =
     \<lparr>ln_registry = newRegistryManager node, perPeer = lanesPer, backoffMin = least, backoffMax = most, stopping = False,
      slot_heap = [], slot_table = fmempty, peers = [], chans = [], callers = [], connectors = [], nodeReconnects = 0\<rparr>"

definition newSlot :: "string \<Rightarrow> peerSlot" where
  "newSlot node = \<lparr>slot_peer = None, slot_state = PeerDisconnected, slot_endpoint = '''', connecting = None,
     backoffUntil = 0, failures = 0, connectFailures = 0, handshakeFailures = 0, reconnects = 0,
     everConnected = False, slot_owner = node\<rparr>"

definition upd_slot :: "nat \<Rightarrow> (peerSlot \<Rightarrow> peerSlot) \<Rightarrow> lanes \<Rightarrow> lanes" where
  "upd_slot k f w = w\<lparr>slot_heap := (slot_heap w)[k := f (slot_heap w ! k)]\<rparr>"

definition close_peer :: "nat \<Rightarrow> lanes \<Rightarrow> lanes" where
  "close_peer q w = w\<lparr>peers := (peers w)[q := (peers w ! q)\<lparr>lp_closed := True\<rparr>]\<rparr>"

definition close_chan :: "nat \<Rightarrow> lanes \<Rightarrow> lanes" where
  "close_chan ch w = w\<lparr>chans := (chans w)[ch := True]\<rparr>"

definition caller_to :: "nat \<Rightarrow> caller_pc \<Rightarrow> lanes \<Rightarrow> lanes" where
  "caller_to i pc w = w\<lparr>callers := (callers w)[i := (callers w ! i)\<lparr>ca_pc := pc\<rparr>]\<rparr>"

definition connector_to :: "nat \<Rightarrow> connector_pc \<Rightarrow> lanes \<Rightarrow> lanes" where
  "connector_to j pc w = w\<lparr>connectors := (connectors w)[j := (connectors w ! j)\<lparr>co_pc := pc\<rparr>]\<rparr>"

section \<open>Backoff\<close>

text \<open>
  The loop of \<open>backoff\<close>, with the number of rounds that are left, and the product with the jitter, a number from
  four to six fifths; the product is rounded down as the conversion to a duration does.
\<close>

primrec backoff_loop :: "int \<Rightarrow> nat \<Rightarrow> int \<Rightarrow> int" where
  "backoff_loop most 0 delay = delay"
| "backoff_loop most (Suc k) delay = (if delay < most div 2 then backoff_loop most k (2 * delay) else delay)"

definition backoff_base :: "int \<Rightarrow> int \<Rightarrow> nat \<Rightarrow> int" where
  "backoff_base least most n =
     (let delay = backoff_loop most (n - 1) least in if delay > most then most else delay)"

definition backoff :: "int \<Rightarrow> int \<Rightarrow> rat \<Rightarrow> nat \<Rightarrow> int" where
  "backoff least most random n = \<lfloor>rat_of_int (backoff_base least most n) * (8 / 10 + random * (4 / 10))\<rfloor>"

section \<open>Slots\<close>

definition slot :: "string \<Rightarrow> nat \<Rightarrow> nat \<Rightarrow> lanes \<Rightarrow> nat \<times> lanes" where
  "slot node index n w =
     (case fmlookup (slot_table w) node of
        Some (k # ks) \<Rightarrow> ((k # ks) ! index, w)
      | _ \<Rightarrow>
          let ks = [length (slot_heap w)..<length (slot_heap w) + n]
          in (ks ! index, w\<lparr>slot_heap := slot_heap w @ replicate n (newSlot node), slot_table := fmupd node ks (slot_table w)\<rparr>))"

text \<open>The state after a peer was lost.\<close>

definition into_backoff :: "lanes \<Rightarrow> int \<Rightarrow> rat \<Rightarrow> peerSlot \<Rightarrow> peerSlot" where
  "into_backoff w now random s = s\<lparr>slot_state := PeerBackoff, failures := failures s + 1,
     backoffUntil := now + backoff (backoffMin w) (backoffMax w) random (failures s + 1)\<rparr>"

definition peerClosed :: "int \<Rightarrow> rat \<Rightarrow> nat \<Rightarrow> lanes \<Rightarrow> lanes" where
  "peerClosed now random q w =
     (if q < length (peers w) \<and> lp_closed (peers w ! q) \<and> \<not> lp_told (peers w ! q)
      then let k = lp_slot (peers w ! q); w = w\<lparr>peers := (peers w)[q := (peers w ! q)\<lparr>lp_told := True\<rparr>]\<rparr>
           in if slot_peer (slot_heap w ! k) \<noteq> Some q then w
              else upd_slot k (\<lambda>s. into_backoff w now random (s\<lparr>slot_peer := None\<rparr>)) w
      else w)"

text \<open>\<open>detachSlot\<close> empties a slot and gives the peer to be closed.\<close>

definition detachSlot :: "nat \<Rightarrow> lanes \<Rightarrow> nat list \<times> lanes" where
  "detachSlot k w =
     ((case slot_peer (slot_heap w ! k) of Some q \<Rightarrow> [q] | None \<Rightarrow> []),
      upd_slot k (\<lambda>s. s\<lparr>slot_peer := None, slot_state := PeerClosing, slot_endpoint := ''''\<rparr>) w)"

primrec detach_all :: "nat list \<Rightarrow> lanes \<Rightarrow> nat list \<times> lanes" where
  "detach_all [] w = ([], w)"
| "detach_all (k # ks) w = (let (qs, w) = detachSlot k w; (rest, w) = detach_all ks w in (qs @ rest, w))"

definition slots_of :: "lanes \<Rightarrow> string \<Rightarrow> nat list" where
  "slots_of w node = (case fmlookup (slot_table w) node of Some ks \<Rightarrow> ks | None \<Rightarrow> [])"

definition closeChanged :: "string fset \<Rightarrow> lanes \<Rightarrow> lanes" where
  "closeChanged changed w =
     (let (closing, w) = detach_all (concat (map (slots_of w) (sorted_list_of_fset changed))) w;
          w = w\<lparr>slot_table := fmdrop_fset changed (slot_table w)\<rparr>
      in fold close_peer closing w)"

definition closeAll :: "lanes \<Rightarrow> lanes" where
  "closeAll w = closeChanged (fmdom (slot_table w)) w"

section \<open>Connecting\<close>

definition node_endpoint :: "lanes \<Rightarrow> string \<Rightarrow> go_error + string" where
  "node_endpoint w node =
     (let ep = rm_endpoint (ln_registry w) node
      in if stopping w \<or> ep = '''' then Inl (Wrap ErrRemoteUnavailable (''node='' @ node)) else Inr ep)"

text \<open>\<open>peerFor\<close> up to its loop.\<close>

definition peerFor_begin :: "string \<Rightarrow> nat \<Rightarrow> lanes \<Rightarrow> lanes" where
  "peerFor_begin node shard w =
     (case node_endpoint w node of
        Inl err \<Rightarrow> w\<lparr>callers := callers w @ [\<lparr>ca_node = node, ca_endpoint = '''', ca_slot = 0, ca_pc = Refused err\<rparr>]\<rparr>
      | Inr ep \<Rightarrow>
          let (k, w) = slot node (shard mod perPeer w) (perPeer w) w
          in w\<lparr>callers := callers w @ [\<lparr>ca_node = node, ca_endpoint = ep, ca_slot = k, ca_pc = AtSlot\<rparr>]\<rparr>)"

definition drop_closed :: "int \<Rightarrow> rat \<Rightarrow> nat \<Rightarrow> lanes \<Rightarrow> lanes" where
  "drop_closed now random k w =
     (case slot_peer (slot_heap w ! k) of
        Some q \<Rightarrow>
          if lp_closed (peers w ! q)
          then upd_slot k (\<lambda>s. let s = s\<lparr>slot_peer := None\<rparr>
                 in if slot_state s \<noteq> PeerBackoff then into_backoff w now random s else s) w
          else w
      | None \<Rightarrow> w)"

definition usable :: "lanes \<Rightarrow> string \<Rightarrow> nat option \<Rightarrow> bool" where
  "usable w ep sp = (case sp of Some q \<Rightarrow> \<not> lp_closed (peers w ! q) \<and> lp_endpoint (peers w ! q) = ep | None \<Rightarrow> False)"

text \<open>The section of the loop under the lock of the slot.\<close>

definition peerFor_lock :: "int \<Rightarrow> rat \<Rightarrow> nat \<Rightarrow> lanes \<Rightarrow> lanes" where
  "peerFor_lock now random i w =
     (if i < length (callers w) \<and> ca_pc (callers w ! i) = AtSlot
      then let k = ca_slot (callers w ! i); ep = ca_endpoint (callers w ! i); node = ca_node (callers w ! i)
           in if usable w ep (slot_peer (slot_heap w ! k))
              then caller_to i (Got (the (slot_peer (slot_heap w ! k)))) w
              else let w = drop_closed now random k w; s = slot_heap w ! k
                   in case connecting s of
                        Some ch \<Rightarrow> caller_to i (Awaiting ch) w
                      | None \<Rightarrow>
                          if slot_state s = PeerBackoff \<and> now < backoffUntil s \<and> slot_endpoint s = ep
                          then caller_to i (Refused (Wrap ErrRemoteUnavailable (''node='' @ node @ '' backoff''))) w
                          else let ch = length (chans w);
                                   w = upd_slot k (\<lambda>s. s\<lparr>connecting := Some ch, slot_state := PeerConnecting, slot_endpoint := ep\<rparr>)
                                         (w\<lparr>chans := chans w @ [False]\<rparr>)
                               in caller_to i (Chosen ch) w
      else w)"

text \<open>The section that looks at the stop flag: it gives up, or starts the goroutine and waits.\<close>

definition peerFor_check :: "nat \<Rightarrow> lanes \<Rightarrow> lanes" where
  "peerFor_check i w =
     (if i < length (callers w)
      then (case ca_pc (callers w ! i) of
              Chosen ch \<Rightarrow>
                let k = ca_slot (callers w ! i)
                in if stopping w
                   then caller_to i (Refused ErrRemoteUnavailable) (close_chan ch
                          (if connecting (slot_heap w ! k) = Some ch
                           then upd_slot k (\<lambda>s. s\<lparr>connecting := None, slot_state := PeerClosing\<rparr>) w else w))
                   else caller_to i (Awaiting ch) (w\<lparr>connectors := connectors w @
                          [\<lparr>co_slot = k, co_node = ca_node (callers w ! i), co_endpoint = ca_endpoint (callers w ! i),
                            co_done = ch, co_pc = Dialing\<rparr>]\<rparr>)
            | _ \<Rightarrow> w)
      else w)"

definition peerFor_wake :: "nat \<Rightarrow> lanes \<Rightarrow> lanes" where
  "peerFor_wake i w =
     (if i < length (callers w)
      then (case ca_pc (callers w ! i) of Awaiting ch \<Rightarrow> if chans w ! ch then caller_to i AtSlot w else w | _ \<Rightarrow> w)
      else w)"

definition peerFor_ctx :: "ctx_error \<Rightarrow> nat \<Rightarrow> lanes \<Rightarrow> lanes" where
  "peerFor_ctx err i w =
     (if i < length (callers w)
      then (case ca_pc (callers w ! i) of Awaiting ch \<Rightarrow> caller_to i (Refused (ErrCtx err)) w | _ \<Rightarrow> w)
      else w)"

text \<open>\<open>connectSlot\<close>: the result of \<open>dialPeer\<close> is a new peer or a failure, of the handshake or before it.\<close>

definition connect_dial :: "bool option \<Rightarrow> nat \<Rightarrow> lanes \<Rightarrow> lanes" where
  "connect_dial failed j w =
     (if j < length (connectors w) \<and> co_pc (connectors w ! j) = Dialing
      then (case failed of
              Some handshakeFailure \<Rightarrow> connector_to j (DialFailed handshakeFailure) w
            | None \<Rightarrow> connector_to j (Dialed (length (peers w))) (w\<lparr>peers := peers w @
                [\<lparr>lp_node = co_node (connectors w ! j), lp_endpoint = co_endpoint (connectors w ! j),
                  lp_slot = co_slot (connectors w ! j), lp_closed = False, lp_told = False\<rparr>]\<rparr>))
      else w)"

definition connect_ready :: "nat \<Rightarrow> peerSlot \<Rightarrow> peerSlot" where
  "connect_ready q s = s\<lparr>connecting := None, reconnects := reconnects s + (if everConnected s then 1 else 0), everConnected := True,
     failures := 0, backoffUntil := 0, slot_peer := Some q, slot_state := PeerReady\<rparr>"

definition connect_failed :: "lanes \<Rightarrow> int \<Rightarrow> rat \<Rightarrow> bool \<Rightarrow> peerSlot \<Rightarrow> peerSlot" where
  "connect_failed w now random handshakeFailure s = into_backoff w now random
     (s\<lparr>connecting := None, slot_peer := None, connectFailures := connectFailures s + 1,
       handshakeFailures := handshakeFailures s + (if handshakeFailure then 1 else 0)\<rparr>)"

definition connect_install :: "int \<Rightarrow> rat \<Rightarrow> nat \<Rightarrow> lanes \<Rightarrow> lanes" where
  "connect_install now random j w =
     (if j < length (connectors w) \<and> co_pc (connectors w ! j) \<noteq> Dialing \<and> co_pc (connectors w ! j) \<noteq> ConnectorGone
      then let c = connectors w ! j; k = co_slot c; s = slot_heap w ! k
           in close_chan (co_done c) (connector_to j ConnectorGone
             (if connecting s \<noteq> Some (co_done c) \<or> slot_endpoint s \<noteq> co_endpoint c \<or> slot_state s = PeerClosing
              then let w = (if connecting s = Some (co_done c) then upd_slot k (\<lambda>s. s\<lparr>connecting := None\<rparr>) w else w)
                   in (case co_pc c of Dialed q \<Rightarrow> close_peer q w | _ \<Rightarrow> w)
              else (case co_pc c of
                      Dialed q \<Rightarrow> upd_slot k (connect_ready q) (w\<lparr>nodeReconnects := nodeReconnects w + (if everConnected s then 1 else 0)\<rparr>)
                    | DialFailed handshakeFailure \<Rightarrow> upd_slot k (connect_failed w now random handshakeFailure) w
                    | _ \<Rightarrow> w)))
      else w)"

section \<open>The node\<close>

text \<open>
  \<open>Reload\<close> with what the registry loads, and \<open>Stop\<close> in two sections: the flag, and the closing of the lanes.
  The inbound connections, which both also close, are those of another theory.
\<close>

definition Reload :: "registry_error + Snapshot \<Rightarrow> lanes \<Rightarrow> registry_error option \<times> lanes" where
  "Reload loaded w =
     (case loaded of
        Inl err \<Rightarrow> (Some err, w)
      | Inr snapshot \<Rightarrow>
          (case install snapshot (ln_registry w) of
             (Inl err, _) \<Rightarrow> (Some err, w)
           | (Inr changed, r) \<Rightarrow> (None, closeChanged changed (w\<lparr>ln_registry := r\<rparr>))))"

definition Stop_flag :: "lanes \<Rightarrow> lanes" where "Stop_flag w = w\<lparr>stopping := True\<rparr>"

definition Stop_lanes :: "lanes \<Rightarrow> lanes" where "Stop_lanes w = (if stopping w then closeAll w else w)"

datatype lane_event =
    PeerFor string nat
  | Lock nat int rat
  | Check nat
  | Wake nat
  | CtxDone nat ctx_error
  | Dial nat "bool option"
  | Install nat int rat
  | PeerDown nat
  | PeerTold nat int rat
  | ReloadWith "registry_error + Snapshot"
  | StopFlag
  | StopLanes

fun lane_step :: "lane_event \<Rightarrow> lanes \<Rightarrow> lanes" where
  "lane_step (PeerFor node shard) w = peerFor_begin node shard w"
| "lane_step (Lock i now random) w = peerFor_lock now random i w"
| "lane_step (Check i) w = peerFor_check i w"
| "lane_step (Wake i) w = peerFor_wake i w"
| "lane_step (CtxDone i err) w = peerFor_ctx err i w"
| "lane_step (Dial j failed) w = connect_dial failed j w"
| "lane_step (Install j now random) w = connect_install now random j w"
| "lane_step (PeerDown q) w = close_peer q w"
| "lane_step (PeerTold q now random) w = peerClosed now random q w"
| "lane_step (ReloadWith loaded) w = snd (Reload loaded w)"
| "lane_step StopFlag w = Stop_flag w"
| "lane_step StopLanes w = Stop_lanes w"

text \<open>The first loop of \<open>FlushOutgoing\<close>: the peers of the lanes, unless a lane that was in use has lost its peer.\<close>

primrec flush_collect :: "lanes \<Rightarrow> nat list \<Rightarrow> go_error + nat list" where
  "flush_collect w [] = Inr []"
| "flush_collect w (k # ks) =
     (case slot_peer (slot_heap w ! k) of
        None \<Rightarrow>
          if everConnected (slot_heap w ! k)
          then Inl (ErrText ''cluster: cannot prove admission on disconnected peer'') else flush_collect w ks
      | Some q \<Rightarrow> map_sum id ((#) q) (flush_collect w ks))"

section \<open>One dial at a time\<close>

text \<open>
  Whoever is between setting \<open>connecting\<close> and closing the channel holds the channel for its slot: first the caller,
  then the goroutine it starts.  The slots hold exactly the channels that are held, and these are the open ones.
\<close>

definition flight :: "nat option list \<Rightarrow> bool list \<Rightarrow> (nat \<times> nat) multiset \<Rightarrow> bool" where
  "flight cs chs H \<longleftrightarrow>
     (\<forall>ch. count (image_mset snd H) ch \<le> 1) \<and>
     (\<forall>k ch. (k, ch) \<in># H \<longrightarrow> k < length cs \<and> cs ! k = Some ch \<and> ch < length chs \<and> \<not> chs ! ch) \<and>
     (\<forall>k ch. k < length cs \<longrightarrow> cs ! k = Some ch \<longrightarrow> (k, ch) \<in># H) \<and>
     (\<forall>ch. ch < length chs \<longrightarrow> \<not> chs ! ch \<longrightarrow> ch \<in># image_mset snd H)"

lemma flightD:
  assumes "flight cs chs H"
  shows "count (image_mset snd H) ch \<le> 1"
    and "(k, ch) \<in># H \<Longrightarrow> k < length cs \<and> cs ! k = Some ch \<and> ch < length chs \<and> \<not> chs ! ch"
    and "k < length cs \<Longrightarrow> cs ! k = Some ch \<Longrightarrow> (k, ch) \<in># H"
    and "ch < length chs \<Longrightarrow> \<not> chs ! ch \<Longrightarrow> ch \<in># image_mset snd H"
  using assms unfolding flight_def by blast+

lemma flightI:
  assumes "\<And>ch. count (image_mset snd H) ch \<le> 1"
    and "\<And>k ch. (k, ch) \<in># H \<Longrightarrow> k < length cs \<and> cs ! k = Some ch \<and> ch < length chs \<and> \<not> chs ! ch"
    and "\<And>k ch. k < length cs \<Longrightarrow> cs ! k = Some ch \<Longrightarrow> (k, ch) \<in># H"
    and "\<And>ch. ch < length chs \<Longrightarrow> \<not> chs ! ch \<Longrightarrow> ch \<in># image_mset snd H"
  shows "flight cs chs H"
  using assms unfolding flight_def by blast

lemma flight_start:
  assumes "flight cs chs H" and "k < length cs" and "cs ! k = None"
  shows "flight (cs[k := Some (length chs)]) (chs @ [False]) (add_mset (k, length chs) H)"
proof (rule flightI)
  note D = flightD [OF assms(1)]
  have "length chs \<notin># image_mset snd H" using D(2) by fastforce
  then have "count (image_mset snd H) (length chs) = 0" by (metis not_in_iff)
  then show "count (image_mset snd (add_mset (k, length chs) H)) ch \<le> 1" for ch using D(1) [of ch] by auto
  show "j < length (cs[k := Some (length chs)]) \<and> cs[k := Some (length chs)] ! j = Some ch \<and> ch < length (chs @ [False]) \<and> \<not> (chs @ [False]) ! ch"
    if "(j, ch) \<in># add_mset (k, length chs) H" for j ch
  proof (cases "(j, ch) \<in># H")
    case True
    note d = D(2) [OF True]
    then have "j \<noteq> k" using assms(3) by auto
    then show ?thesis using d by (simp add: nth_append)
  qed (use that assms(2) in simp)
  show "(j, ch) \<in># add_mset (k, length chs) H"
    if "j < length (cs[k := Some (length chs)])" "cs[k := Some (length chs)] ! j = Some ch" for j ch
    using that D(3) [of j ch] by (cases "j = k") auto
  show "ch \<in># image_mset snd (add_mset (k, length chs) H)" if "ch < length (chs @ [False])" "\<not> (chs @ [False]) ! ch" for ch
    using that D(4) [of ch] by (cases "ch = length chs") (auto simp: nth_append)
qed

lemma flight_end:
  assumes "flight cs chs (add_mset (k, ch) H)"
  shows "flight (cs[k := None]) (chs[ch := True]) H"
proof (rule flightI)
  note D = flightD [OF assms]
  have k: "k < length cs" "cs ! k = Some ch" "ch < length chs" using D(2) [of k ch] by simp_all
  have "count (image_mset snd H) ch = 0" using D(1) [of ch] by simp
  then have out: "ch \<notin># image_mset snd H" by (metis not_in_iff)
  show "count (image_mset snd H) c \<le> 1" for c using D(1) [of c] by (simp split: if_splits)
  show "j < length (cs[k := None]) \<and> cs[k := None] ! j = Some c \<and> c < length (chs[ch := True]) \<and> \<not> chs[ch := True] ! c"
    if "(j, c) \<in># H" for j c
  proof -
    note d = D(2) [of j c]
    have "c \<in># image_mset snd H" using that by force
    then have "c \<noteq> ch" using out by blast
    then show ?thesis using d that k by (cases "j = k") auto
  qed
  show "(j, c) \<in># H" if "j < length (cs[k := None])" "cs[k := None] ! j = Some c" for j c
    using that D(3) [of j c] k by (cases "j = k") auto
  show "c \<in># image_mset snd H" if "c < length (chs[ch := True])" "\<not> chs[ch := True] ! c" for c
    using that D(4) [of c] k by (cases "c = ch") auto
qed

lemma flight_more_slots:
  assumes "flight cs chs H"
  shows "flight (cs @ replicate n None) chs H"
proof (rule flightI)
  note D = flightD [OF assms]
  show "count (image_mset snd H) ch \<le> 1" for ch by (rule D(1))
  show "k < length (cs @ replicate n None) \<and> (cs @ replicate n None) ! k = Some ch \<and> ch < length chs \<and> \<not> chs ! ch"
    if "(k, ch) \<in># H" for k ch using D(2) [OF that] by (simp add: nth_append)
  show "(k, ch) \<in># H" if "k < length (cs @ replicate n None)" "(cs @ replicate n None) ! k = Some ch" for k ch
    using that D(3) [of k ch] by (cases "k < length cs") (auto simp: nth_append)
  show "ch \<in># image_mset snd H" if "ch < length chs" "\<not> chs ! ch" for ch by (rule D(4) [OF that])
qed

lemma flight_single: "flight cs chs H \<Longrightarrow> (k, ch) \<in># H \<Longrightarrow> (k, ch') \<in># H \<Longrightarrow> ch = ch'"
  by (metis flightD(2) option.inject)

text \<open>Who holds a channel, in a state.\<close>

definition caller_holds :: "caller \<Rightarrow> (nat \<times> nat) list" where
  "caller_holds c = (case ca_pc c of Chosen ch \<Rightarrow> [(ca_slot c, ch)] | _ \<Rightarrow> [])"

definition connector_holds :: "connector \<Rightarrow> (nat \<times> nat) list" where
  "connector_holds c = (case co_pc c of ConnectorGone \<Rightarrow> [] | _ \<Rightarrow> [(co_slot c, co_done c)])"

definition held :: "lanes \<Rightarrow> (nat \<times> nat) multiset" where
  "held w = mset (concat (map caller_holds (callers w))) + mset (concat (map connector_holds (connectors w)))"

definition flight_ok :: "lanes \<Rightarrow> bool" where
  "flight_ok w \<longleftrightarrow> flight (map connecting (slot_heap w)) (chans w) (held w)"

lemma mset_concat_map_update:
  "i < length xs \<Longrightarrow> mset (concat (map f (xs[i := x]))) + mset (f (xs ! i)) = mset (concat (map f xs)) + mset (f x)"
proof -
  assume i: "i < length xs"
  have "mset (concat (map f xs)) = mset (concat (map f (take i xs))) + mset (f (xs ! i)) + mset (concat (map f (drop (Suc i) xs)))"
    by (subst id_take_nth_drop [OF i]) simp
  then show ?thesis using i by (simp add: upd_conv_take_nth_drop)
qed

lemma held_caller:
  assumes "i < length (callers w)"
  shows "held (caller_to i pc w) + mset (caller_holds (callers w ! i)) =
     held w + mset (caller_holds ((callers w ! i)\<lparr>ca_pc := pc\<rparr>))"
  using mset_concat_map_update [OF assms, of caller_holds "(callers w ! i)\<lparr>ca_pc := pc\<rparr>"]
  by (simp add: held_def caller_to_def)

lemma held_connector:
  assumes "j < length (connectors w)"
  shows "held (connector_to j pc w) + mset (connector_holds (connectors w ! j)) =
     held w + mset (connector_holds ((connectors w ! j)\<lparr>co_pc := pc\<rparr>))"
  using mset_concat_map_update [OF assms, of connector_holds "(connectors w ! j)\<lparr>co_pc := pc\<rparr>"]
  by (simp add: held_def connector_to_def)

lemma held_caller_same:
  assumes "i < length (callers w)" and "caller_holds (callers w ! i) = []" and "\<And>ch. pc \<noteq> Chosen ch"
  shows "held (caller_to i pc w) = held w"
  using held_caller [OF assms(1), of pc] assms(2,3) by (simp add: caller_holds_def split: caller_pc.splits)

lemma held_views [simp]:
  "held (upd_slot k f w) = held w" "held (close_peer q w) = held w" "held (close_chan ch w) = held w"
  "held (w\<lparr>chans := cs\<rparr>) = held w" "held (w\<lparr>peers := ps\<rparr>) = held w" "held (w\<lparr>nodeReconnects := n\<rparr>) = held w"
  "held (w\<lparr>slot_table := t\<rparr>) = held w" "held (w\<lparr>slot_heap := h\<rparr>) = held w" "held (w\<lparr>stopping := b\<rparr>) = held w"
  "held (w\<lparr>ln_registry := r\<rparr>) = held w"
  by (simp_all add: held_def upd_slot_def close_peer_def close_chan_def)

lemma flight_ok_views [simp]:
  "flight_ok (close_peer q w) = flight_ok w" "flight_ok (w\<lparr>peers := ps\<rparr>) = flight_ok w"
  "flight_ok (w\<lparr>nodeReconnects := n\<rparr>) = flight_ok w" "flight_ok (w\<lparr>slot_table := t\<rparr>) = flight_ok w"
  "flight_ok (w\<lparr>stopping := b\<rparr>) = flight_ok w" "flight_ok (w\<lparr>ln_registry := r\<rparr>) = flight_ok w"
  by (simp_all add: flight_ok_def close_peer_def held_def)

lemma connecting_upd:
  "map connecting (slot_heap (upd_slot k f w)) = (map connecting (slot_heap w))[k := connecting (f (slot_heap w ! k))]"
  by (simp add: upd_slot_def map_update)

lemma upd_slot_flight: "connecting (f (slot_heap w ! k)) = connecting (slot_heap w ! k) \<Longrightarrow> flight_ok (upd_slot k f w) = flight_ok w"
proof (cases "k < length (slot_heap w)")
  case True
  assume "connecting (f (slot_heap w ! k)) = connecting (slot_heap w ! k)"
  then have "map connecting (slot_heap (upd_slot k f w)) = map connecting (slot_heap w)"
    using True by (simp add: connecting_upd list_update_same_conv)
  then show ?thesis by (simp add: flight_ok_def) (simp add: upd_slot_def)
qed (simp add: upd_slot_def list_update_beyond)

lemma connecting_kept [simp]:
  "connecting (into_backoff w now random s) = connecting s"
  by (simp add: into_backoff_def)

lemma flight_peerClosed: "flight_ok w \<Longrightarrow> flight_ok (peerClosed now random q w)"
  by (auto simp: peerClosed_def Let_def upd_slot_flight)

lemma flight_drop_closed: "flight_ok (drop_closed now random k w) = flight_ok w"
  by (auto simp: drop_closed_def upd_slot_flight Let_def split: option.split)

lemma flight_detach: "flight_ok (snd (detachSlot k w)) = flight_ok w"
  by (simp add: detachSlot_def upd_slot_flight)

lemma flight_detach_all: "flight_ok (snd (detach_all ks w)) = flight_ok w"
  by (induction ks arbitrary: w) (simp_all add: Let_def case_prod_beta flight_detach)

lemma flight_close_peers: "flight_ok (fold close_peer qs w) = flight_ok w"
  by (induction qs arbitrary: w) simp_all

lemma flight_closeChanged: "flight_ok (closeChanged changed w) = flight_ok w"
  using flight_detach_all [of "concat (map (slots_of w) (sorted_list_of_fset changed))" w]
  by (simp add: closeChanged_def flight_close_peers Let_def case_prod_beta)

lemma flight_node:
  "flight_ok w \<Longrightarrow> flight_ok (snd (Reload loaded w))" "flight_ok w \<Longrightarrow> flight_ok (Stop_flag w)" "flight_ok w \<Longrightarrow> flight_ok (Stop_lanes w)"
  by (auto simp: Reload_def Stop_flag_def Stop_lanes_def closeAll_def flight_closeChanged split: sum.split prod.split)

lemma flight_caller:
  assumes "flight_ok w" and "i < length (callers w)" and "caller_holds (callers w ! i) = []" and "\<And>ch. pc \<noteq> Chosen ch"
  shows "flight_ok (caller_to i pc w)"
  using assms(1) held_caller_same [OF assms(2-4)] by (simp add: flight_ok_def) (simp add: caller_to_def)

lemma flight_begin:
  assumes "flight_ok w"
  shows "flight_ok (peerFor_begin node shard w)"
proof -
  have s: "flight_ok (snd (slot node index n w))" for index n
    using assms flight_more_slots [of "map connecting (slot_heap w)" "chans w" "held w" n]
    by (auto simp: slot_def Let_def flight_ok_def newSlot_def split: option.split list.split)
  have "flight_ok (v\<lparr>callers := callers v @ [\<lparr>ca_node = node, ca_endpoint = ep, ca_slot = k, ca_pc = pc\<rparr>]\<rparr>)"
    if "flight_ok v" "\<And>ch. pc \<noteq> Chosen ch" for v ep k pc
    using that by (simp add: flight_ok_def held_def caller_holds_def split: caller_pc.split)
  then show ?thesis using assms s by (auto simp: peerFor_begin_def Let_def case_prod_beta split: sum.split)
qed

lemma drop_closed_views [simp]:
  "callers (drop_closed now random k w) = callers w" "chans (drop_closed now random k w) = chans w"
  "length (slot_heap (drop_closed now random k w)) = length (slot_heap w)"
  by (simp_all add: drop_closed_def upd_slot_def split: option.split)

lemma flight_choose:
  assumes "flight_ok w" and "i < length (callers w)" and "caller_holds (callers w ! i) = []" and "k = ca_slot (callers w ! i)"
    and "k < length (slot_heap w)" and "connecting (slot_heap w ! k) = None" and "connecting (f (slot_heap w ! k)) = Some (length (chans w))"
  shows "flight_ok (caller_to i (Chosen (length (chans w))) (upd_slot k f (w\<lparr>chans := chans w @ [False]\<rparr>)))"
proof -
  let ?v = "upd_slot k f (w\<lparr>chans := chans w @ [False]\<rparr>)"
  have v: "map connecting (slot_heap ?v) = (map connecting (slot_heap w))[k := Some (length (chans w))]"
    using assms(7) by (simp add: upd_slot_def map_update)
  have "callers ?v = callers w" "chans ?v = chans w @ [False]" by (simp_all add: upd_slot_def)
  then have "held (caller_to i (Chosen (length (chans w))) ?v) = add_mset (k, length (chans w)) (held w)"
    using held_caller [of i ?v "Chosen (length (chans w))"] assms(2-4) by (simp add: caller_holds_def)
  moreover have "flight (map connecting (slot_heap ?v)) (chans w @ [False]) (add_mset (k, length (chans w)) (held w))"
    using flight_start [of "map connecting (slot_heap w)" "chans w" "held w" k] assms(1,5,6) v by (simp add: flight_ok_def)
  ultimately show ?thesis by (simp add: flight_ok_def) (simp add: caller_to_def upd_slot_def)
qed

definition callers_ok :: "lanes \<Rightarrow> bool" where
  "callers_ok w \<longleftrightarrow> (\<forall>c \<in> set (callers w). (\<forall>err. ca_pc c \<noteq> Refused err) \<longrightarrow> ca_slot c < length (slot_heap w))"

lemma flight_lock:
  assumes w: "flight_ok w" and c: "callers_ok w"
  shows "flight_ok (peerFor_lock now random i w)"
proof (cases "i < length (callers w) \<and> ca_pc (callers w ! i) = AtSlot")
  case True
  let ?c = "callers w ! i"
  let ?k = "ca_slot ?c"
  let ?d = "drop_closed now random ?k w"
  have i: "i < length (callers w)" and no: "caller_holds ?c = []" using True by (auto simp: caller_holds_def)
  have k: "?k < length (slot_heap ?d)" using True c by (fastforce simp: callers_ok_def dest: nth_mem)
  have d: "flight_ok ?d" using w flight_drop_closed by simp
  have keep: "flight_ok (caller_to i pc v)" if "flight_ok v" "callers v = callers w" "\<And>ch. pc \<noteq> Chosen ch" for pc v
    using flight_caller [OF that(1), of i pc] i no that by simp
  have choose: "flight_ok (caller_to i (Chosen (length (chans w))) (upd_slot ?k f (?d\<lparr>chans := chans w @ [False]\<rparr>)))"
    if "connecting (slot_heap ?d ! ?k) = None" "connecting (f (slot_heap ?d ! ?k)) = Some (length (chans w))" for f
    using flight_choose [OF d, of i ?k f] i no k that by simp
  show ?thesis using True w d by (auto simp: peerFor_lock_def Let_def intro!: keep choose split: option.split)
qed (use w in \<open>auto simp: peerFor_lock_def\<close>)

text \<open>Giving a channel back: the slot is cleared and the channel closed.\<close>

lemma flight_release:
  assumes "flight (map connecting (slot_heap w)) (chans w) (add_mset (k, ch) H)" and "connecting (f (slot_heap w ! k)) = None"
  shows "flight (map connecting (slot_heap (upd_slot k f w))) ((chans w)[ch := True]) H" and "connecting (slot_heap w ! k) = Some ch"
proof -
  have k: "k < length (slot_heap w)" "map connecting (slot_heap w) ! k = Some ch" using flightD(2) [OF assms(1), of k ch] by simp_all
  then show "connecting (slot_heap w ! k) = Some ch" by simp
  show "flight (map connecting (slot_heap (upd_slot k f w))) ((chans w)[ch := True]) H"
    using flight_end [OF assms(1)] assms(2) by (simp add: connecting_upd)
qed

lemma flight_check:
  assumes w: "flight_ok w"
  shows "flight_ok (peerFor_check i w)"
proof (cases "i < length (callers w)")
  case i: True
  show ?thesis
  proof (cases "ca_pc (callers w ! i)")
    case (Chosen ch)
    let ?c = "callers w ! i"
    let ?k = "ca_slot ?c"
    have out: "held (caller_to i pc w) + {#(?k, ch)#} = held w" if "\<And>ch. pc \<noteq> Chosen ch" for pc
      using held_caller [OF i, of pc] Chosen that by (simp add: caller_holds_def split: caller_pc.splits)
    show ?thesis
    proof (cases "stopping w")
      case True
      let ?f = "\<lambda>s. s\<lparr>connecting := None, slot_state := PeerClosing\<rparr>"
      let ?v = "caller_to i (Refused ErrRemoteUnavailable) w"
      have "flight (map connecting (slot_heap w)) (chans w) (add_mset (?k, ch) (held ?v))"
        using w out [of "Refused ErrRemoteUnavailable"] by (simp add: flight_ok_def)
      note r = flight_release [OF this, of ?f, simplified]
      have "peerFor_check i w = close_chan ch (upd_slot ?k ?f ?v)"
        using i Chosen True r(2) by (simp add: peerFor_check_def Let_def caller_to_def close_chan_def upd_slot_def)
      then show ?thesis using r(1) by (simp add: flight_ok_def) (simp add: close_chan_def caller_to_def upd_slot_def)
    next
      case False
      let ?v = "caller_to i (Awaiting ch) (w\<lparr>connectors := connectors w @
         [\<lparr>co_slot = ?k, co_node = ca_node ?c, co_endpoint = ca_endpoint ?c, co_done = ch, co_pc = Dialing\<rparr>]\<rparr>)"
      have "held ?v = held w"
        using out [of "Awaiting ch"] by (simp add: held_def caller_to_def connector_holds_def flip: add.assoc)
      then have "flight_ok ?v" using w by (simp add: flight_ok_def) (simp add: caller_to_def)
      then show ?thesis using i Chosen False by (simp add: peerFor_check_def)
    qed
  qed (use i w in \<open>simp_all add: peerFor_check_def\<close>)
qed (use w in \<open>simp add: peerFor_check_def\<close>)

lemma flight_wake: "flight_ok w \<Longrightarrow> flight_ok (peerFor_wake i w)" "flight_ok w \<Longrightarrow> flight_ok (peerFor_ctx err i w)"
  by (auto simp: peerFor_wake_def peerFor_ctx_def caller_holds_def intro!: flight_caller split: caller_pc.split)

lemma flight_dial:
  assumes "flight_ok w"
  shows "flight_ok (connect_dial failed j w)"
proof (cases "j < length (connectors w) \<and> co_pc (connectors w ! j) = Dialing")
  case True
  have "flight_ok (connector_to j pc v)" if "pc \<noteq> ConnectorGone" "flight_ok v" "connectors v = connectors w" for pc v
  proof -
    have "held (connector_to j pc v) = held v"
      using held_connector [of j v pc] True that by (simp add: connector_holds_def split: connector_pc.splits)
    then show ?thesis using that(2) by (simp add: flight_ok_def) (simp add: connector_to_def)
  qed
  then show ?thesis using True assms by (auto simp: connect_dial_def split: option.split)
qed (use assms in \<open>auto simp: connect_dial_def\<close>)

lemma connecting_ready [simp]: "connecting (connect_ready q s) = None" "connecting (connect_failed w now random h s) = None"
  by (simp_all add: connect_ready_def connect_failed_def)

lemma flight_install:
  assumes w: "flight_ok w"
  shows "flight_ok (connect_install now random j w)"
proof (cases "j < length (connectors w) \<and> co_pc (connectors w ! j) \<noteq> Dialing \<and> co_pc (connectors w ! j) \<noteq> ConnectorGone")
  case True
  let ?c = "connectors w ! j"
  let ?k = "co_slot ?c"
  let ?H = "held (connector_to j ConnectorGone w)"
  have "?H + {#(?k, co_done ?c)#} = held w"
    using held_connector [of j w ConnectorGone] True by (simp add: connector_holds_def split: connector_pc.splits)
  then have fl: "flight (map connecting (slot_heap w)) (chans w) (add_mset (?k, co_done ?c) ?H)" using w by (simp add: flight_ok_def)
  have s: "connecting (slot_heap w ! ?k) = Some (co_done ?c)" using flight_release(2) [OF fl, of "connect_ready 0"] by simp
  have r: "flight_ok (close_chan (co_done ?c) (connector_to j ConnectorGone v))"
    if "slot_heap v = slot_heap (upd_slot ?k f w)" "chans v = chans w" "connectors v = connectors w" "callers v = callers w"
      "connecting (f (slot_heap w ! ?k)) = None" for f v
  proof -
    have "held (connector_to j ConnectorGone v) = ?H" using that by (simp add: held_def connector_to_def)
    then show ?thesis using flight_release(1) [OF fl, of f] that(1,2,5)
      by (simp add: flight_ok_def) (simp add: close_chan_def connector_to_def)
  qed
  note views = upd_slot_def close_peer_def
  show ?thesis
  proof (cases "slot_endpoint (slot_heap w ! ?k) \<noteq> co_endpoint ?c \<or> slot_state (slot_heap w ! ?k) = PeerClosing")
    case a: True
    have "flight_ok (close_chan (co_done ?c) (connector_to j ConnectorGone
       (case co_pc ?c of Dialed q \<Rightarrow> close_peer q (upd_slot ?k (\<lambda>s. s\<lparr>connecting := None\<rparr>) w) | _ \<Rightarrow> upd_slot ?k (\<lambda>s. s\<lparr>connecting := None\<rparr>) w)))"
      by (rule r [where f = "\<lambda>s. s\<lparr>connecting := None\<rparr>"]) (simp_all add: views split: connector_pc.split)
    then show ?thesis using True a s by (simp add: connect_install_def Let_def)
  next
    case a: False
    show ?thesis
    proof (cases "co_pc ?c")
      case (Dialed q)
      show ?thesis using True a s Dialed
        by (simp add: connect_install_def Let_def) (intro conjI impI; rule r [where f = "connect_ready q"]; simp add: views)
    next
      case (DialFailed h)
      show ?thesis using True a s DialFailed
        by (simp add: connect_install_def Let_def) (rule r [where f = "connect_failed w now random h"]; simp add: views)
    qed (use True in simp_all)
  qed
qed (use w in \<open>auto simp: connect_install_def\<close>)

section \<open>Who is connected to whom\<close>

definition who :: "lane_peer \<Rightarrow> string \<times> string \<times> nat" where
  "who p = (lp_node p, lp_endpoint p, lp_slot p)"

definition caller_fits :: "string list \<Rightarrow> (string \<times> string \<times> nat) list \<Rightarrow> nat \<Rightarrow> caller \<Rightarrow> bool" where
  "caller_fits ow P n c \<longleftrightarrow> (\<exists>err. ca_pc c = Refused err) \<or>
     ca_slot c < length ow \<and> ow ! ca_slot c = ca_node c \<and>
     (\<forall>q. ca_pc c = Got q \<longrightarrow> q < length P \<and> fst (P ! q) = ca_node c \<and> fst (snd (P ! q)) = ca_endpoint c) \<and>
     (\<forall>ch. ca_pc c = Awaiting ch \<or> ca_pc c = Chosen ch \<longrightarrow> ch < n)"

definition connector_fits :: "string list \<Rightarrow> (string \<times> string \<times> nat) list \<Rightarrow> connector \<Rightarrow> bool" where
  "connector_fits ow P c \<longleftrightarrow> co_slot c < length ow \<and> ow ! co_slot c = co_node c \<and>
     (\<forall>q. co_pc c = Dialed q \<longrightarrow> q < length P \<and> P ! q = (co_node c, co_endpoint c, co_slot c))"

definition peer_fits :: "string list \<Rightarrow> string \<times> string \<times> nat \<Rightarrow> bool" where
  "peer_fits ow p \<longleftrightarrow> snd (snd p) < length ow \<and> ow ! snd (snd p) = fst p"

definition slots_fit :: "nat option list \<Rightarrow> (string \<times> string \<times> nat) list \<Rightarrow> bool" where
  "slots_fit S P \<longleftrightarrow> (\<forall>k q. k < length S \<longrightarrow> S ! k = Some q \<longrightarrow> q < length P \<and> snd (snd (P ! q)) = k)"

definition table_fits :: "string list \<Rightarrow> nat \<Rightarrow> (string, nat list) fmap \<Rightarrow> bool" where
  "table_fits ow m T \<longleftrightarrow> (\<forall>node ks. fmlookup T node = Some ks \<longrightarrow> length ks = m \<and> (\<forall>k \<in> set ks. k < length ow \<and> ow ! k = node))"

abbreviation owners :: "lanes \<Rightarrow> string list" where "owners w \<equiv> map slot_owner (slot_heap w)"
abbreviation names :: "lanes \<Rightarrow> (string \<times> string \<times> nat) list" where "names w \<equiv> map who (peers w)"

definition own_ok :: "lanes \<Rightarrow> bool" where
  "own_ok w \<longleftrightarrow> 0 < perPeer w \<and> (\<forall>c \<in> set (callers w). caller_fits (owners w) (names w) (length (chans w)) c) \<and>
     (\<forall>c \<in> set (connectors w). connector_fits (owners w) (names w) c) \<and> (\<forall>p \<in> set (names w). peer_fits (owners w) p) \<and>
     slots_fit (map slot_peer (slot_heap w)) (names w) \<and> table_fits (owners w) (perPeer w) (slot_table w)"

lemma fits_mono:
  "caller_fits ow P n c \<Longrightarrow> n \<le> n' \<Longrightarrow> caller_fits (ow @ xs) (P @ ys) n' c"
  "connector_fits ow P d \<Longrightarrow> connector_fits (ow @ xs) (P @ ys) d"
  "peer_fits ow p \<Longrightarrow> peer_fits (ow @ xs) p" "table_fits ow m T \<Longrightarrow> table_fits (ow @ xs) m T"
  by (fastforce simp: caller_fits_def connector_fits_def peer_fits_def table_fits_def nth_append)+

lemma table_fits_drop: "table_fits ow m T \<Longrightarrow> table_fits ow m (fmdrop_fset A T)"
  by (auto simp: table_fits_def split: if_splits)

lemma slots_fit_more: "slots_fit S P \<Longrightarrow> slots_fit (S @ replicate n None) (P @ ys)"
  by (auto simp: slots_fit_def nth_append split: if_splits)

lemma slots_fit_set:
  assumes "slots_fit S P" and "\<And>q. v = Some q \<Longrightarrow> q < length P \<and> snd (snd (P ! q)) = k"
  shows "slots_fit (S[k := v]) P"
  unfolding slots_fit_def
proof (intro allI impI)
  fix j q assume "j < length (S[k := v])" "S[k := v] ! j = Some q"
  then show "q < length P \<and> snd (snd (P ! q)) = j"
    using assms by (cases "j = k") (auto simp: slots_fit_def)
qed

lemma names_close [simp]: "map who ((peers w)[q := (peers w ! q)\<lparr>lp_closed := b\<rparr>]) = names w"
  "map who ((peers w)[q := (peers w ! q)\<lparr>lp_told := b\<rparr>]) = names w"
proof -
  have "map who (ps[q := x]) = map who ps" if "who x = who (ps ! q)" for ps :: "lane_peer list" and x
    using that by (cases "q < length ps") (simp_all add: map_update list_update_same_conv list_update_beyond)
  then show "map who ((peers w)[q := (peers w ! q)\<lparr>lp_closed := b\<rparr>]) = names w"
    "map who ((peers w)[q := (peers w ! q)\<lparr>lp_told := b\<rparr>]) = names w" by (simp_all add: who_def)
qed

lemma own_views [simp]:
  "own_ok (close_peer q w) = own_ok w" "own_ok (w\<lparr>peers := (peers w)[q := (peers w ! q)\<lparr>lp_told := b\<rparr>]\<rparr>) = own_ok w"
  "own_ok (w\<lparr>nodeReconnects := k\<rparr>) = own_ok w" "own_ok (w\<lparr>stopping := b\<rparr>) = own_ok w" "own_ok (w\<lparr>ln_registry := r\<rparr>) = own_ok w"
  "own_ok (close_chan ch w) = own_ok w"
  by (simp_all add: own_ok_def close_peer_def close_chan_def)

lemma owners_upd:
  assumes "\<And>s. slot_owner (f s) = slot_owner s"
  shows "owners (upd_slot k f w) = owners w"
  using assms by (cases "k < length (slot_heap w)") (simp_all add: upd_slot_def map_update list_update_same_conv list_update_beyond)

lemma own_upd_slot:
  assumes "own_ok w" and "\<And>s. slot_owner (f s) = slot_owner s"
    and "slot_peer (f (slot_heap w ! k)) = slot_peer (slot_heap w ! k) \<or> slot_peer (f (slot_heap w ! k)) = None \<or>
      (\<exists>q < length (peers w). slot_peer (f (slot_heap w ! k)) = Some q \<and> lp_slot (peers w ! q) = k)"
  shows "own_ok (upd_slot k f w)"
proof -
  have sp: "map slot_peer (slot_heap (upd_slot k f w)) = (map slot_peer (slot_heap w))[k := slot_peer (f (slot_heap w ! k))]"
    by (simp add: upd_slot_def map_update)
  have fit: "slots_fit (map slot_peer (slot_heap w)) (names w)" using assms(1) by (simp add: own_ok_def)
  have "slots_fit (map slot_peer (slot_heap (upd_slot k f w))) (names w)"
  proof (cases "k < length (slot_heap w)")
    case True
    then have "q < length (names w) \<and> snd (snd (names w ! q)) = k" if "slot_peer (f (slot_heap w ! k)) = Some q" for q
      using assms(3) fit [unfolded slots_fit_def, rule_format, of k q] that by (auto simp: who_def)
    then show ?thesis unfolding sp by (rule slots_fit_set [OF fit])
  qed (use fit sp in \<open>simp add: list_update_beyond\<close>)
  moreover have "owners (upd_slot k f w) = owners w" by (rule owners_upd [OF assms(2)])
  ultimately show ?thesis using assms(1) by (simp add: own_ok_def) (simp add: upd_slot_def)
qed

lemma own_caller:
  assumes "own_ok w" and "i < length (callers w)" and "caller_fits (owners w) (names w) (length (chans w)) ((callers w ! i)\<lparr>ca_pc := pc\<rparr>)"
  shows "own_ok (caller_to i pc w)"
proof -
  have "set (callers (caller_to i pc w)) \<subseteq> insert ((callers w ! i)\<lparr>ca_pc := pc\<rparr>) (set (callers w))"
    by (simp add: caller_to_def set_update_subset_insert)
  then have "\<forall>c \<in> set (callers (caller_to i pc w)). caller_fits (owners w) (names w) (length (chans w)) c"
    using assms(1,3) by (auto simp: own_ok_def)
  then show ?thesis using assms(1) by (simp add: own_ok_def) (simp add: caller_to_def)
qed

lemma own_connector:
  assumes "own_ok w" and "connector_fits (owners w) (names w) ((connectors w ! j)\<lparr>co_pc := pc\<rparr>)"
  shows "own_ok (connector_to j pc w)"
proof -
  have "set (connectors (connector_to j pc w)) \<subseteq> insert ((connectors w ! j)\<lparr>co_pc := pc\<rparr>) (set (connectors w))"
    by (simp add: connector_to_def set_update_subset_insert)
  then have "\<forall>c \<in> set (connectors (connector_to j pc w)). connector_fits (owners w) (names w) c"
    using assms by (auto simp: own_ok_def)
  then show ?thesis using assms(1) by (simp add: own_ok_def) (simp add: connector_to_def)
qed

lemma own_callerD: "own_ok w \<Longrightarrow> i < length (callers w) \<Longrightarrow> caller_fits (owners w) (names w) (length (chans w)) (callers w ! i)"
  by (simp add: own_ok_def)

lemma own_connectorD: "own_ok w \<Longrightarrow> j < length (connectors w) \<Longrightarrow> connector_fits (owners w) (names w) (connectors w ! j)"
  by (simp add: own_ok_def)

lemma own_callers_ok: "own_ok w \<Longrightarrow> callers_ok w"
  by (auto simp: own_ok_def callers_ok_def caller_fits_def)

lemma owner_kept [simp]:
  "slot_owner (into_backoff w now random s) = slot_owner s" "slot_owner (connect_ready q s) = slot_owner s"
  "slot_owner (connect_failed w now random h s) = slot_owner s"
  "slot_peer (into_backoff w now random s) = slot_peer s" "slot_peer (connect_ready q s) = Some q"
  "slot_peer (connect_failed w now random h s) = None"
  by (simp_all add: into_backoff_def connect_ready_def connect_failed_def)

lemma own_peerClosed: "own_ok w \<Longrightarrow> own_ok (peerClosed now random q w)"
  by (auto simp: peerClosed_def Let_def intro!: own_upd_slot)

lemma own_drop_closed: "own_ok w \<Longrightarrow> own_ok (drop_closed now random k w)"
  by (auto simp: drop_closed_def Let_def intro!: own_upd_slot split: option.split)

lemma own_detach_all: "own_ok w \<Longrightarrow> own_ok (snd (detach_all ks w))"
proof (induction ks arbitrary: w)
  case (Cons k ks)
  have "own_ok (snd (detachSlot k w))" using Cons.prems by (auto simp: detachSlot_def intro!: own_upd_slot)
  then show ?case using Cons.IH by (simp add: Let_def case_prod_beta)
qed simp

lemma own_closeChanged:
  assumes "own_ok w"
  shows "own_ok (closeChanged changed w)"
proof -
  have "own_ok (v\<lparr>slot_table := fmdrop_fset changed (slot_table v)\<rparr>)" if "own_ok v" for v
    using that table_fits_drop by (auto simp: own_ok_def)
  moreover have "own_ok (fold close_peer qs v) = own_ok v" for qs v by (induction qs arbitrary: v) simp_all
  ultimately show ?thesis using own_detach_all [OF assms] by (simp add: closeChanged_def Let_def case_prod_beta)
qed

lemma own_node:
  "own_ok w \<Longrightarrow> own_ok (snd (Reload loaded w))" "own_ok w \<Longrightarrow> own_ok (Stop_flag w)" "own_ok w \<Longrightarrow> own_ok (Stop_lanes w)"
  by (auto simp: Reload_def Stop_flag_def Stop_lanes_def closeAll_def own_closeChanged split: sum.split prod.split)

lemma own_slot:
  assumes "own_ok w"
  shows "own_ok (snd (slot node (shard mod perPeer w) (perPeer w) w))"
    and "fst (slot node (shard mod perPeer w) (perPeer w) w) < length (owners (snd (slot node (shard mod perPeer w) (perPeer w) w))) \<and>
      owners (snd (slot node (shard mod perPeer w) (perPeer w) w)) ! fst (slot node (shard mod perPeer w) (perPeer w) w) = node"
proof -
  let ?n = "perPeer w" let ?i = "shard mod perPeer w" let ?l = "length (slot_heap w)"
  have i: "?i < ?n" and T: "table_fits (owners w) ?n (slot_table w)" using assms by (simp_all add: own_ok_def)
  let ?new = "w\<lparr>slot_heap := slot_heap w @ replicate ?n (newSlot node), slot_table := fmupd node [?l..<?l + ?n] (slot_table w)\<rparr>"
  have ow: "owners ?new = owners w @ replicate ?n node" by (simp add: newSlot_def)
  have "table_fits (owners ?new) ?n (slot_table ?new)"
    using fits_mono(4) [OF T, of "replicate ?n node"] unfolding ow by (auto simp: table_fits_def nth_append)
  moreover have "slots_fit (map slot_peer (slot_heap ?new)) (names w)"
    using assms slots_fit_more [of "map slot_peer (slot_heap w)" "names w" ?n "[]"] by (simp add: own_ok_def newSlot_def)
  ultimately have new: "own_ok ?new" using assms ow
      fits_mono(1) [of "owners w" "names w" "length (chans w)" _ "length (chans w)" "replicate ?n node" "[]"]
      fits_mono(2) [of "owners w" "names w" _ "replicate ?n node" "[]"] fits_mono(3) [of "owners w" _ "replicate ?n node"]
    unfolding own_ok_def by simp
  have fresh: "(?l + ?i < length (owners ?new)) \<and> owners ?new ! (?l + ?i) = node" using i unfolding ow by (simp add: nth_append)
  have found: "k < length (owners w) \<and> owners w ! k = node" if "fmlookup (slot_table w) node = Some ks" "k = ks ! ?i" for ks k
    using T that i unfolding table_fits_def by (metis nth_mem)
  have "slot node ?i ?n w = (?l + ?i, ?new) \<or> (\<exists>ks. fmlookup (slot_table w) node = Some ks \<and> slot node ?i ?n w = (ks ! ?i, w))"
    using i by (simp add: slot_def Let_def split: option.split list.split)
  then consider "slot node ?i ?n w = (?l + ?i, ?new)" | ks where "fmlookup (slot_table w) node = Some ks" "slot node ?i ?n w = (ks ! ?i, w)"
    by blast
  then have "own_ok (snd (slot node ?i ?n w)) \<and>
    fst (slot node ?i ?n w) < length (owners (snd (slot node ?i ?n w))) \<and> owners (snd (slot node ?i ?n w)) ! fst (slot node ?i ?n w) = node"
  proof cases
    case 1
    show ?thesis unfolding 1 fst_conv snd_conv using new fresh by blast
  next
    case 2
    show ?thesis unfolding 2(2) fst_conv snd_conv using assms found [OF 2(1) refl] by blast
  qed
  then show "own_ok (snd (slot node ?i ?n w))" and
    "fst (slot node ?i ?n w) < length (owners (snd (slot node ?i ?n w))) \<and> owners (snd (slot node ?i ?n w)) ! fst (slot node ?i ?n w) = node"
    by blast+
qed

lemma own_begin:
  assumes "own_ok w"
  shows "own_ok (peerFor_begin node shard w)"
proof -
  have add: "own_ok (v\<lparr>callers := callers v @ [c]\<rparr>)" if "own_ok v" "caller_fits (owners v) (names v) (length (chans v)) c" for v c
    using that by (auto simp: own_ok_def)
  show ?thesis
  proof (cases "node_endpoint w node")
    case (Inl err)
    then show ?thesis using add [OF assms] by (simp add: peerFor_begin_def caller_fits_def)
  next
    case (Inr ep)
    let ?s = "slot node (shard mod perPeer w) (perPeer w) w"
    have "own_ok (snd ?s\<lparr>callers := callers (snd ?s) @ [\<lparr>ca_node = node, ca_endpoint = ep, ca_slot = fst ?s, ca_pc = AtSlot\<rparr>]\<rparr>)"
      using own_slot(2) [OF assms, of node shard] by (intro add [OF own_slot(1) [OF assms]]) (simp add: caller_fits_def)
    then show ?thesis using Inr by (simp add: peerFor_begin_def Let_def case_prod_beta)
  qed
qed

lemma owners_drop_closed: "owners (drop_closed now random k w) = owners w" "peers (drop_closed now random k w) = peers w"
proof -
  show "owners (drop_closed now random k w) = owners w"
    by (auto simp: drop_closed_def Let_def intro!: owners_upd split: option.split)
  show "peers (drop_closed now random k w) = peers w" by (simp add: drop_closed_def upd_slot_def split: option.split)
qed

lemma own_chans: "own_ok w \<Longrightarrow> own_ok (w\<lparr>chans := chans w @ [b]\<rparr>)"
  using fits_mono(1) [of "owners w" "names w" "length (chans w)" _ "Suc (length (chans w))" "[]" "[]"] by (simp add: own_ok_def)

lemma own_lock:
  assumes w: "own_ok w" and f: "flight_ok w"
  shows "own_ok (peerFor_lock now random i w)"
proof (cases "i < length (callers w) \<and> ca_pc (callers w ! i) = AtSlot")
  case True
  let ?c = "callers w ! i"
  let ?k = "ca_slot ?c"
  let ?d = "drop_closed now random ?k w"
  have fit: "?k < length (owners w) \<and> owners w ! ?k = ca_node ?c" using own_callerD [OF w, of i] True by (auto simp: caller_fits_def)
  have d: "own_ok ?d" by (rule own_drop_closed [OF w])
  have wait: "ch < length (chans w)" if "connecting (slot_heap ?d ! ?k) = Some ch" for ch
  proof -
    have "flight (map connecting (slot_heap ?d)) (chans ?d) (held ?d)" using f flight_drop_closed by (simp add: flight_ok_def)
    from flightD(2) [OF this flightD(3) [OF this, of ?k ch]] show ?thesis using that fit by simp
  qed
  have move: "own_ok (caller_to i pc v)"
    if "own_ok v" "callers v = callers w" "owners v = owners w" "peers v = peers w" "\<And>q. pc \<noteq> Got q"
      "\<And>ch. pc = Awaiting ch \<or> pc = Chosen ch \<Longrightarrow> ch < length (chans v)" for pc v
    using that True fit by (intro own_caller) (auto simp: caller_fits_def)
  have got: "own_ok (caller_to i (Got q) w)" if "slot_peer (slot_heap w ! ?k) = Some q" "lp_endpoint (peers w ! q) = ca_endpoint ?c" for q
  proof -
    have sf: "slots_fit (map slot_peer (slot_heap w)) (names w)" using w by (simp add: own_ok_def)
    have "?k < length (map slot_peer (slot_heap w))" "map slot_peer (slot_heap w) ! ?k = Some q" using that(1) fit by simp_all
    from sf [unfolded slots_fit_def, rule_format, OF this] have q: "q < length (names w)" "snd (snd (names w ! q)) = ?k" by blast+
    have "names w ! q \<in> set (names w)" using q(1) by (rule nth_mem)
    then have "peer_fits (owners w) (names w ! q)" using w unfolding own_ok_def by blast
    then have "fst (names w ! q) = ca_node ?c" using fit q(2) by (simp add: peer_fits_def)
    then have "caller_fits (owners w) (names w) (length (chans w)) (?c\<lparr>ca_pc := Got q\<rparr>)"
      using fit q(1) that(2) by (simp add: caller_fits_def who_def)
    then show ?thesis using own_caller [OF w] True by simp
  qed
  let ?f = "\<lambda>s. s\<lparr>connecting := Some (length (chans w)), slot_state := PeerConnecting, slot_endpoint := ca_endpoint ?c\<rparr>"
  have new: "own_ok (upd_slot ?k ?f (?d\<lparr>chans := chans w @ [False]\<rparr>))"
    using own_chans [OF d, of False] by (intro own_upd_slot) auto
  have "own_ok (caller_to i (Chosen (length (chans w))) (upd_slot ?k ?f (?d\<lparr>chans := chans w @ [False]\<rparr>)))"
    using owners_upd [of ?f ?k "?d\<lparr>chans := chans w @ [False]\<rparr>"] owners_drop_closed [of now random ?k w]
    by (intro move [OF new]) (auto simp: upd_slot_def)
  then show ?thesis using True got d wait owners_drop_closed [of now random ?k w]
    by (auto simp: peerFor_lock_def Let_def usable_def intro!: move split: option.splits)
qed (use w in \<open>auto simp: peerFor_lock_def\<close>)

lemma callers_views: "callers (close_chan ch w) = callers w" "callers (upd_slot k f w) = callers w"
  by (simp_all add: close_chan_def upd_slot_def)

lemma own_check:
  assumes w: "own_ok w"
  shows "own_ok (peerFor_check i w)"
proof (cases "i < length (callers w)")
  case i: True
  show ?thesis
  proof (cases "ca_pc (callers w ! i)")
    case (Chosen ch)
    let ?c = "callers w ! i"
    have fit: "ca_slot ?c < length (owners w) \<and> owners w ! ca_slot ?c = ca_node ?c \<and> ch < length (chans w)"
      using own_callerD [OF w i] Chosen by (auto simp: caller_fits_def)
    have ref: "own_ok (caller_to i (Refused err) v)" if "own_ok v" "callers v = callers w" for err v
      using that i by (intro own_caller) (auto simp: caller_fits_def)
    have "own_ok (upd_slot (ca_slot ?c) (\<lambda>s. s\<lparr>connecting := None, slot_state := PeerClosing\<rparr>) w)"
      by (rule own_upd_slot [OF w]) auto
    then have stop: "own_ok (caller_to i (Refused ErrRemoteUnavailable) (close_chan ch (if b
        then upd_slot (ca_slot ?c) (\<lambda>s. s\<lparr>connecting := None, slot_state := PeerClosing\<rparr>) w else w)))" for b
      using w by (intro ref) (auto simp: callers_views)
    let ?v = "w\<lparr>connectors := connectors w @ [\<lparr>co_slot = ca_slot ?c, co_node = ca_node ?c, co_endpoint = ca_endpoint ?c, co_done = ch, co_pc = Dialing\<rparr>]\<rparr>"
    have "connector_fits (owners w) (names w)
        \<lparr>co_slot = ca_slot ?c, co_node = ca_node ?c, co_endpoint = ca_endpoint ?c, co_done = ch, co_pc = Dialing\<rparr>"
      using fit by (simp add: connector_fits_def)
    then have "own_ok ?v" using w by (simp add: own_ok_def)
    then have "own_ok (caller_to i (Awaiting ch) ?v)" using i fit by (intro own_caller) (auto simp: caller_fits_def)
    then show ?thesis using i Chosen stop by (simp add: peerFor_check_def Let_def)
  qed (use i w in \<open>simp_all add: peerFor_check_def\<close>)
qed (use w in \<open>simp add: peerFor_check_def\<close>)

lemma own_wake:
  assumes w: "own_ok w"
  shows "own_ok (peerFor_wake i w)" "own_ok (peerFor_ctx err i w)"
proof -
  have "own_ok (caller_to i pc w)" if "i < length (callers w)" "ca_pc (callers w ! i) = Awaiting ch" "pc = AtSlot \<or> pc = Refused (ErrCtx err)" for pc ch
    using own_callerD [OF w that(1)] that by (intro own_caller [OF w]) (auto simp: caller_fits_def)
  then show "own_ok (peerFor_wake i w)" "own_ok (peerFor_ctx err i w)"
    using w by (auto simp: peerFor_wake_def peerFor_ctx_def split: caller_pc.split)
qed

lemma own_new_peer:
  assumes "own_ok w" and "peer_fits (owners w) (who p)"
  shows "own_ok (w\<lparr>peers := peers w @ [p]\<rparr>)"
  using assms fits_mono(1) [of "owners w" "names w" "length (chans w)" _ "length (chans w)" "[]" "[who p]"]
    fits_mono(2) [of "owners w" "names w" _ "[]" "[who p]"] slots_fit_more [of "map slot_peer (slot_heap w)" "names w" 0 "[who p]"]
  by (simp add: own_ok_def)

lemma own_dial:
  assumes w: "own_ok w"
  shows "own_ok (connect_dial failed j w)"
proof (cases "j < length (connectors w) \<and> co_pc (connectors w ! j) = Dialing")
  case True
  let ?c = "connectors w ! j"
  have fit: "co_slot ?c < length (owners w) \<and> owners w ! co_slot ?c = co_node ?c"
    using own_connectorD [OF w, of j] True by (simp add: connector_fits_def)
  let ?p = "\<lparr>lp_node = co_node ?c, lp_endpoint = co_endpoint ?c, lp_slot = co_slot ?c, lp_closed = False, lp_told = False\<rparr>"
  have "own_ok (w\<lparr>peers := peers w @ [?p]\<rparr>)" using fit by (intro own_new_peer [OF w]) (simp add: peer_fits_def who_def)
  then have "own_ok (connector_to j (Dialed (length (peers w))) (w\<lparr>peers := peers w @ [?p]\<rparr>))"
    using fit by (intro own_connector) (simp_all add: connector_fits_def who_def nth_append)
  moreover have "own_ok (connector_to j (DialFailed h) w)" for h
    using fit by (intro own_connector [OF w]) (simp add: connector_fits_def)
  ultimately show ?thesis using True by (simp add: connect_dial_def split: option.split)
qed (use w in \<open>auto simp: connect_dial_def\<close>)

lemma upd_slot_reconnects: "upd_slot k f (w\<lparr>nodeReconnects := n\<rparr>) = (upd_slot k f w)\<lparr>nodeReconnects := n\<rparr>"
  by (simp add: upd_slot_def)

lemma own_install:
  assumes w: "own_ok w"
  shows "own_ok (connect_install now random j w)"
proof (cases "j < length (connectors w) \<and> co_pc (connectors w ! j) \<noteq> Dialing \<and> co_pc (connectors w ! j) \<noteq> ConnectorGone")
  case True
  let ?c = "connectors w ! j"
  let ?k = "co_slot ?c"
  have fit: "connector_fits (owners w) (names w) ?c" using own_connectorD [OF w, of j] True by simp
  have gone: "own_ok (connector_to j ConnectorGone v)" if "own_ok v" "connectors v = connectors w" "owners v = owners w" for v
    using that fit own_connector [where w = v and j = j and pc = ConnectorGone] by (simp add: connector_fits_def)
  have up: "own_ok (upd_slot ?k f w)" if "\<And>s. slot_owner (f s) = slot_owner s"
    "slot_peer (f (slot_heap w ! ?k)) = slot_peer (slot_heap w ! ?k) \<or> slot_peer (f (slot_heap w ! ?k)) = None \<or>
      (\<exists>q. slot_peer (f (slot_heap w ! ?k)) = Some q \<and> co_pc ?c = Dialed q)" for f
    using that fit by (intro own_upd_slot [OF w]) (auto simp: connector_fits_def who_def)
  have clear: "own_ok (upd_slot ?k (\<lambda>s. s\<lparr>connecting := None\<rparr>) w)" by (rule up) auto
  have fail: "own_ok (upd_slot ?k (connect_failed w now random h) w)" for h by (rule up) auto
  have ready: "own_ok (upd_slot ?k (connect_ready q) (w\<lparr>nodeReconnects := n\<rparr>))" if "co_pc ?c = Dialed q" for q n
    unfolding upd_slot_reconnects using up [of "connect_ready q"] that by simp
  have ready0: "own_ok (upd_slot ?k (connect_ready q) w)" if "co_pc ?c = Dialed q" for q using up [of "connect_ready q"] that by simp
  have ow: "owners (upd_slot ?k f v) = owners v" if "\<And>s. slot_owner (f s) = slot_owner s" for f v by (rule owners_upd [OF that])
  have views: "connectors (upd_slot ?k f v) = connectors v" "connectors (close_peer q v) = connectors v" "owners (close_peer q v) = owners v" for f v q
    by (simp_all add: upd_slot_def close_peer_def)
  show ?thesis using True w clear fail ready ready0
    by (simp add: connect_install_def Let_def del: if_split split: connector_pc.split)
      (auto intro!: gone simp: views ow)
qed (use w in \<open>auto simp: connect_install_def\<close>)

lemma lane_step_ok: "flight_ok w \<and> own_ok w \<Longrightarrow> flight_ok (lane_step ev w) \<and> own_ok (lane_step ev w)"
  by (cases ev) (simp_all add: flight_begin own_begin flight_lock own_lock own_callers_ok flight_check own_check flight_wake own_wake
      flight_dial own_dial flight_install own_install flight_peerClosed own_peerClosed flight_node own_node)

lemma lane_run_ok: "flight_ok w \<and> own_ok w \<Longrightarrow> flight_ok (fold lane_step evs w) \<and> own_ok (fold lane_step evs w)"
  by (induction evs arbitrary: w) (simp_all add: lane_step_ok)

lemma newLanes_ok: "0 < n \<Longrightarrow> flight_ok (newLanes node n least most) \<and> own_ok (newLanes node n least most)"
  by (simp add: newLanes_def flight_ok_def flight_def held_def own_ok_def slots_fit_def table_fits_def)

section \<open>Properties\<close>

definition dials :: "lanes \<Rightarrow> nat \<Rightarrow> nat \<Rightarrow> nat \<Rightarrow> bool" where
  "dials w j k ch \<longleftrightarrow> j < length (connectors w) \<and> co_pc (connectors w ! j) \<noteq> ConnectorGone \<and> co_slot (connectors w ! j) = k \<and>
     co_done (connectors w ! j) = ch"

lemma dials_held: "dials w j k ch \<Longrightarrow> (k, ch) \<in># held w"
proof -
  assume d: "dials w j k ch"
  then have "(k, ch) \<in> set (connector_holds (connectors w ! j))" by (auto simp: dials_def connector_holds_def split: connector_pc.split)
  moreover have "connectors w ! j \<in> set (connectors w)" using d by (simp add: dials_def)
  ultimately have "(k, ch) \<in> set (concat (map connector_holds (connectors w)))" by auto
  then show ?thesis by (simp add: held_def)
qed

lemma concat_pick_two:
  assumes "a < length xs" and "b < length xs" and "a \<noteq> b" and "x \<in> set (f (xs ! a))" and "x \<in> set (f (xs ! b))"
  shows "2 \<le> count (mset (concat (map f xs))) x"
proof -
  have one: "1 \<le> count (mset (f (xs ! a))) x" "1 \<le> count (mset (f (xs ! b))) x"
    using assms(4,5) by (simp_all add: Suc_le_eq)
  have "(\<Sum>i\<in>{a, b}. count (mset (f (xs ! i))) x) \<le> (\<Sum>i<length xs. count (mset (f (xs ! i))) x)"
    using assms(1,2) by (intro sum_mono2) auto
  then have "count (mset (f (xs ! a))) x + count (mset (f (xs ! b))) x \<le> (\<Sum>i<length xs. count (mset (f (xs ! i))) x)"
    using assms(3) by simp
  also have "\<dots> = count (mset (concat (map f xs))) x"
    by (induction xs rule: rev_induct) (simp_all add: nth_append)
  finally show ?thesis using one by linarith
qed

lemma count_image_ge: "count M x \<le> count (image_mset f M) (f x)"
  by (induction M) auto

text \<open>
  C31: A lane is dialled by one goroutine at a time, and nobody waits for a dial that is not under way.  In every
  history, two goroutines in \<open>connectSlot\<close> for the same slot are the same one; and a caller of \<open>peerFor\<close> that
  waits for a channel finds it closed, or the caller that opened it has not yet looked at the stop flag, or a
  goroutine is dialling that will close it.
\<close>

theorem one_dial_per_lane:
  assumes "w = fold lane_step evs (newLanes node n least most)" and "0 < n"
  shows "(dials w j k ch \<and> dials w j' k ch' \<longrightarrow> j = j') \<and>
    (i < length (callers w) \<and> ca_pc (callers w ! i) = Awaiting ch \<longrightarrow>
       chans w ! ch \<or> (\<exists>j k. dials w j k ch) \<or> (\<exists>i' < length (callers w). ca_pc (callers w ! i') = Chosen ch))"
proof (intro conjI impI)
  have ok: "flight_ok w" "own_ok w" using lane_run_ok newLanes_ok [OF assms(2)] assms(1) by blast+
  note D = flightD [OF ok(1) [unfolded flight_ok_def]]
  show "j = j'" if d: "dials w j k ch \<and> dials w j' k ch'"
  proof (rule ccontr)
    assume "j \<noteq> j'"
    have "ch = ch'" using flight_single [OF ok(1) [unfolded flight_ok_def]] dials_held d by blast
    then have "2 \<le> count (mset (concat (map connector_holds (connectors w)))) (k, ch)"
      using d \<open>j \<noteq> j'\<close> by (intro concat_pick_two [of j _ j']) (auto simp: dials_def connector_holds_def split: connector_pc.split)
    then have two: "2 \<le> count (held w) (k, ch)" by (simp add: held_def)
    have "count (held w) (k, ch) \<le> count (image_mset snd (held w)) ch"
      using count_image_ge [of "held w" "(k, ch)" snd] by simp
    then show False using two D(1) [of ch] by simp
  qed
  assume "i < length (callers w) \<and> ca_pc (callers w ! i) = Awaiting ch"
  then have "ch < length (chans w)" using own_callerD [OF ok(2), of i] by (auto simp: caller_fits_def)
  then have "chans w ! ch \<or> ch \<in># image_mset snd (held w)" using D(4) by blast
  moreover have "(\<exists>j k. dials w j k ch) \<or> (\<exists>i' < length (callers w). ca_pc (callers w ! i') = Chosen ch)"
    if "ch \<in># image_mset snd (held w)"
  proof -
    from that obtain k where "(k, ch) \<in># held w" by auto
    then consider c where "c \<in> set (callers w)" "(k, ch) \<in> set (caller_holds c)" | c where "c \<in> set (connectors w)" "(k, ch) \<in> set (connector_holds c)"
      by (auto simp: held_def)
    then show ?thesis
    proof cases
      case 1
      then show ?thesis by (auto simp: caller_holds_def in_set_conv_nth split: caller_pc.splits)
    next
      case 2
      then obtain j where "j < length (connectors w)" "connectors w ! j = c" by (auto simp: in_set_conv_nth)
      then have "dials w j k ch" using 2(2) by (auto simp: dials_def connector_holds_def split: connector_pc.splits)
      then show ?thesis by blast
    qed
  qed
  ultimately show "chans w ! ch \<or> (\<exists>j k. dials w j k ch) \<or> (\<exists>i' < length (callers w). ca_pc (callers w ! i') = Chosen ch)" by blast
qed

text \<open>
  \<open>peerFor\<close> returns the right connection.  In every history, a caller that got a peer got one that was dialled
  for the node it asked for, at the endpoint the registry had for that node when the call began.
\<close>

theorem peerFor_right_node:
  assumes "w = fold lane_step evs (newLanes node n least most)" and "0 < n" and "i < length (callers w)" and "ca_pc (callers w ! i) = Got q"
  shows "q < length (peers w) \<and> lp_node (peers w ! q) = ca_node (callers w ! i) \<and> lp_endpoint (peers w ! q) = ca_endpoint (callers w ! i)"
proof -
  have "own_ok w" using lane_run_ok newLanes_ok [OF assms(2)] assms(1) by blast
  from own_callerD [OF this assms(3)] assms(4) show ?thesis by (auto simp: caller_fits_def who_def)
qed

lemma backoff_loop_bounds: "0 < delay \<Longrightarrow> delay \<le> most \<Longrightarrow> delay \<le> backoff_loop most k delay \<and> backoff_loop most k delay \<le> most"
proof (induction k arbitrary: delay)
  case (Suc k)
  show ?case
  proof (cases "delay < most div 2")
    case True
    then have "2 * delay \<le> most" by simp
    then show ?thesis using Suc.IH [of "2 * delay"] Suc.prems True by simp
  qed (use Suc.prems in simp)
qed simp

lemma backoff_loop_step:
  "backoff_loop most (Suc k) delay = (if backoff_loop most k delay < most div 2 then 2 * backoff_loop most k delay else backoff_loop most k delay)"
  by (induction k arbitrary: delay) (simp, metis backoff_loop.simps(2))

text \<open>
  The delay before a new attempt is bounded and grows by doubling.  With positive limits in order and a random
  number from the unit interval, the delay after any number of failures lies between four fifths of the least and
  six fifths of the largest one; before the jitter it never falls from one failure to the next, at most doubles,
  and doubles as long as it is below half of the largest.
\<close>

theorem backoff_bounded:
  assumes "0 < least" and "least \<le> most" and "0 \<le> random" and "random < 1"
  shows "4 * least \<le> 5 * (backoff least most random m + 1) \<and> 5 * backoff least most random m \<le> 6 * most \<and>
    least \<le> backoff_base least most m \<and> backoff_base least most m \<le> most \<and>
    backoff_base least most (m + 2) =
      (if backoff_base least most (m + 1) < most div 2 then 2 * backoff_base least most (m + 1) else backoff_base least most (m + 1))"
proof -
  have b: "least \<le> backoff_loop most k least \<and> backoff_loop most k least \<le> most" for k
    using backoff_loop_bounds [OF assms(1,2)] .
  then have base: "backoff_base least most j = backoff_loop most (j - 1) least" for j
    by (simp add: backoff_base_def Let_def leD)
  let ?d = "backoff_base least most m" and ?r = "8 / 10 + random * (4 / 10)"
  have d: "least \<le> ?d" "?d \<le> most" using b base by simp_all
  have r: "8 / 10 \<le> ?r" "?r \<le> 12 / 10" using assms(3,4) by simp_all
  have "rat_of_int least * (8 / 10) \<le> rat_of_int ?d * ?r" using d r assms(1) by (intro mult_mono) auto
  also have "rat_of_int ?d * ?r < rat_of_int (backoff least most random m) + 1" unfolding backoff_def by linarith
  finally have "rat_of_int (4 * least) \<le> rat_of_int (5 * (backoff least most random m + 1))" by simp
  then have lo: "4 * least \<le> 5 * (backoff least most random m + 1)" by (simp only: of_int_le_iff)
  have "rat_of_int (backoff least most random m) \<le> rat_of_int ?d * ?r" unfolding backoff_def by linarith
  also have "\<dots> \<le> rat_of_int most * (12 / 10)" using d r assms(1) by (intro mult_mono) auto
  finally have "rat_of_int (5 * backoff least most random m) \<le> rat_of_int (6 * most)" by simp
  then have hi: "5 * backoff least most random m \<le> 6 * most" by (simp only: of_int_le_iff)
  show ?thesis using lo hi d base backoff_loop_step [of most m least] by simp
qed

theorem backoff_bounded_witness:
  "4 * 100 \<le> 5 * (backoff 100 5000 (1 / 2) 3 + 1) \<and> 5 * backoff 100 5000 (1 / 2) 3 \<le> 6 * 5000"
  using backoff_bounded [of 100 5000 "1 / 2" 3] by simp

text \<open>A history: the registry changes while a lane is being dialled, and the node stops afterwards.\<close>

definition demo_dial :: "lane_event list" where
  "demo_dial = [ReloadWith (Inr demo_old), PeerFor ''b'' 0, Lock 0 0 0, PeerFor ''b'' 0, Lock 1 0 0, Check 0, Dial 0 None, Install 0 0 0, Wake 1, Lock 1 0 0]"

definition demo_reload :: "lane_event list" where
  "demo_reload = [ReloadWith (Inr demo_old), PeerFor ''b'' 0, Lock 0 0 0, Check 0, ReloadWith (Inr demo_new), Dial 0 None,
     Install 0 0 0, Wake 0, Lock 0 0 0, Check 0, Dial 1 None, Install 1 0 0, Wake 0, Lock 0 0 0, StopFlag, StopLanes]"

abbreviation demo_lanes :: lanes where "demo_lanes \<equiv> newLanes ''a'' 2 100 5000"

theorem peerFor_right_node_witness:
  "lp_node (peers (fold lane_step demo_dial demo_lanes) ! 0) = ''b'' \<and> lp_endpoint (peers (fold lane_step demo_dial demo_lanes) ! 0) = ''y''"
proof -
  let ?w = "fold lane_step demo_dial demo_lanes"
  have "1 < length (callers ?w)" "ca_pc (callers ?w ! 1) = Got 0" "ca_node (callers ?w ! 1) = ''b''" "ca_endpoint (callers ?w ! 1) = ''y''"
    by code_simp+
  with peerFor_right_node [OF refl, of 2 1 demo_dial "''a''" 100 5000 0] show ?thesis by simp
qed

theorem one_dial_per_lane_witness:
  "\<exists>j k. dials (fold lane_step (take 6 demo_dial) demo_lanes) j k 0"
proof -
  let ?w = "fold lane_step (take 6 demo_dial) demo_lanes"
  have "1 < length (callers ?w)" "ca_pc (callers ?w ! 1) = Awaiting 0" "\<not> chans ?w ! 0" "list_all (\<lambda>c. ca_pc c \<noteq> Chosen 0) (callers ?w)"
    by code_simp+
  then show ?thesis using one_dial_per_lane [OF refl, of 2 "take 6 demo_dial" "''a''" 100 5000 0 0 0 0 0 1]
    by (auto simp: list_all_length)
qed

text \<open>
  A registry change during a dial leaks a connection.  A caller that waits for the dial goes on, on the slot that
  \<open>closeChanged\<close> has detached, with the endpoint it read before: it dials the old endpoint, although the registry has
  a new one, and gets a peer that is in no table.  \<open>Stop\<close> closes the peers of the table, and this one stays open.
\<close>

theorem reload_during_dial_leaks_peer:
  "let w = fold lane_step demo_reload demo_lanes
   in ca_pc (callers w ! 0) = Got 1 \<and> lp_endpoint (peers w ! 1) = ''y'' \<and> rm_endpoint (ln_registry w) ''b'' = ''z'' \<and>
      stopping w \<and> slot_table w = fmempty \<and> \<not> lp_closed (peers w ! 1)"
  by code_simp

end
