(* ===== verification/Observe_Wait.thy ===== *)
theory Observe_Wait
  imports Sky_Prelude "HOL-Library.Finite_Map"
begin

text \<open>
  The wait graph of \<open>observe/waitgraph/monitor.go\<close>: at most one outgoing edge per node, kept as a finite
  map.  A nil monitor is \<open>None\<close>.  Every operation holds the monitor's mutex, so a history is a sequence
  of operations.
\<close>

record Monitor =
  waitFor :: "(nat, nat) fmap"
  labels :: "(nat, string) fmap"

definition NewMonitor :: Monitor where
  "NewMonitor = \<lparr>waitFor = fmempty, labels = fmempty\<rparr>"

text \<open>The loop of \<open>canReach\<close>; every round visits a node that has an edge and was not visited before.\<close>

function canReach_loop :: "(nat, nat) fmap \<Rightarrow> nat \<Rightarrow> nat list \<Rightarrow> nat \<Rightarrow> bool" where
  "canReach_loop m target visited current =
     (if current = target then True
      else if current \<in> set visited then False
      else case fmlookup m current of
             None \<Rightarrow> False
           | Some next \<Rightarrow> canReach_loop m target (current # visited) next)"
  by pat_completeness auto
termination
proof (relation "measure (\<lambda>(m, target, visited, current). card (fset (fmdom m) - set visited))", goal_cases)
  case (2 m target visited current nxt)
  then have "current \<in> fset (fmdom m) - set visited" by (auto intro: fmdomI)
  then have "card (fset (fmdom m) - set (current # visited)) < card (fset (fmdom m) - set visited)"
    by (intro psubset_card_mono) auto
  then show ?case by simp
qed simp

declare canReach_loop.simps [simp del]

definition canReach :: "nat \<Rightarrow> nat \<Rightarrow> Monitor \<Rightarrow> bool" where
  "canReach from target m = canReach_loop (waitFor m) target [] from"

text \<open>The loop of \<open>buildChain\<close>, at most twenty rounds.\<close>

fun buildChain_loop :: "nat \<Rightarrow> (nat, nat) fmap \<Rightarrow> nat \<Rightarrow> nat \<Rightarrow> nat list" where
  "buildChain_loop 0 m target current = []"
| "buildChain_loop (Suc k) m target current =
     (if current = target then []
      else current # (case fmlookup m current of None \<Rightarrow> [] | Some next \<Rightarrow> buildChain_loop k m target next))"

definition buildChain :: "nat \<Rightarrow> nat \<Rightarrow> Monitor \<Rightarrow> nat list" where
  "buildChain from target m = buildChain_loop 20 (waitFor m) target from @ [target]"

text \<open>The error carries the label and the chain of its message.\<close>

datatype wait_error = ErrCycle string "nat list" nat

definition BeginWait :: "nat \<Rightarrow> nat \<Rightarrow> string \<Rightarrow> Monitor option \<Rightarrow> wait_error option \<times> Monitor option" where
  "BeginWait from to label om =
     (case om of
        None \<Rightarrow> (None, None)
      | Some m \<Rightarrow>
          if from = 0 \<or> to = 0 \<or> from = to then (None, Some m)
          else if canReach to from m then (Some (ErrCycle label (buildChain to from m) from), Some m)
          else (None, Some (m\<lparr>waitFor := fmupd from to (waitFor m), labels := fmupd from label (labels m)\<rparr>)))"

text \<open>A missing entry of \<open>waitFor\<close> reads as 0.\<close>

definition EndWait :: "nat \<Rightarrow> nat \<Rightarrow> Monitor option \<Rightarrow> Monitor option" where
  "EndWait from to om =
     (case om of
        None \<Rightarrow> None
      | Some m \<Rightarrow>
          if from = 0 then Some m
          else if (case fmlookup (waitFor m) from of None \<Rightarrow> 0 | Some t \<Rightarrow> t) = to
          then Some (m\<lparr>waitFor := fmdrop from (waitFor m), labels := fmdrop from (labels m)\<rparr>)
          else Some m)"

definition Reset :: "Monitor option \<Rightarrow> Monitor option" where
  "Reset om = (case om of None \<Rightarrow> None | Some m \<Rightarrow> Some NewMonitor)"

datatype wait_op = Begin nat nat string | End nat nat | ResetOp

fun wait_step :: "wait_op \<Rightarrow> Monitor option \<Rightarrow> Monitor option" where
  "wait_step (Begin from to label) om = snd (BeginWait from to label om)"
| "wait_step (End from to) om = EndWait from to om"
| "wait_step ResetOp om = Reset om"

section \<open>Reachability\<close>

definition edges :: "(nat, nat) fmap \<Rightarrow> (nat \<times> nat) set" where
  "edges m = {(a, b). fmlookup m a = Some b}"

lemma edges_det: "(a, b) \<in> edges m \<Longrightarrow> (a, c) \<in> edges m \<Longrightarrow> b = c"
  by (simp add: edges_def)

text \<open>
  The invariant of the search: a visited node has a path to the current one, and the target is not among
  the visited.  Meeting a visited node again closes a cycle without the target.
\<close>

lemma cycle_without_target:
  assumes "(c, v) \<in> (edges m)\<^sup>*" and "\<forall>x \<in> S. x \<noteq> t" and "c \<in> S"
    and "\<And>x y. x \<in> S \<Longrightarrow> (x, y) \<in> edges m \<Longrightarrow> y \<in> S"
  shows "v \<noteq> t"
proof -
  have "v \<in> S" using assms(1,3) by (induction rule: rtrancl_induct) (auto intro: assms(4))
  with assms(2) show ?thesis by blast
qed

lemma canReach_loop_correct:
  assumes "target \<notin> set visited" and "\<forall>v \<in> set visited. \<forall>y. (v, y) \<in> edges m \<longrightarrow> y \<in> set visited \<or> y = current"
  shows "canReach_loop m target visited current \<longleftrightarrow> (current, target) \<in> (edges m)\<^sup>*"
  using assms
proof (induction m target visited current rule: canReach_loop.induct)
  case (1 m target visited current)
  show ?case
  proof (cases "current = target \<or> current \<in> set visited")
    case True
    then consider "current = target" | "current \<noteq> target" "current \<in> set visited" by blast
    then show ?thesis
    proof cases
      case 1
      then show ?thesis by (simp add: canReach_loop.simps)
    next
      case 2
      then have "y \<in> set visited" if "x \<in> set visited" "(x, y) \<in> edges m" for x y
        using "1.prems"(2) that by blast
      then have "(current, target) \<notin> (edges m)\<^sup>*"
        using cycle_without_target [of current target m "set visited" target] "1.prems"(1) 2 by metis
      then show ?thesis using 2 by (simp add: canReach_loop.simps)
    qed
  next
    case False
    show ?thesis
    proof (cases "fmlookup m current")
      case None
      then have "(current, target) \<notin> (edges m)\<^sup>*" using False by (auto simp: edges_def elim: converse_rtranclE)
      then show ?thesis using None False by (simp add: canReach_loop.simps)
    next
      case (Some nxt)
      have "(current, target) \<in> (edges m)\<^sup>* \<longleftrightarrow> (nxt, target) \<in> (edges m)\<^sup>*"
        using Some False by (auto simp: edges_def elim: converse_rtranclE intro: converse_rtrancl_into_rtrancl)
      moreover have "canReach_loop m target (current # visited) nxt \<longleftrightarrow> (nxt, target) \<in> (edges m)\<^sup>*"
        using "1.IH" [of nxt] "1.prems" False Some by (auto simp: edges_def split: if_splits)
      ultimately show ?thesis using Some False by (simp add: canReach_loop.simps)
    qed
  qed
qed

lemma canReach_iff: "canReach from target m \<longleftrightarrow> (from, target) \<in> (edges (waitFor m))\<^sup>*"
  by (simp add: canReach_def canReach_loop_correct)

lemma edges_upd: "edges (fmupd a b m) = insert (a, b) {(x, y) \<in> edges m. x \<noteq> a}"
  by (auto simp: edges_def split: if_splits)

lemma edges_drop: "edges (fmdrop a m) = {(x, y) \<in> edges m. x \<noteq> a}"
  by (auto simp: edges_def split: if_splits)

text \<open>A path that ends in \<open>a\<close> can be cut where it first meets \<open>a\<close>, before any edge out of \<open>a\<close>.\<close>

lemma path_before:
  assumes "(x, a) \<in> r\<^sup>*"
  shows "(x, a) \<in> {(u, v) \<in> r. u \<noteq> a}\<^sup>*"
  using assms
proof (induction rule: converse_rtrancl_induct)
  case (step y z)
  show ?case
  proof (cases "y = a")
    case False
    then have "(y, z) \<in> {(u, v) \<in> r. u \<noteq> a}" using step.hyps(1) by simp
    from converse_rtrancl_into_rtrancl [OF this step.IH] show ?thesis .
  qed simp
qed simp

lemma acyclic_upd:
  assumes "acyclic (edges m)"
  shows "acyclic (edges (fmupd a b m)) \<longleftrightarrow> (b, a) \<notin> (edges m)\<^sup>*"
proof -
  let ?r = "{(x, y) \<in> edges m. x \<noteq> a}"
  have "?r \<subseteq> edges m" by auto
  then have "acyclic ?r" using assms by (rule acyclic_subset [rotated])
  then have "acyclic (edges (fmupd a b m)) \<longleftrightarrow> (b, a) \<notin> ?r\<^sup>*" by (simp add: edges_upd acyclic_insert)
  also have "\<dots> \<longleftrightarrow> (b, a) \<notin> (edges m)\<^sup>*"
    using path_before [of b a "edges m"] rtrancl_mono [OF \<open>?r \<subseteq> edges m\<close>] by blast
  finally show ?thesis .
qed

definition graph_ok :: "Monitor option \<Rightarrow> bool" where
  "graph_ok om \<longleftrightarrow> (case om of None \<Rightarrow> True | Some m \<Rightarrow> acyclic (edges (waitFor m)) \<and> fmdom (labels m) = fmdom (waitFor m))"

lemma graph_ok_step: "graph_ok om \<Longrightarrow> graph_ok (wait_step op om)"
proof (cases op)
  case (Begin a b l)
  then show "graph_ok om \<Longrightarrow> ?thesis"
    by (auto simp: graph_ok_def BeginWait_def canReach_iff acyclic_upd split: option.splits)
next
  case (End a b)
  have "acyclic (edges m) \<Longrightarrow> acyclic (edges (fmdrop a m))" for m
    by (rule acyclic_subset) (auto simp: edges_drop)
  with End show "graph_ok om \<Longrightarrow> ?thesis" by (auto simp: graph_ok_def EndWait_def split: option.splits)
next
  case ResetOp
  then show "graph_ok om \<Longrightarrow> ?thesis"
    by (auto simp: graph_ok_def Reset_def NewMonitor_def edges_def acyclic_def split: option.splits)
qed

lemma graph_ok_run: "graph_ok om \<Longrightarrow> graph_ok (fold wait_step ops om)"
  by (induction ops arbitrary: om) (simp_all add: graph_ok_step)

section \<open>The reported chain\<close>

lemma buildChain_loop_numeral:
  "buildChain_loop (numeral k) m target current =
     (if current = target then []
      else current # (case fmlookup m current of None \<Rightarrow> [] | Some nxt \<Rightarrow> buildChain_loop (pred_numeral k) m target nxt))"
  by (simp add: numeral_eq_Suc)

lemma buildChain_hd: "hd (buildChain from target m) = from"
  by (simp add: buildChain_def buildChain_loop_numeral)

lemma buildChain_last: "last (buildChain from target m) = target"
  by (simp add: buildChain_def)

lemma buildChain_loop_path:
  assumes "(c, t) \<in> (edges m)\<^sup>*" and "length (buildChain_loop k m t c) < k"
  shows "successively (\<lambda>x y. (x, y) \<in> edges m) (buildChain_loop k m t c @ [t])"
  using assms
proof (induction k m t c rule: buildChain_loop.induct)
  case (2 k m t c)
  show ?case
  proof (cases "c = t")
    case False
    then obtain d where d: "(c, d) \<in> edges m" "(d, t) \<in> (edges m)\<^sup>*"
      using "2.prems"(1) by (auto elim: converse_rtranclE)
    then have look: "fmlookup m c = Some d" by (simp add: edges_def)
    then have rest: "successively (\<lambda>x y. (x, y) \<in> edges m) (buildChain_loop k m t d @ [t])"
      using "2.IH" [of d] "2.prems"(2) False d(2) by simp
    have "hd (buildChain_loop k m t d @ [t]) = d"
      using "2.prems"(2) False look by (cases k) auto
    then show ?thesis using rest d(1) False look by (simp add: successively_Cons)
  qed simp
qed simp


definition demo_graph :: Monitor where
  "demo_graph = \<lparr>waitFor = fmupd 3 4 (fmupd 2 3 fmempty), labels = fmupd 3 ''b'' (fmupd 2 ''a'' fmempty)\<rparr>"

lemma demo_graph_reached: "fold wait_step [Begin 2 3 ''a'', Begin 3 4 ''b''] (Some NewMonitor) = Some demo_graph"
  by (simp add: BeginWait_def canReach_def canReach_loop.simps NewMonitor_def demo_graph_def)

lemma demo_graph_refuses: "BeginWait 4 2 ''c'' (Some demo_graph) = (Some (ErrCycle ''c'' [2, 3, 4] 4), Some demo_graph)"
  by (simp add: BeginWait_def canReach_def canReach_loop.simps demo_graph_def buildChain_def buildChain_loop_numeral)


end
