(* ===== verification/Observe_Calls.thy ===== *)
theory Observe_Calls
  imports Actor_Call "HOL-Library.List_Lexorder" "HOL-Library.Char_ord" "HOL-Library.Product_Lexorder" "HOL-Library.AList"
    "HOL-Library.Multiset" "HOL-Library.Word"
begin

text \<open>
  The call graph recorder of \<open>observe/callgraph/recorder.go\<close>.  The map of edges is an association list whose order
  stands for the order in which a range loop visits it.  Counters are 64-bit words, and a duration is the word of its
  nanoseconds, so that sums wrap as they do in Go.  Every operation holds the recorder's mutex.  A file is its bytes, or
  \<open>None\<close> when it does not exist; the JSON library is a parameter, a marshalling and an unmarshalling function.
\<close>

section \<open>The recorder\<close>

record Edge =
  e_From :: string
  e_To :: string
  e_Count :: "64 word"
  e_ErrorCount :: "64 word"
  e_TotalDuration :: "64 word"

record Recorder =
  edges :: "(string \<times> Edge) list"
  jsonlPath :: string

definition rec_New :: "string \<Rightarrow> Recorder" where
  "rec_New path = \<lparr>edges = [], jsonlPath = path\<rparr>"

definition boolCount :: "bool \<Rightarrow> 64 word" where
  "boolCount b = (if b then 1 else 0)"

definition edge_key :: "string \<Rightarrow> string \<Rightarrow> string" where
  "edge_key from to = from @ ''->'' @ to"

text \<open>
  \<open>appendJSONL\<close> on the bytes of the file.  \<open>failed\<close> is \<open>None\<close> when every call of the file system succeeds, and
  otherwise the number of bytes that reached the file; \<open>None\<close> for a file that was not even created.
\<close>

definition appendJSONL :: "(Edge \<Rightarrow> string) \<Rightarrow> nat option option \<Rightarrow> Edge \<Rightarrow> string option \<Rightarrow> string option" where
  "appendJSONL marshal failed edge content =
     (let line = marshal edge @ [CHR 0x0A];
          old = (case content of None \<Rightarrow> [] | Some bytes \<Rightarrow> bytes)
      in case failed of
           None \<Rightarrow> Some (old @ line)
         | Some None \<Rightarrow> content
         | Some (Some n) \<Rightarrow> Some (old @ take n line))"

definition caller_of :: "CallEvent \<Rightarrow> string" where
  "caller_of event = (if ce_Caller event = [] then ''<external>'' else ce_Caller event)"

definition target_of :: "CallEvent \<Rightarrow> string" where
  "target_of event = ce_Callee event @ ''.'' @ ce_Protocol event"

definition ignored :: "CallEvent \<Rightarrow> bool" where
  "ignored event \<longleftrightarrow> ce_Callee event = [] \<or> ce_Protocol event = []"

text \<open>The edge of a single call, as it is written to the file.\<close>

definition single_edge :: "64 word \<Rightarrow> CallEvent \<Rightarrow> Edge" where
  "single_edge duration event = \<lparr>e_From = caller_of event, e_To = target_of event, e_Count = 1,
     e_ErrorCount = boolCount (ce_Err event \<noteq> None), e_TotalDuration = duration\<rparr>"

text \<open>\<open>OnCall\<close>, with the duration of the event; \<open>None\<close> is a nil recorder.\<close>

definition OnCall ::
  "(Edge \<Rightarrow> string) \<Rightarrow> nat option option \<Rightarrow> 64 word \<Rightarrow> CallEvent \<Rightarrow> Recorder option \<times> string option \<Rightarrow> Recorder option \<times> string option" where
  "OnCall marshal failed duration event st =
     (case st of
        (None, content) \<Rightarrow> (None, content)
      | (Some r, content) \<Rightarrow>
          if ignored event then (Some r, content)
          else let from = caller_of event; to = target_of event; key = edge_key from to;
                   edge = (case map_of (edges r) key of
                             None \<Rightarrow> \<lparr>e_From = from, e_To = to, e_Count = 0, e_ErrorCount = 0, e_TotalDuration = 0\<rparr>
                           | Some e \<Rightarrow> e);
                   edge = edge\<lparr>e_Count := e_Count edge + 1\<rparr>;
                   edge = edge\<lparr>e_TotalDuration := e_TotalDuration edge + duration\<rparr>;
                   edge = (if ce_Err event \<noteq> None then edge\<lparr>e_ErrorCount := e_ErrorCount edge + 1\<rparr> else edge)
               in (Some (r\<lparr>edges := AList.update key edge (edges r)\<rparr>),
                   if jsonlPath r \<noteq> [] then appendJSONL marshal failed (single_edge duration event) content else content))"

definition Snapshot :: "Recorder option \<Rightarrow> Edge list" where
  "Snapshot st = (case st of None \<Rightarrow> [] | Some r \<Rightarrow> sort_key (\<lambda>e. (e_From e, e_To e)) (map snd (edges r)))"

definition Reset :: "Recorder option \<Rightarrow> Recorder option" where
  "Reset st = map_option (\<lambda>r. r\<lparr>edges := []\<rparr>) st"

text \<open>\<open>ExportJSON\<close>: what it writes, or the error of the marshaller.\<close>

definition ExportJSON :: "(Edge list \<Rightarrow> string + string) \<Rightarrow> Recorder option \<Rightarrow> string + string" where
  "ExportJSON marshalIndent st = marshalIndent (Snapshot st)"

section \<open>Reading the file back\<close>

text \<open>
  \<open>bufio.Scanner\<close> with \<open>ScanLines\<close> and its buffer of 64 KiB: the lines, without a trailing carriage return, and whether
  it stopped at a line that does not fit.  \<open>acc\<close> is the line read so far.
\<close>

definition maxToken :: nat where "maxToken = 65536"

definition dropCR :: "string \<Rightarrow> string" where
  "dropCR line = (if line \<noteq> [] \<and> List.last line = CHR 0x0D then butlast line else line)"

fun scan :: "string \<Rightarrow> string \<Rightarrow> string list \<times> bool" where
  "scan acc [] = (if acc = [] then ([], False) else if length acc \<ge> maxToken then ([], True) else ([dropCR acc], False))"
| "scan acc (b # bytes) =
     (if b = CHR 0x0A
      then if length acc \<ge> maxToken then ([], True)
           else let (lines, tooLong) = scan [] bytes in (dropCR acc # lines, tooLong)
      else scan (acc @ [b]) bytes)"

definition merge_edge :: "Edge \<Rightarrow> (string \<times> Edge) list \<Rightarrow> (string \<times> Edge) list" where
  "merge_edge edge merged =
     (let key = edge_key (e_From edge) (e_To edge)
      in case map_of merged key of
           Some current \<Rightarrow> AList.update key (current\<lparr>e_Count := e_Count current + e_Count edge,
             e_ErrorCount := e_ErrorCount current + e_ErrorCount edge,
             e_TotalDuration := e_TotalDuration current + e_TotalDuration edge\<rparr>) merged
         | None \<Rightarrow> AList.update key edge merged)"

definition load_line :: "(string \<Rightarrow> Edge option) \<Rightarrow> string \<Rightarrow> (string \<times> Edge) list \<Rightarrow> (string \<times> Edge) list" where
  "load_line unmarshal line merged =
     (case unmarshal line of
        None \<Rightarrow> merged
      | Some edge \<Rightarrow> if e_From edge = [] \<or> e_To edge = [] then merged else merge_edge edge merged)"

text \<open>\<open>LoadJSONL\<close> on a file that can be opened or does not exist; the flag is \<open>scanner.Err() != nil\<close>.\<close>

definition LoadJSONL :: "(string \<Rightarrow> Edge option) \<Rightarrow> string option \<Rightarrow> Edge list \<times> bool" where
  "LoadJSONL unmarshal content =
     (case content of
        None \<Rightarrow> ([], False)
      | Some bytes \<Rightarrow>
          let (lines, tooLong) = scan [] bytes
          in (sort_key (\<lambda>e. e_From e @ e_To e) (map snd (fold (load_line unmarshal) lines [])), tooLong))"

section \<open>Recording is merging of single edges\<close>

lemma edge_updates: "e\<lparr>e_TotalDuration := d, e_ErrorCount := n\<rparr> = e\<lparr>e_ErrorCount := n, e_TotalDuration := d\<rparr>"
  by (cases e) simp

lemma on_call_merges:
  "\<not> ignored event \<Longrightarrow> OnCall marshal failed duration event (Some r, content) =
     (Some (r\<lparr>edges := merge_edge (single_edge duration event) (edges r)\<rparr>),
      if jsonlPath r \<noteq> [] then appendJSONL marshal failed (single_edge duration event) content else content)"
  by (simp add: OnCall_def merge_edge_def single_edge_def boolCount_def Let_def edge_updates split: option.split)

text \<open>
  A history is a list of calls, each with what becomes of its line of the file and its duration.  \<open>singles\<close> are the
  edges of the calls that are not ignored.
\<close>

type_synonym observed = "nat option option \<times> 64 word \<times> CallEvent"

fun rec_step :: "(Edge \<Rightarrow> string) \<Rightarrow> observed \<Rightarrow> Recorder option \<times> string option \<Rightarrow> Recorder option \<times> string option" where
  "rec_step marshal (failed, duration, event) = OnCall marshal failed duration event"

fun single_of :: "observed \<Rightarrow> Edge" where
  "single_of (failed, duration, event) = single_edge duration event"

definition singles :: "observed list \<Rightarrow> Edge list" where
  "singles evs = map single_of (filter (\<lambda>(_, _, event). \<not> ignored event) evs)"

definition key_of :: "Edge \<Rightarrow> string" where
  "key_of e = edge_key (e_From e) (e_To e)"

lemma rec_run:
  "\<exists>content. fold (rec_step marshal) evs (Some (rec_New path), None) =
     (Some \<lparr>edges = fold merge_edge (singles evs) [], jsonlPath = path\<rparr>, content)"
proof (induction evs rule: rev_induct)
  case Nil show ?case by (simp add: singles_def rec_New_def)
next
  case (snoc x evs)
  obtain failed d ev where x: "x = (failed, d, ev)" by (cases x)
  show ?case using snoc by (cases "ignored ev") (auto simp: x singles_def on_call_merges, simp add: OnCall_def)
qed

definition gather :: "Edge list \<Rightarrow> Edge" where
  "gather es = (hd es)\<lparr>e_Count := sum_list (map e_Count es), e_ErrorCount := sum_list (map e_ErrorCount es),
     e_TotalDuration := sum_list (map e_TotalDuration es)\<rparr>"

lemma gather_views [simp]: "e_From (gather es) = e_From (hd es)" "e_To (gather es) = e_To (hd es)"
  by (simp_all add: gather_def)

lemma gather_one: "gather [e] = e" by (cases e) (simp add: gather_def)

lemma gather_snoc: "es \<noteq> [] \<Longrightarrow> gather (es @ [e]) = (gather es)\<lparr>e_Count := e_Count (gather es) + e_Count e,
    e_ErrorCount := e_ErrorCount (gather es) + e_ErrorCount e, e_TotalDuration := e_TotalDuration (gather es) + e_TotalDuration e\<rparr>"
  by (cases es; cases "hd es") (simp_all add: gather_def)

lemma merged_lookup:
  "map_of (fold merge_edge es []) key = (let same = filter (\<lambda>e. key_of e = key) es in if same = [] then None else Some (gather same))"
proof (induction es arbitrary: key rule: rev_induct)
  case (snoc e es)
  have up: "merge_edge e m = AList.update (key_of e) (case map_of m (key_of e) of None \<Rightarrow> e | Some c \<Rightarrow>
      c\<lparr>e_Count := e_Count c + e_Count e, e_ErrorCount := e_ErrorCount c + e_ErrorCount e,
        e_TotalDuration := e_TotalDuration c + e_TotalDuration e\<rparr>) m" for m
    by (simp add: merge_edge_def key_of_def split: option.split)
  show ?case
  proof (cases "key_of e = key")
    case True
    then show ?thesis using snoc.IH [of key] by (simp add: up update_conv' gather_one gather_snoc Let_def)
  next
    case False
    then show ?thesis using snoc.IH [of key] by (simp add: up update_conv' Let_def)
  qed
qed simp

lemma merged_distinct: "distinct (map fst (fold merge_edge es []))"
proof (induction es rule: rev_induct)
  case (snoc e es)
  then show ?case by (simp add: merge_edge_def Let_def distinct_update split: option.split)
qed simp

lemma merged_key: "(k, e) \<in> set (fold merge_edge es []) \<Longrightarrow> key_of e = k \<and> filter (\<lambda>e. key_of e = k) es \<noteq> [] \<and> e = gather (filter (\<lambda>e. key_of e = k) es)"
proof -
  assume "(k, e) \<in> set (fold merge_edge es [])"
  then have "map_of (fold merge_edge es []) k = Some e" using merged_distinct by simp
  then have e: "filter (\<lambda>e. key_of e = k) es \<noteq> []" "e = gather (filter (\<lambda>e. key_of e = k) es)"
    unfolding merged_lookup by (auto simp: Let_def split: if_splits)
  have "hd (filter (\<lambda>e. key_of e = k) es) \<in> set (filter (\<lambda>e. key_of e = k) es)" using e(1) by (rule hd_in_set)
  then have "key_of (hd (filter (\<lambda>e. key_of e = k) es)) = k" by simp
  then show ?thesis using e by (simp add: key_of_def)
qed

lemma merged_pairs_distinct: "distinct (map (\<lambda>e. (e_From e, e_To e)) (map snd (fold merge_edge es [])))"
proof -
  have "map key_of (map snd (fold merge_edge es [])) = map fst (fold merge_edge es [])"
    using merged_key by (auto intro!: map_cong)
  then have "distinct (map key_of (map snd (fold merge_edge es [])))" using merged_distinct [of es] by (simp only:)
  moreover have "map key_of xs = map (\<lambda>(f, t). edge_key f t) (map (\<lambda>e. (e_From e, e_To e)) xs)" for xs by (simp add: key_of_def)
  ultimately have "distinct (map (\<lambda>(f, t). edge_key f t) (map (\<lambda>e. (e_From e, e_To e)) (map snd (fold merge_edge es []))))"
    by (simp only:)
  then show ?thesis unfolding distinct_map [of "\<lambda>(f, t). edge_key f t"] by (rule conjunct1)
qed

section \<open>What a snapshot says\<close>

definition calls :: "string \<Rightarrow> string \<Rightarrow> observed list \<Rightarrow> observed list" where
  "calls from to evs = filter (\<lambda>(_, _, event). \<not> ignored event \<and> caller_of event = from \<and> target_of event = to) evs"

definition totals :: "string \<Rightarrow> string \<Rightarrow> observed list \<Rightarrow> Edge" where
  "totals from to evs = \<lparr>e_From = from, e_To = to, e_Count = of_nat (length (calls from to evs)),
     e_ErrorCount = of_nat (length (filter (\<lambda>(_, _, event). ce_Err event \<noteq> None) (calls from to evs))),
     e_TotalDuration = sum_list (map (\<lambda>(_, duration, _). duration) (calls from to evs))\<rparr>"

definition unambiguous :: "Edge list \<Rightarrow> bool" where
  "unambiguous es \<longleftrightarrow> (\<forall>e \<in> set es. \<forall>e' \<in> set es. key_of e = key_of e' \<longrightarrow> e_From e = e_From e' \<and> e_To e = e_To e')"

lemma single_views [simp]:
  "e_From (single_of (failed, d, ev)) = caller_of ev" "e_To (single_of (failed, d, ev)) = target_of ev"
  "e_Count (single_of (failed, d, ev)) = 1" "e_TotalDuration (single_of (failed, d, ev)) = d"
  "e_ErrorCount (single_of (failed, d, ev)) = boolCount (ce_Err ev \<noteq> None)"
  by (simp_all add: single_edge_def)

lemma singles_of_pair: "filter (\<lambda>e. e_From e = f \<and> e_To e = t) (singles evs) = map single_of (calls f t evs)"
  by (induction evs) (auto simp: singles_def calls_def simp del: single_of.simps)

lemma sums_of_calls:
  "sum_list (map (e_Count \<circ> single_of) cs) = of_nat (length cs)"
  "sum_list (map (e_ErrorCount \<circ> single_of) cs) = of_nat (length (filter (\<lambda>(_, _, ev). ce_Err ev \<noteq> None) cs))"
  "map (e_TotalDuration \<circ> single_of) cs = map (\<lambda>(_, d, _). d) cs"
  by (induction cs) (auto simp: boolCount_def simp del: single_of.simps)

lemma gather_calls: "calls f t evs \<noteq> [] \<Longrightarrow> gather (map single_of (calls f t evs)) = totals f t evs"
proof -
  assume ne: "calls f t evs \<noteq> []"
  have "hd (calls f t evs) \<in> set (calls f t evs)" using ne by (rule hd_in_set)
  then have "e_From (single_of (hd (calls f t evs))) = f" "e_To (single_of (hd (calls f t evs))) = t"
    by (auto simp: calls_def simp del: single_of.simps)
  then show ?thesis using ne by (simp add: gather_def totals_def sums_of_calls hd_map)
qed

lemma same_key_same_pair:
  assumes "unambiguous es" and "e \<in> set es"
  shows "filter (\<lambda>x. key_of x = key_of e) es = filter (\<lambda>x. e_From x = e_From e \<and> e_To x = e_To e) es"
  using assms by (intro filter_cong) (auto simp: unambiguous_def key_of_def)

lemma merged_totals:
  assumes u: "unambiguous (singles evs)"
  shows "snd ` set (fold merge_edge (singles evs) []) = {totals f t evs | f t. calls f t evs \<noteq> []}"
proof (intro set_eqI iffI)
  fix x assume "x \<in> snd ` set (fold merge_edge (singles evs) [])"
  then obtain k where k: "(k, x) \<in> set (fold merge_edge (singles evs) [])" by auto
  from merged_key [OF k] have "filter (\<lambda>e. key_of e = k) (singles evs) \<noteq> []" by blast
  then obtain e where e: "e \<in> set (singles evs)" "key_of e = k"
    unfolding filter_empty_conv by blast
  let ?c = "calls (e_From e) (e_To e) evs"
  have f: "filter (\<lambda>x. key_of x = k) (singles evs) = map single_of ?c"
    using same_key_same_pair [OF u e(1)] unfolding e(2) singles_of_pair .
  then have "?c \<noteq> []" "x = gather (map single_of ?c)" using merged_key [OF k] by auto
  then show "x \<in> {totals f t evs | f t. calls f t evs \<noteq> []}" using gather_calls by blast
next
  fix x assume "x \<in> {totals f t evs | f t. calls f t evs \<noteq> []}"
  then obtain f t where ft: "x = totals f t evs" "calls f t evs \<noteq> []" by blast
  then have "filter (\<lambda>e. e_From e = f \<and> e_To e = t) (singles evs) \<noteq> []" unfolding singles_of_pair by simp
  then obtain e where e: "e \<in> set (singles evs)" "e_From e = f" "e_To e = t" unfolding filter_empty_conv by blast
  have s: "filter (\<lambda>x. key_of x = key_of e) (singles evs) = map single_of (calls f t evs)"
    using same_key_same_pair [OF u e(1)] singles_of_pair [of f t evs] unfolding e(2,3) by simp
  have "map_of (fold merge_edge (singles evs) []) (key_of e) = Some x"
    unfolding merged_lookup Let_def s using ft gather_calls by simp
  then have "snd (key_of e, x) \<in> snd ` set (fold merge_edge (singles evs) [])" by (intro imageI map_of_SomeD)
  then show "x \<in> snd ` set (fold merge_edge (singles evs) [])" unfolding snd_conv .
qed

text \<open>
  C40: A snapshot of the call graph is exact.  After any history of calls whose edges have different keys, whatever
  becomes of the file, it has one edge for each pair of a caller and a target with a recorded call, in strictly
  increasing order, with the number of their calls, of those that failed, and the sum of their durations, all
  modulo \<open>2^64\<close>.
\<close>

theorem snapshot_counts_calls:
  assumes "unambiguous (singles evs)"
  shows "set (Snapshot (fst (fold (rec_step marshal) evs (Some (rec_New path), None)))) =
      {totals f t evs | f t. calls f t evs \<noteq> []} \<and>
    sorted_wrt (<) (map (\<lambda>e. (e_From e, e_To e)) (Snapshot (fst (fold (rec_step marshal) evs (Some (rec_New path), None)))))"
proof -
  obtain content where r: "fold (rec_step marshal) evs (Some (rec_New path), None) =
      (Some \<lparr>edges = fold merge_edge (singles evs) [], jsonlPath = path\<rparr>, content)"
    using rec_run by blast
  let ?k = "\<lambda>e. (e_From e, e_To e)" and ?xs = "map snd (fold merge_edge (singles evs) [])"
  have "distinct (map ?k (sort_key ?k ?xs))"
    using merged_pairs_distinct [of "singles evs"] by (simp only: distinct_map distinct_sort set_sort simp_thms)
  then have "sorted_wrt (<) (map ?k (sort_key ?k ?xs))" unfolding strict_sorted_iff by (intro conjI sorted_sort_key)
  moreover have "set (sort_key ?k ?xs) = {totals f t evs | f t. calls f t evs \<noteq> []}"
    unfolding set_sort set_map by (rule merged_totals [OF assms])
  ultimately show ?thesis unfolding r Snapshot_def fst_conv option.case Recorder.select_convs by (intro conjI)
qed

definition demo_call :: "string \<Rightarrow> string \<Rightarrow> go_error option \<Rightarrow> CallEvent" where
  "demo_call from to err = \<lparr>ce_Caller = from, ce_Callee = to, ce_Protocol = ''get'', ce_Err = err\<rparr>"

definition demo_calls :: "observed list" where
  "demo_calls = [(None, 5, demo_call ''a'' ''b'' None), (None, 7, demo_call '''' ''b'' None), (None, 2, demo_call ''a'' ''b'' (Some ErrCallTimeout)),
     (None, 1, demo_call ''a'' '''' None)]"

definition demo_edge :: Edge where
  "demo_edge = \<lparr>e_From = ''a'', e_To = ''b.get'', e_Count = 2, e_ErrorCount = 1, e_TotalDuration = 7\<rparr>"

lemma demo_singles: "singles demo_calls =
    [\<lparr>e_From = ''a'', e_To = ''b.get'', e_Count = 1, e_ErrorCount = 0, e_TotalDuration = 5\<rparr>,
     \<lparr>e_From = ''<external>'', e_To = ''b.get'', e_Count = 1, e_ErrorCount = 0, e_TotalDuration = 7\<rparr>,
     \<lparr>e_From = ''a'', e_To = ''b.get'', e_Count = 1, e_ErrorCount = 1, e_TotalDuration = 2\<rparr>]"
  by (simp add: singles_def demo_calls_def demo_call_def ignored_def single_edge_def caller_of_def target_of_def boolCount_def)

theorem snapshot_counts_calls_witness:
  "demo_edge \<in> set (Snapshot (fst (fold (rec_step (\<lambda>_. [])) demo_calls (Some (rec_New ''''), None))))"
proof -
  have "unambiguous (singles demo_calls)" by (simp add: demo_singles unambiguous_def key_of_def edge_key_def)
  from snapshot_counts_calls [OF this] have "totals ''a'' ''b.get'' demo_calls \<in> set (Snapshot (fst (fold (rec_step (\<lambda>_. [])) demo_calls (Some (rec_New ''''), None))))
      \<longleftrightarrow> (\<exists>f t. totals ''a'' ''b.get'' demo_calls = totals f t demo_calls \<and> calls f t demo_calls \<noteq> [])" by simp
  moreover have "calls ''a'' ''b.get'' demo_calls \<noteq> []" "totals ''a'' ''b.get'' demo_calls = demo_edge"
    by (simp_all add: totals_def demo_edge_def calls_def demo_calls_def demo_call_def ignored_def caller_of_def target_of_def)
  ultimately show ?thesis by auto
qed

text \<open>
  Two edges can share a key.  The caller \<open>a->b\<close> of \<open>c\<close> and the caller \<open>a\<close> of \<open>b->c\<close> are recorded as one edge,
  under the names of the first.
\<close>

theorem ambiguous_edges_merged:
  "Snapshot (fst (fold (rec_step marshal) [(None, 1, demo_call ''a->b'' ''c'' None), (None, 2, demo_call ''a'' ''b->c'' None)]
       (Some (rec_New ''''), None))) =
   [\<lparr>e_From = ''a->b'', e_To = ''c.get'', e_Count = 2, e_ErrorCount = 0, e_TotalDuration = 3\<rparr>]"
proof -
  obtain content where "fold (rec_step marshal) [(None, 1, demo_call ''a->b'' ''c'' None), (None, 2, demo_call ''a'' ''b->c'' None)]
      (Some (rec_New ''''), None) = (Some \<lparr>edges = fold merge_edge
        (singles [(None, 1, demo_call ''a->b'' ''c'' None), (None, 2, demo_call ''a'' ''b->c'' None)]) [], jsonlPath = ''''\<rparr>, content)"
    using rec_run by blast
  moreover have "map snd (fold merge_edge (singles [(None, 1, demo_call ''a->b'' ''c'' None), (None, 2, demo_call ''a'' ''b->c'' None)]) []) =
      [\<lparr>e_From = ''a->b'', e_To = ''c.get'', e_Count = 2, e_ErrorCount = 0, e_TotalDuration = 3\<rparr>]"
    by (simp add: singles_def demo_call_def ignored_def single_edge_def caller_of_def target_of_def boolCount_def merge_edge_def edge_key_def)
  ultimately show ?thesis by (simp add: Snapshot_def)
qed

section \<open>The file has what the recorder has\<close>

text \<open>
  What is relied on of the JSON library for the edges in question: an edge is read back as it was written, and its text
  is one line of less than 64 KiB.
\<close>

definition json_ok :: "(Edge \<Rightarrow> string) \<Rightarrow> (string \<Rightarrow> Edge option) \<Rightarrow> Edge list \<Rightarrow> bool" where
  "json_ok marshal unmarshal es \<longleftrightarrow>
     (\<forall>e \<in> set es. unmarshal (marshal e) = Some e \<and> CHR 0x0A \<notin> set (marshal e) \<and> dropCR (marshal e) = marshal e \<and>
        length (marshal e) < maxToken)"

definition file_of :: "(Edge \<Rightarrow> string) \<Rightarrow> Edge list \<Rightarrow> string" where
  "file_of marshal es = concat (map (\<lambda>e. marshal e @ [CHR 0x0A]) es)"

lemma scan_line: "CHR 0x0A \<notin> set line \<Longrightarrow> length (acc @ line) < maxToken \<Longrightarrow>
    scan acc (line @ CHR 0x0A # bytes) = (dropCR (acc @ line) # fst (scan [] bytes), snd (scan [] bytes))"
  by (induction line arbitrary: acc) (auto simp: split_def Let_def)

lemma scan_file: "json_ok marshal unmarshal es \<Longrightarrow> scan [] (file_of marshal es) = (map marshal es, False)"
  by (induction es) (simp_all add: file_of_def json_ok_def scan_line)

lemma load_lines: "json_ok marshal unmarshal es \<Longrightarrow> (\<forall>e \<in> set es. e_From e \<noteq> [] \<and> e_To e \<noteq> []) \<Longrightarrow>
    fold (load_line unmarshal) (map marshal es) m = fold merge_edge es m"
  by (induction es arbitrary: m) (simp_all add: json_ok_def load_line_def)

lemma singles_named: "e \<in> set (singles evs) \<Longrightarrow> e_From e \<noteq> [] \<and> e_To e \<noteq> []"
  by (auto simp: singles_def caller_of_def target_of_def simp del: single_of.simps split: if_splits)

lemma rec_file:
  assumes "path \<noteq> []" and "\<forall>x \<in> set evs. fst x = None"
  shows "fold (rec_step marshal) evs (Some (rec_New path), None) =
    (Some \<lparr>edges = fold merge_edge (singles evs) [], jsonlPath = path\<rparr>,
     if singles evs = [] then None else Some (file_of marshal (singles evs)))"
  using assms(2)
proof (induction evs rule: rev_induct)
  case Nil show ?case by (simp add: singles_def rec_New_def)
next
  case (snoc x evs)
  obtain d ev where x: "x = (None, d, ev)" using snoc.prems by (cases x) auto
  have s: "singles (evs @ [x]) = (if ignored ev then singles evs else singles evs @ [single_edge d ev])" by (simp add: singles_def x)
  show ?case
  proof (cases "ignored ev")
    case True
    then show ?thesis using snoc unfolding s by (simp add: x OnCall_def)
  next
    case False
    then show ?thesis using snoc assms(1) unfolding s by (simp add: x on_call_merges appendJSONL_def file_of_def Let_def)
  qed
qed


definition demo_marshal :: "Edge \<Rightarrow> string" where
  "demo_marshal e = (if e_ErrorCount e = 1 then ''E'' else ''e'') @ e_From e"

definition demo_unmarshal :: "string \<Rightarrow> Edge option" where
  "demo_unmarshal line = find (\<lambda>e. demo_marshal e = line) (singles demo_calls)"


end
