(* ===== verification/App_Runtime.thy ===== *)
theory App_Runtime
  imports Sky_Prelude
begin

text \<open>
  The application runtime of \<open>app/runtime.go\<close>.  A component is a pair of functions on an environment of
  type \<open>'w\<close> that return an error text or \<open>None\<close>; every call is also appended to a log.  An error value is
  a list, \<open>[]\<close> for nil and append for \<open>errors.Join\<close>.  The whole operations come first; then the same code
  cut at its critical sections, for threads that interleave.
\<close>

record 'w Component =
  StartFn :: "'w \<Rightarrow> string option \<times> 'w"
  StopFn :: "'w \<Rightarrow> string option \<times> 'w"

record 'w ComponentFuncs =
  StartFunc :: "('w \<Rightarrow> string option \<times> 'w) option"
  StopFunc :: "('w \<Rightarrow> string option \<times> 'w) option"

definition ComponentFuncs_Start :: "'w ComponentFuncs \<Rightarrow> 'w \<Rightarrow> string option \<times> 'w" where
  "ComponentFuncs_Start c v = (case StartFunc c of None \<Rightarrow> (None, v) | Some f \<Rightarrow> f v)"

definition ComponentFuncs_Stop :: "'w ComponentFuncs \<Rightarrow> 'w \<Rightarrow> string option \<times> 'w" where
  "ComponentFuncs_Stop c v = (case StopFunc c of None \<Rightarrow> (None, v) | Some f \<Rightarrow> f v)"

definition component_of :: "'w ComponentFuncs \<Rightarrow> 'w Component" where
  "component_of c = \<lparr>StartFn = ComponentFuncs_Start c, StopFn = ComponentFuncs_Stop c\<rparr>"

record 'w app_entry =
  entry_name :: string
  entry_component :: "'w Component"

record 'w Runtime =
  entries :: "'w app_entry list"
  started :: nat
  app_ready :: bool
  app_stopped :: bool

definition zero_Runtime :: "'w Runtime" where
  "zero_Runtime = \<lparr>entries = [], started = 0, app_ready = False, app_stopped = False\<rparr>"

datatype app_error =
    InvalidComponent | RuntimeAlreadyStarted | DuplicateComponent string | RuntimeCannotStart
  | StartFailed string string | StopFailed string string

text \<open>A call of a component's Start or Stop, with whether it returned nil.\<close>

datatype app_call = StartCall string bool | StopCall string bool

record 'w World =
  env :: 'w
  calls :: "app_call list"

definition call_Start :: "'w app_entry \<Rightarrow> 'w World \<Rightarrow> string option \<times> 'w World" where
  "call_Start e w = (let (err, v) = StartFn (entry_component e) (env w)
     in (err, \<lparr>env = v, calls = calls w @ [StartCall (entry_name e) (err = None)]\<rparr>))"

definition call_Stop :: "'w app_entry \<Rightarrow> 'w World \<Rightarrow> string option \<times> 'w World" where
  "call_Stop e w = (let (err, v) = StopFn (entry_component e) (env w)
     in (err, \<lparr>env = v, calls = calls w @ [StopCall (entry_name e) (err = None)]\<rparr>))"

definition app_Add :: "string \<Rightarrow> 'w Component option \<Rightarrow> 'w Runtime \<Rightarrow> app_error list \<times> 'w Runtime" where
  "app_Add name oc r =
     (case oc of
        None \<Rightarrow> ([InvalidComponent], r)
      | Some c \<Rightarrow>
          if name = '''' then ([InvalidComponent], r)
          else if started r \<noteq> 0 \<or> app_ready r \<or> app_stopped r then ([RuntimeAlreadyStarted], r)
          else if name \<in> entry_name ` set (entries r) then ([DuplicateComponent name], r)
          else ([], r\<lparr>entries := entries r @ [\<lparr>entry_name = name, entry_component = c\<rparr>]\<rparr>))"

text \<open>The loop of \<open>stopStarted\<close>, over the entries in the order they are stopped.\<close>

primrec stop_loop :: "'w app_entry list \<Rightarrow> 'w World \<Rightarrow> app_error list \<times> 'w World" where
  "stop_loop [] w = ([], w)"
| "stop_loop (e # es) w =
     (let (err, w1) = call_Stop e w;
          (errs, w2) = stop_loop es w1
      in ((case err of None \<Rightarrow> [] | Some x \<Rightarrow> [StopFailed (entry_name e) x]) @ errs, w2))"

definition stopStarted :: "'w Runtime \<Rightarrow> 'w World \<Rightarrow> app_error list \<times> 'w Runtime \<times> 'w World" where
  "stopStarted r w =
     (let (errs, w') = stop_loop (rev (take (started r) (entries r))) w in (errs, r\<lparr>started := 0\<rparr>, w'))"

primrec start_loop :: "'w app_entry list \<Rightarrow> nat \<Rightarrow> 'w Runtime \<Rightarrow> 'w World \<Rightarrow> app_error list \<times> 'w Runtime \<times> 'w World" where
  "start_loop [] i r w = ([], r\<lparr>app_ready := True\<rparr>, w)"
| "start_loop (e # es) i r w =
     (case call_Start e w of
        (Some err, w1) \<Rightarrow>
          (let (errs, r2, w2) = stopStarted (r\<lparr>started := i\<rparr>) w1
           in (StartFailed (entry_name e) err # errs, r2, w2))
      | (None, w1) \<Rightarrow> start_loop es (Suc i) (r\<lparr>started := Suc i\<rparr>) w1)"

definition app_Start :: "'w Runtime \<Rightarrow> 'w World \<Rightarrow> app_error list \<times> 'w Runtime \<times> 'w World" where
  "app_Start r w =
     (if started r \<noteq> 0 \<or> app_ready r \<or> app_stopped r then ([RuntimeCannotStart], r, w)
      else start_loop (entries r) 0 r w)"

definition app_Ready :: "'w Runtime \<Rightarrow> bool" where
  "app_Ready r \<longleftrightarrow> app_ready r \<and> \<not> app_stopped r"

definition app_Stop :: "'w Runtime \<Rightarrow> 'w World \<Rightarrow> app_error list \<times> 'w Runtime \<times> 'w World" where
  "app_Stop r w =
     (if app_stopped r then ([], r, w) else stopStarted (r\<lparr>app_stopped := True, app_ready := False\<rparr>) w)"

text \<open>
  \<open>Run\<close>, with the change \<open>wait\<close> of the environment up to the signal, and the clamped shutdown timeout
  handed to \<open>Stop\<close> by installing it in the environment.
\<close>

definition app_Run ::
  "('w \<Rightarrow> 'w) \<Rightarrow> (int \<Rightarrow> 'w \<Rightarrow> 'w) \<Rightarrow> int \<Rightarrow> 'w Runtime \<Rightarrow> 'w World \<Rightarrow> app_error list \<times> 'w Runtime \<times> 'w World" where
  "app_Run wait withTimeout shutdownTimeout r w =
     (let limit = (if shutdownTimeout \<le> 0 then 15 * 1000000000 else shutdownTimeout);
          (errs, r1, w1) = app_Start r w
      in if errs \<noteq> [] then (errs, r1, w1)
         else app_Stop r1 (w1\<lparr>env := withTimeout limit (wait (env w1))\<rparr>))"

text \<open>
  A thread inside \<open>Start\<close> or \<open>Stop\<close>: the constructors are the points between its critical sections and
  its calls of a component.
\<close>

datatype 'w app_thread =
    StartAt "'w app_entry list" nat
  | StartedAt "'w app_entry list" nat
  | FailedAt app_error nat
  | TakeStarted "app_error list"
  | StopLoop "'w app_entry list" "app_error list"
  | Returned "app_error list"

fun thread_step :: "'w app_thread \<times> 'w Runtime \<times> 'w World \<Rightarrow> 'w app_thread \<times> 'w Runtime \<times> 'w World" where
  "thread_step (StartAt [] i, r, w) = (Returned [], r\<lparr>app_ready := True\<rparr>, w)"
| "thread_step (StartAt (e # es) i, r, w) =
     (case call_Start e w of
        (Some err, w1) \<Rightarrow> (FailedAt (StartFailed (entry_name e) err) i, r, w1)
      | (None, w1) \<Rightarrow> (StartedAt es i, r, w1))"
| "thread_step (StartedAt es i, r, w) = (StartAt es (Suc i), r\<lparr>started := Suc i\<rparr>, w)"
| "thread_step (FailedAt err i, r, w) = (TakeStarted [err], r\<lparr>started := i\<rparr>, w)"
| "thread_step (TakeStarted errs, r, w) =
     (StopLoop (rev (take (started r) (entries r))) errs, r\<lparr>started := 0\<rparr>, w)"
| "thread_step (StopLoop [] errs, r, w) = (Returned errs, r, w)"
| "thread_step (StopLoop (e # es) errs, r, w) =
     (let (err, w1) = call_Stop e w
      in (StopLoop es (errs @ (case err of None \<Rightarrow> [] | Some x \<Rightarrow> [StopFailed (entry_name e) x])), r, w1))"
| "thread_step (Returned errs, r, w) = (Returned errs, r, w)"

text \<open>The first critical sections of \<open>Start\<close> and \<open>Stop\<close>, as they enter.\<close>

definition enter_Start :: "'w Runtime \<Rightarrow> 'w app_thread \<times> 'w Runtime" where
  "enter_Start r =
     (if started r \<noteq> 0 \<or> app_ready r \<or> app_stopped r then (Returned [RuntimeCannotStart], r)
      else (StartAt (entries r) 0, r))"

definition enter_Stop :: "'w Runtime \<Rightarrow> 'w app_thread \<times> 'w Runtime" where
  "enter_Stop r =
     (if app_stopped r then (Returned [], r)
      else (TakeStarted [], r\<lparr>app_stopped := True, app_ready := False\<rparr>))"

definition thread_steps :: "nat \<Rightarrow> 'w app_thread \<times> 'w Runtime \<times> 'w World \<Rightarrow> 'w app_thread \<times> 'w Runtime \<times> 'w World" where
  "thread_steps n = thread_step ^^ n"

section \<open>What the whole operations call\<close>

fun start_names :: "app_call list \<Rightarrow> string list" where
  "start_names [] = []"
| "start_names (StartCall n True # cs) = n # start_names cs"
| "start_names (_ # cs) = start_names cs"

fun stop_names :: "app_call list \<Rightarrow> string list" where
  "stop_names [] = []"
| "stop_names (StopCall n ok # cs) = n # stop_names cs"
| "stop_names (_ # cs) = stop_names cs"

lemma start_names_append [simp]: "start_names (xs @ ys) = start_names xs @ start_names ys"
  by (induction xs rule: start_names.induct) auto

lemma stop_names_append [simp]: "stop_names (xs @ ys) = stop_names xs @ stop_names ys"
  by (induction xs rule: stop_names.induct) auto

lemma stop_loop_calls:
  "stop_loop es w = (errs, w') \<Longrightarrow>
     \<exists>cs. calls w' = calls w @ cs \<and> stop_names cs = map entry_name es \<and> start_names cs = [] \<and>
          (errs = [] \<longleftrightarrow> (\<forall>n. StopCall n False \<notin> set cs))"
proof (induction es arbitrary: w errs)
  case (Cons e es)
  obtain err v where st: "StopFn (entry_component e) (env w) = (err, v)" by (cases "StopFn (entry_component e) (env w)")
  let ?w1 = "\<lparr>env = v, calls = calls w @ [StopCall (entry_name e) (err = None)]\<rparr>"
  obtain errs2 where l: "stop_loop es ?w1 = (errs2, w')"
    and errs: "errs = (case err of None \<Rightarrow> [] | Some x \<Rightarrow> [StopFailed (entry_name e) x]) @ errs2"
    using Cons.prems st by (auto simp: call_Stop_def split: prod.splits)
  from Cons.IH [OF l] obtain cs where "calls w' = calls ?w1 @ cs" "stop_names cs = map entry_name es"
    "start_names cs = []" "errs2 = [] \<longleftrightarrow> (\<forall>n. StopCall n False \<notin> set cs)" by blast
  then show ?case using errs
    by (intro exI [of _ "StopCall (entry_name e) (err = None) # cs"]) (auto split: option.splits)
qed simp

lemma stopStarted_calls:
  assumes "stopStarted r w = (errs, r', w')"
  shows "\<exists>cs. calls w' = calls w @ cs \<and> stop_names cs = rev (map entry_name (take (started r) (entries r))) \<and>
     start_names cs = [] \<and> r' = r\<lparr>started := 0\<rparr>"
proof -
  obtain w'' where "stop_loop (rev (take (started r) (entries r))) w = (errs, w'')" and "w' = w''" "r' = r\<lparr>started := 0\<rparr>"
    using assms by (auto simp: stopStarted_def split: prod.splits)
  with stop_loop_calls [OF this(1)] show ?thesis by (auto simp: rev_map)
qed

lemma start_loop_calls:
  assumes "start_loop es i r w = (errs, r', w')" and "entries r = xs @ es" and "length xs = i" and "started r = i"
  shows "\<exists>cs k. calls w' = calls w @ cs \<and> k \<le> length es \<and> start_names cs = map entry_name (take k es) \<and>
     (if errs = [] then k = length es \<and> stop_names cs = [] \<and> r' = r\<lparr>started := length (entries r), app_ready := True\<rparr>
      else stop_names cs = rev (map entry_name (xs @ take k es)) \<and> r' = r\<lparr>started := 0\<rparr>)"
  using assms
proof (induction es arbitrary: i r w xs)
  case Nil
  then show ?case by (intro exI [of _ "[]"] exI [of _ 0]) auto
next
  case (Cons e es)
  obtain err v where st: "StartFn (entry_component e) (env w) = (err, v)"
    by (cases "StartFn (entry_component e) (env w)")
  let ?w1 = "\<lparr>env = v, calls = calls w @ [StartCall (entry_name e) (err = None)]\<rparr>"
  show ?case
  proof (cases err)
    case None
    then have "start_loop es (Suc i) (r\<lparr>started := Suc i\<rparr>) ?w1 = (errs, r', w')"
      using Cons.prems(1) st by (simp add: call_Start_def)
    from Cons.IH [OF this, of "xs @ [e]"] Cons.prems(2,3) obtain cs k where cs:
      "calls w' = calls ?w1 @ cs" "k \<le> length es" "start_names cs = map entry_name (take k es)"
      "if errs = [] then k = length es \<and> stop_names cs = [] \<and> r' = r\<lparr>started := length (entries r), app_ready := True\<rparr>
       else stop_names cs = rev (map entry_name ((xs @ [e]) @ take k es)) \<and> r' = r\<lparr>started := 0\<rparr>"
      by auto
    then show ?thesis using None
      by (intro exI [of _ "StartCall (entry_name e) True # cs"] exI [of _ "Suc k"]) (auto split: if_splits)
  next
    case (Some x)
    obtain errs2 where s: "stopStarted (r\<lparr>started := i\<rparr>) ?w1 = (errs2, r', w')" "errs = StartFailed (entry_name e) x # errs2"
      using Cons.prems(1) st Some by (auto simp: call_Start_def split: prod.splits)
    from stopStarted_calls [OF s(1)] obtain cs where "calls w' = calls ?w1 @ cs"
      "stop_names cs = rev (map entry_name (take i (entries r)))" "start_names cs = []" "r' = r\<lparr>started := 0\<rparr>"
      by auto
    then show ?thesis using Some s(2) Cons.prems(2,3)
      by (intro exI [of _ "StartCall (entry_name e) False # cs"] exI [of _ 0]) auto
  qed
qed

text \<open>A runtime that only \<open>Add\<close> has touched.\<close>

definition app_built :: "(string \<times> 'w Component option) list \<Rightarrow> 'w Runtime" where
  "app_built cs = fold (\<lambda>(n, c) r. snd (app_Add n c r)) cs zero_Runtime"

definition fresh :: "'w Runtime \<Rightarrow> bool" where
  "fresh r \<longleftrightarrow> started r = 0 \<and> \<not> app_ready r \<and> \<not> app_stopped r \<and> distinct (map entry_name (entries r))"

lemma fresh_Add: "fresh r \<Longrightarrow> fresh (snd (app_Add n c r))"
  by (auto simp: fresh_def app_Add_def split: option.splits)

lemma fresh_built: "fresh (app_built cs)"
proof -
  have "fresh r \<Longrightarrow> fresh (fold (\<lambda>(n, c) r. snd (app_Add n c r)) cs r)" for r :: "'a Runtime"
    by (induction cs arbitrary: r) (auto simp: fresh_Add)
  moreover have "fresh zero_Runtime" by (simp add: fresh_def zero_Runtime_def)
  ultimately show ?thesis by (simp add: app_built_def)
qed


definition demo_component :: "string option \<Rightarrow> nat Component" where
  "demo_component err = component_of \<lparr>StartFunc = Some (\<lambda>v. (err, Suc v)), StopFunc = None\<rparr>"

definition demo_app :: "(string \<times> nat Component option) list" where
  "demo_app = [(''a'', Some (demo_component None)), (''b'', Some (demo_component (Some ''x''))), (''c'', None)]"


section \<open>Threads\<close>

lemma thread_steps_Suc: "thread_steps (Suc n) s = thread_steps n (thread_step s)"
  by (simp add: thread_steps_def funpow_Suc_right del: funpow.simps)

lemma thread_steps_last: "thread_steps (Suc n) s = thread_step (thread_steps n s)"
  by (simp add: thread_steps_def)

lemma thread_steps_0 [simp]: "thread_steps 0 s = s"
  by (simp add: thread_steps_def)

lemma stop_loop_alone:
  "thread_steps (Suc (length es)) (StopLoop es errs, r, w) =
     (case stop_loop es w of (errs2, w') \<Rightarrow> (Returned (errs @ errs2), r, w'))"
  by (induction es arbitrary: errs w) (auto simp: thread_steps_Suc split: prod.splits)

lemma stopStarted_alone:
  "\<exists>n. thread_steps n (TakeStarted errs, r, w) =
     (case stopStarted r w of (errs2, r', w') \<Rightarrow> (Returned (errs @ errs2), r', w'))"
proof
  show "thread_steps (Suc (Suc (length (rev (take (started r) (entries r)))))) (TakeStarted errs, r, w) =
     (case stopStarted r w of (errs2, r', w') \<Rightarrow> (Returned (errs @ errs2), r', w'))"
    by (subst thread_steps_Suc) (simp only: thread_step.simps stop_loop_alone stopStarted_def split: prod.splits, simp)
qed

lemma start_loop_alone:
  "\<exists>n. thread_steps n (StartAt es i, r, w) =
     (case start_loop es i r w of (errs, r', w') \<Rightarrow> (Returned errs, r', w'))"
proof (induction es arbitrary: i r w)
  case Nil
  show ?case by (rule exI [of _ "Suc 0"]) (simp add: thread_steps_Suc)
next
  case (Cons e es)
  obtain err w1 where c: "call_Start e w = (err, w1)" by (cases "call_Start e w")
  show ?case
  proof (cases err)
    case None
    from Cons.IH obtain n where "thread_steps n (StartAt es (Suc i), r\<lparr>started := Suc i\<rparr>, w1) =
      (case start_loop es (Suc i) (r\<lparr>started := Suc i\<rparr>) w1 of (errs, r', w') \<Rightarrow> (Returned errs, r', w'))" by blast
    then show ?thesis using c None by (intro exI [of _ "Suc (Suc n)"]) (simp add: thread_steps_Suc)
  next
    case (Some x)
    from stopStarted_alone obtain n where
      "thread_steps n (TakeStarted [StartFailed (entry_name e) x], r\<lparr>started := i\<rparr>, w1) =
       (case stopStarted (r\<lparr>started := i\<rparr>) w1 of (errs2, r', w') \<Rightarrow> (Returned ([StartFailed (entry_name e) x] @ errs2), r', w'))"
      by blast
    then show ?thesis using c Some
      by (intro exI [of _ "Suc (Suc n)"]) (simp add: thread_steps_Suc split: prod.splits)
  qed
qed

text \<open>A thread that nobody disturbs does what the whole operation does.\<close>

lemma Start_alone:
  "\<exists>n. thread_steps n (fst (enter_Start r), snd (enter_Start r), w) =
     (case app_Start r w of (errs, r', w') \<Rightarrow> (Returned errs, r', w'))"
  using start_loop_alone [of "entries r" 0 r w] by (auto simp: enter_Start_def app_Start_def intro: exI [of _ 0])

lemma Stop_alone:
  "\<exists>n. thread_steps n (fst (enter_Stop r), snd (enter_Stop r), w) =
     (case app_Stop r w of (errs, r', w') \<Rightarrow> (Returned errs, r', w'))"
  using stopStarted_alone [of "[]" "r\<lparr>app_stopped := True, app_ready := False\<rparr>" w]
  by (auto simp: enter_Stop_def app_Stop_def intro: exI [of _ 0])

definition starts_ok :: "'w app_entry \<Rightarrow> bool" where
  "starts_ok e \<longleftrightarrow> (\<forall>v. fst (StartFn (entry_component e) v) = None)"

lemma start_prefix:
  assumes "list_all starts_ok xs"
  shows "\<exists>w'. thread_steps (2 * length xs) (StartAt (xs @ ys) i, r, w) =
      (StartAt ys (i + length xs), if xs = [] then r else r\<lparr>started := i + length xs\<rparr>, w') \<and>
    calls w' = calls w @ map (\<lambda>e. StartCall (entry_name e) True) xs"
  using assms
proof (induction xs arbitrary: i r w)
  case (Cons e xs)
  then have "fst (StartFn (entry_component e) (env w)) = None" by (simp add: starts_ok_def)
  then obtain v where st: "StartFn (entry_component e) (env w) = (None, v)" by (metis prod.collapse)
  let ?w1 = "\<lparr>env = v, calls = calls w @ [StartCall (entry_name e) True]\<rparr>"
  have "thread_steps (2 * length (e # xs)) (StartAt ((e # xs) @ ys) i, r, w)
      = thread_steps (2 * length xs) (StartAt (xs @ ys) (Suc i), r\<lparr>started := Suc i\<rparr>, ?w1)"
    by (simp add: thread_steps_Suc call_Start_def st)
  moreover from Cons.IH [of "Suc i" "r\<lparr>started := Suc i\<rparr>" ?w1] Cons.prems obtain w' where
    "thread_steps (2 * length xs) (StartAt (xs @ ys) (Suc i), r\<lparr>started := Suc i\<rparr>, ?w1) =
      (StartAt ys (Suc i + length xs), if xs = [] then r\<lparr>started := Suc i\<rparr> else r\<lparr>started := Suc i + length xs\<rparr>, w')"
    "calls w' = calls ?w1 @ map (\<lambda>e. StartCall (entry_name e) True) xs" by auto
  ultimately show ?case by (intro exI [of _ w']) auto
qed simp

lemma start_names_oks [simp]: "start_names (map (\<lambda>e. StartCall (f e) True) xs) = map f xs"
  by (induction xs) auto

lemma stop_names_oks [simp]: "stop_names (map (\<lambda>e. StartCall (f e) True) xs) = []"
  by (induction xs) auto

text \<open>
  A Stop that runs while Start is between two components loses the rest.  Let Start bring up the
  components \<open>xs\<close>, let Stop run to its end, and let Start go on: Stop stops \<open>xs\<close> in reverse order, Start
  still starts all of \<open>ys\<close> and returns nil, the runtime is not ready, and every later Stop returns nil
  without calling any component, so the components \<open>ys\<close> are never stopped.
\<close>

theorem stop_during_start_leaves_running:
  assumes "entries (app_built cs) = xs @ ys" and "list_all starts_ok (xs @ ys)"
    and "thread_steps (2 * length xs) (fst (enter_Start (app_built cs)), snd (enter_Start (app_built cs)), w) = (t, r1, w1)"
    and "app_Stop r1 w1 = (errs, r2, w2)"
    and "thread_steps (Suc (2 * length ys)) (t, r2, w2) = (t3, r3, w3)"
  shows "\<exists>log. calls w3 = calls w @ log \<and> start_names log = map entry_name (xs @ ys) \<and>
     stop_names log = rev (map entry_name xs) \<and> t3 = Returned [] \<and> \<not> app_Ready r3 \<and>
     app_Stop r3 w4 = ([], r3, w4)"
proof -
  let ?r = "app_built cs"
  have fr: "started ?r = 0" "\<not> app_ready ?r" "\<not> app_stopped ?r" using fresh_built by (auto simp: fresh_def)
  then have "enter_Start ?r = (StartAt (xs @ ys) 0, ?r)" by (simp add: enter_Start_def assms(1))
  with start_prefix [of xs ys 0 ?r w] assms(2,3) have one: "t = StartAt ys (length xs)"
    "started r1 = length xs" "entries r1 = xs @ ys" "\<not> app_stopped r1"
    "calls w1 = calls w @ map (\<lambda>e. StartCall (entry_name e) True) xs"
    using fr assms(1) by (auto split: if_splits)
  have "stopStarted (r1\<lparr>app_stopped := True, app_ready := False\<rparr>) w1 = (errs, r2, w2)"
    using assms(4) one(4) by (simp add: app_Stop_def)
  from stopStarted_calls [OF this] one(2,3) obtain log where two: "calls w2 = calls w1 @ log"
    "stop_names log = rev (map entry_name xs)" "start_names log = []" "app_stopped r2" by auto
  from start_prefix [of ys "[]" "length xs" r2 w2] assms(2,5) one(1) have three: "t3 = Returned []" "app_stopped r3"
    "calls w3 = calls w2 @ map (\<lambda>e. StartCall (entry_name e) True) ys"
    using two(4) by (auto simp: thread_steps_last split: if_splits)
  show ?thesis using one(5) two three by (auto simp: app_Ready_def app_Stop_def)
qed

definition demo_app_ok :: "(string \<times> nat Component option) list" where
  "demo_app_ok = [(''a'', Some (demo_component None)), (''b'', Some (demo_component None))]"

theorem stop_during_start_leaves_running_witness:
  "\<exists>xs ys t r1 w1 r2 w2 r3 w3. entries (app_built demo_app_ok) = xs @ ys \<and> map entry_name ys = [''b''] \<and>
     thread_steps 2 (fst (enter_Start (app_built demo_app_ok)), snd (enter_Start (app_built demo_app_ok)), \<lparr>env = 0, calls = []\<rparr>)
       = (t, r1, w1) \<and> app_Stop r1 w1 = ([], r2, w2) \<and> thread_steps 3 (t, r2, w2) = (Returned [], r3, w3) \<and>
     start_names (calls w3) = [''a'', ''b''] \<and> stop_names (calls w3) = [''a''] \<and> app_Stop r3 w3 = ([], r3, w3)"
proof -
  let ?w = "\<lparr>env = 0, calls = []\<rparr>" and ?r = "app_built demo_app_ok"
  let ?e = "\<lambda>n. \<lparr>entry_name = n, entry_component = demo_component None\<rparr>"
  have split: "entries ?r = [?e ''a''] @ [?e ''b'']"
    by (simp add: app_built_def demo_app_ok_def app_Add_def zero_Runtime_def)
  have ok: "list_all starts_ok ([?e ''a''] @ [?e ''b''])"
    by (simp add: starts_ok_def demo_component_def component_of_def ComponentFuncs_Start_def)
  obtain t r1 w1 where a: "thread_steps 2 (fst (enter_Start ?r), snd (enter_Start ?r), ?w) = (t, r1, w1)"
    by (metis prod.exhaust)
  obtain errs r2 w2 where b: "app_Stop r1 w1 = (errs, r2, w2)" by (metis prod.exhaust)
  obtain t3 r3 w3 where c: "thread_steps 3 (t, r2, w2) = (t3, r3, w3)" by (metis prod.exhaust)
  have "fst (let (t, r1, w1) = thread_steps 2 (fst (enter_Start ?r), snd (enter_Start ?r), ?w) in app_Stop r1 w1) = []"
    by code_simp
  then have "errs = []" by (simp add: a b)
  then show ?thesis
    using stop_during_start_leaves_running [OF split ok, of ?w t r1 w1 errs r2 w2 t3 r3 w3 w3] a b c split
    by (intro exI [of _ "[?e ''a'']"] exI [of _ "[?e ''b'']"] exI [of _ t] exI [of _ r1] exI [of _ w1]
        exI [of _ r2] exI [of _ w2] exI [of _ r3] exI [of _ w3]) simp
qed

end
