(* ===== verification/Net_SyncPool.thy ===== *)
theory Net_SyncPool
  imports Sky_Prelude "HOL-Library.Multiset"
begin

text \<open>
  The synchronous connection pool (\<open>tcpsync/pool.go\<close>, \<open>conn.go\<close>, \<open>options.go\<close>, \<open>sharded_pools.go\<close>).  Connections
  live in a heap and are named by their positions.  The callers of \<open>acquire\<close> and \<open>release\<close>, the goroutine of
  \<open>maintenanceLoop\<close> and the one caller that runs the body of \<open>Close\<close> have program counters, and a history is a
  list of events, each of which is one channel operation or one section under the lock.  A \<open>select\<close> takes the case
  the event names, if that case is ready.  The network decides whether a dial, a request or a ping succeeds.
\<close>

section \<open>Options\<close>

record Options =
  MaxSize :: int
  o_DialTimeout :: int
  RequestTimeout :: int
  RetryCount :: int
  RetryDelays :: "int list"
  HeartbeatInterval :: int
  HeartbeatRequestTimeout :: int
  Pinger :: bool
  o_IdleTimeout :: int
  MaintenanceTick :: int

abbreviation (input) ms :: int where "ms \<equiv> 1000000"
abbreviation (input) sec :: int where "sec \<equiv> 1000000000"

definition tick_of :: "int \<Rightarrow> int" where
  "tick_of t = (if t < sec then sec else t)"

definition setDefaults :: "Options \<Rightarrow> Options" where
  "setDefaults o1 =
     (let request = (if RequestTimeout o1 \<le> 0 then 5 * sec else RequestTimeout o1)
      in o1\<lparr>MaxSize := (if MaxSize o1 \<le> 0 then 100 else MaxSize o1),
           RequestTimeout := request,
           o_DialTimeout := (if o_DialTimeout o1 \<le> 0 then request else o_DialTimeout o1),
           RetryCount := (if RetryCount o1 < 0 then 0 else RetryCount o1),
           RetryDelays := (if RetryDelays o1 = [] then [10 * ms, 30 * ms, 60 * ms] else RetryDelays o1),
           HeartbeatRequestTimeout := (if HeartbeatRequestTimeout o1 \<le> 0 then 3 * sec else HeartbeatRequestTimeout o1),
           MaintenanceTick :=
             (if MaintenanceTick o1 \<le> 0
              then (if HeartbeatInterval o1 > 0 then tick_of (go_div (HeartbeatInterval o1) 2)
                    else if o_IdleTimeout o1 > 0 then tick_of (go_div (o_IdleTimeout o1) 10)
                    else 60 * sec)
              else MaintenanceTick o1)\<rparr>)"

definition retryDelay :: "Options \<Rightarrow> nat \<Rightarrow> int" where
  "retryDelay o1 attempt =
     (if RetryDelays o1 = [] then 60 * ms
      else if attempt < length (RetryDelays o1) then RetryDelays o1 ! attempt
      else RetryDelays o1 ! (length (RetryDelays o1) - 1))"

section \<open>State\<close>

datatype pool_error = ErrPoolExhausted | ErrPoolClosed | PoolCtx ctx_error | NetError string | NoAttempts

record pool_conn =
  conn_open :: bool
  lastUsed :: int
  lastPinged :: int

text \<open>
  A caller: before the first and the second \<open>select\<close> of \<open>acquire\<close>, before its section under the lock, dialling, with a
  dial or a connection that is lost but still counted, using a connection, in the \<open>select\<close> of \<open>release\<close>, or done.
\<close>

datatype user_pc =
    AtClosed | AtIdle | AtLock | InDial | Uncount "pool_error option" | Using nat | AtRelease nat | UserDone "pool_error option"

datatype sweep_pc = SweepRest | Collecting "nat list" | Checking "nat list" | SweepUncount "nat list"

datatype closer_pc = NotCalled | Draining | CloseUncount | CloseDone

record Pool =
  opts :: Options
  idle :: "nat list"
  total :: int
  pool_closed :: bool
  heap :: "pool_conn list"
  users :: "user_pc list"
  sweeper :: sweep_pc
  closer :: closer_pc

definition New :: "Options \<Rightarrow> Pool" where
  "New o1 = \<lparr>opts = setDefaults o1, idle = [], total = 0, pool_closed = False, heap = [], users = [], sweeper = SweepRest,
     closer = NotCalled\<rparr>"

definition capacity :: "Pool \<Rightarrow> nat" where
  "capacity p = nat (MaxSize (opts p))"

definition close_conn :: "nat \<Rightarrow> Pool \<Rightarrow> Pool" where
  "close_conn c p = p\<lparr>heap := (heap p)[c := (heap p ! c)\<lparr>conn_open := False\<rparr>]\<rparr>"

definition user_to :: "nat \<Rightarrow> user_pc \<Rightarrow> Pool \<Rightarrow> Pool" where
  "user_to i pc p = p\<lparr>users := (users p)[i := pc]\<rparr>"

section \<open>Acquiring and releasing\<close>

definition acquire_closed :: "nat \<Rightarrow> Pool \<Rightarrow> Pool" where
  "acquire_closed i p = user_to i (if pool_closed p then UserDone (Some ErrPoolClosed) else AtIdle) p"

datatype idle_case = IdleCtx ctx_error | IdleTake | IdleDefault

definition acquire_idle :: "idle_case \<Rightarrow> nat \<Rightarrow> Pool \<Rightarrow> Pool" where
  "acquire_idle choice i p =
     (case choice of
        IdleCtx err \<Rightarrow> user_to i (UserDone (Some (PoolCtx err))) p
      | IdleTake \<Rightarrow> (case idle p of [] \<Rightarrow> p | c # rest \<Rightarrow> user_to i (Using c) (p\<lparr>idle := rest\<rparr>))
      | IdleDefault \<Rightarrow> if idle p = [] then user_to i AtLock p else p)"

definition acquire_lock :: "nat \<Rightarrow> Pool \<Rightarrow> Pool" where
  "acquire_lock i p =
     (if pool_closed p then user_to i (UserDone (Some ErrPoolClosed)) p
      else if total p \<ge> MaxSize (opts p) then user_to i (UserDone (Some ErrPoolExhausted)) p
      else user_to i InDial (p\<lparr>total := total p + 1\<rparr>))"

definition dialConn :: "string + int \<Rightarrow> nat \<Rightarrow> Pool \<Rightarrow> Pool" where
  "dialConn outcome i p =
     (case outcome of
        Inl err \<Rightarrow> user_to i (Uncount (Some (NetError err))) p
      | Inr now \<Rightarrow> user_to i (Using (length (heap p)))
          (p\<lparr>heap := heap p @ [\<lparr>conn_open = True, lastUsed = now, lastPinged = 0\<rparr>]\<rparr>))"

definition uncount :: "nat \<Rightarrow> pool_error option \<Rightarrow> Pool \<Rightarrow> Pool" where
  "uncount i err p = user_to i (UserDone err) (p\<lparr>total := total p - 1\<rparr>)"

text \<open>The end of \<open>sendRecv\<close> with the start of \<open>release\<close>.\<close>

definition release_begin :: "string + int \<Rightarrow> nat \<Rightarrow> nat \<Rightarrow> Pool \<Rightarrow> Pool" where
  "release_begin outcome i c p =
     (case outcome of
        Inl err \<Rightarrow> user_to i (Uncount (Some (NetError err))) (close_conn c p)
      | Inr now \<Rightarrow> user_to i (AtRelease c) (p\<lparr>heap := (heap p)[c := (heap p ! c)\<lparr>lastUsed := now\<rparr>]\<rparr>))"

datatype put_case = PutClosed | PutIdle | PutDefault

definition release_put :: "put_case \<Rightarrow> nat \<Rightarrow> nat \<Rightarrow> Pool \<Rightarrow> Pool" where
  "release_put choice i c p =
     (case choice of
        PutClosed \<Rightarrow> if pool_closed p then user_to i (Uncount None) (close_conn c p) else p
      | PutIdle \<Rightarrow> if length (idle p) < capacity p then user_to i (UserDone None) (p\<lparr>idle := idle p @ [c]\<rparr>) else p
      | PutDefault \<Rightarrow>
          if \<not> pool_closed p \<and> \<not> length (idle p) < capacity p then user_to i (Uncount None) (close_conn c p) else p)"

section \<open>Closing and sweeping\<close>

definition Close_begin :: "Pool \<Rightarrow> Pool" where
  "Close_begin p = (if closer p = NotCalled then p\<lparr>pool_closed := True, closer := Draining\<rparr> else p)"

definition Close_take :: "Pool \<Rightarrow> Pool" where
  "Close_take p =
     (if closer p \<noteq> Draining then p
      else case idle p of
        [] \<Rightarrow> p\<lparr>closer := CloseDone\<rparr>
      | c # rest \<Rightarrow> (close_conn c (p\<lparr>idle := rest\<rparr>))\<lparr>closer := CloseUncount\<rparr>)"

definition Close_uncount :: "Pool \<Rightarrow> Pool" where
  "Close_uncount p = (if closer p = CloseUncount then p\<lparr>total := total p - 1, closer := Draining\<rparr> else p)"

definition sweep_begin :: "Pool \<Rightarrow> Pool" where
  "sweep_begin p = (if sweeper p = SweepRest \<and> \<not> pool_closed p then p\<lparr>sweeper := Collecting []\<rparr> else p)"

definition sweep_take :: "Pool \<Rightarrow> Pool" where
  "sweep_take p =
     (case sweeper p of
        Collecting batch \<Rightarrow>
          (case idle p of [] \<Rightarrow> p\<lparr>sweeper := Checking batch\<rparr> | c # rest \<Rightarrow> p\<lparr>idle := rest, sweeper := Collecting (batch @ [c])\<rparr>)
      | _ \<Rightarrow> p)"

definition sweep_drop :: "nat \<Rightarrow> nat list \<Rightarrow> Pool \<Rightarrow> Pool" where
  "sweep_drop c rest p = (close_conn c p)\<lparr>sweeper := SweepUncount rest\<rparr>"

text \<open>The tests of one connection of the batch: is it too old, is a ping due, and does the ping succeed.\<close>

definition too_old :: "Options \<Rightarrow> int \<Rightarrow> pool_conn \<Rightarrow> bool" where
  "too_old o1 now c \<longleftrightarrow> o_IdleTimeout o1 > 0 \<and> now - lastUsed c > o_IdleTimeout o1"

definition ping_due :: "Options \<Rightarrow> int \<Rightarrow> pool_conn \<Rightarrow> bool" where
  "ping_due o1 now c \<longleftrightarrow> HeartbeatInterval o1 > 0 \<and> Pinger o1 \<and> now - max (lastUsed c) (lastPinged c) \<ge> HeartbeatInterval o1"

definition sweep_check :: "put_case \<Rightarrow> bool \<Rightarrow> int \<Rightarrow> Pool \<Rightarrow> Pool" where
  "sweep_check choice pong now p =
     (case sweeper p of
        Checking (c # rest) \<Rightarrow>
          if too_old (opts p) now (heap p ! c) then sweep_drop c rest p
          else if ping_due (opts p) now (heap p ! c) \<and> \<not> pong then sweep_drop c rest p
          else let q = (if ping_due (opts p) now (heap p ! c) then p\<lparr>heap := (heap p)[c := (heap p ! c)\<lparr>lastPinged := now\<rparr>]\<rparr> else p)
               in (case choice of
                     PutClosed \<Rightarrow> if pool_closed p then sweep_drop c rest q else p
                   | PutIdle \<Rightarrow> if length (idle p) < capacity p then q\<lparr>idle := idle p @ [c], sweeper := Checking rest\<rparr> else p
                   | PutDefault \<Rightarrow> if \<not> pool_closed p \<and> \<not> length (idle p) < capacity p then sweep_drop c rest q else p)
      | Checking [] \<Rightarrow> p\<lparr>sweeper := SweepRest\<rparr>
      | _ \<Rightarrow> p)"

definition sweep_uncount :: "Pool \<Rightarrow> Pool" where
  "sweep_uncount p = (case sweeper p of SweepUncount rest \<Rightarrow> p\<lparr>total := total p - 1, sweeper := Checking rest\<rparr> | _ \<Rightarrow> p)"

section \<open>Histories\<close>

datatype pool_event =
    Acquire
  | UserStep nat idle_case "string + int" put_case
  | CloseBegin
  | CloseTake
  | CloseForget
  | SweepBegin
  | SweepTake
  | SweepCheck put_case bool int
  | SweepForget

text \<open>A step of a caller; of the arguments, the ones for its program counter are used.\<close>

definition user_step :: "nat \<Rightarrow> idle_case \<Rightarrow> string + int \<Rightarrow> put_case \<Rightarrow> Pool \<Rightarrow> Pool" where
  "user_step i ic outcome pc p =
     (if i < length (users p)
      then (case users p ! i of
              AtClosed \<Rightarrow> acquire_closed i p
            | AtIdle \<Rightarrow> acquire_idle ic i p
            | AtLock \<Rightarrow> acquire_lock i p
            | InDial \<Rightarrow> dialConn outcome i p
            | Uncount err \<Rightarrow> uncount i err p
            | Using c \<Rightarrow> release_begin outcome i c p
            | AtRelease c \<Rightarrow> release_put pc i c p
            | UserDone _ \<Rightarrow> p)
      else p)"

fun pool_step :: "pool_event \<Rightarrow> Pool \<Rightarrow> Pool" where
  "pool_step Acquire p = p\<lparr>users := users p @ [AtClosed]\<rparr>"
| "pool_step (UserStep i ic outcome pc) p = user_step i ic outcome pc p"
| "pool_step CloseBegin p = Close_begin p"
| "pool_step CloseTake p = Close_take p"
| "pool_step CloseForget p = Close_uncount p"
| "pool_step SweepBegin p = sweep_begin p"
| "pool_step SweepTake p = sweep_take p"
| "pool_step (SweepCheck choice pong now) p = sweep_check choice pong now p"
| "pool_step SweepForget p = sweep_uncount p"

section \<open>Requests and shards\<close>

text \<open>
  The loop of \<open>Do\<close>: what \<open>sleepRetry\<close> returns before an attempt, and what an attempt (\<open>acquire\<close>, \<open>sendRecv\<close> and
  \<open>release\<close>) gives, are functions of its number.
\<close>

primrec Do_loop :: "nat \<Rightarrow> nat \<Rightarrow> (nat \<Rightarrow> pool_error option) \<Rightarrow> (nat \<Rightarrow> pool_error + 'b) \<Rightarrow> pool_error option \<Rightarrow> pool_error + 'b" where
  "Do_loop 0 attempt sleep try_once lastErr = Inl (case lastErr of None \<Rightarrow> NoAttempts | Some err \<Rightarrow> err)"
| "Do_loop (Suc k) attempt sleep try_once lastErr =
     (case (if attempt > 0 then sleep (attempt - 1) else None) of
        Some err \<Rightarrow> Inl err
      | None \<Rightarrow>
          (case try_once attempt of
             Inr resp \<Rightarrow> Inr resp
           | Inl err \<Rightarrow>
               if err = ErrPoolExhausted then Inl err else Do_loop k (attempt + 1) sleep try_once (Some err)))"

definition Do :: "Options \<Rightarrow> (nat \<Rightarrow> pool_error option) \<Rightarrow> (nat \<Rightarrow> pool_error + 'b) \<Rightarrow> pool_error + 'b" where
  "Do o1 sleep try_once = Do_loop (nat (1 + RetryCount o1)) 0 sleep try_once None"

text \<open>The index of the shard that \<open>For\<close> returns, of a set that \<open>NewShardedPools\<close> makes from a list of addresses.\<close>

definition NewShardedPools :: "string list \<Rightarrow> Options \<Rightarrow> Pool list option" where
  "NewShardedPools addrs o1 = (if addrs = [] then None else Some (map (\<lambda>_. New o1) addrs))"

definition For :: "Pool list \<Rightarrow> nat \<Rightarrow> nat" where
  "For shards uid = (if length shards = 1 \<or> uid = 0 then 0 else uid mod length shards)"

text \<open>\<open>Close\<close> when nothing else happens on the pool, and the \<open>Close\<close> of a set of pools.\<close>

definition Close :: "Pool \<Rightarrow> Pool" where
  "Close p = fold pool_step (CloseBegin # concat (replicate (length (idle p)) [CloseTake, CloseForget]) @ [CloseTake]) p"

definition Sharded_Close :: "Pool list \<Rightarrow> Pool list" where
  "Sharded_Close shards = map Close shards"

section \<open>Every connection has one owner\<close>

fun user_conns :: "user_pc \<Rightarrow> nat list" where
  "user_conns (Using c) = [c]" | "user_conns (AtRelease c) = [c]" | "user_conns _ = []"

fun user_units :: "user_pc \<Rightarrow> nat" where
  "user_units InDial = 1" | "user_units (Uncount _) = 1" | "user_units (Using _) = 1" | "user_units (AtRelease _) = 1"
| "user_units _ = 0"

fun sweep_conns :: "sweep_pc \<Rightarrow> nat list" where
  "sweep_conns SweepRest = []" | "sweep_conns (Collecting b) = b" | "sweep_conns (Checking b) = b" | "sweep_conns (SweepUncount b) = b"

fun sweep_units :: "sweep_pc \<Rightarrow> nat" where
  "sweep_units (SweepUncount b) = length b + 1" | "sweep_units s = length (sweep_conns s)"

fun close_units :: "closer_pc \<Rightarrow> nat" where
  "close_units CloseUncount = 1" | "close_units _ = 0"

definition owned :: "Pool \<Rightarrow> nat multiset" where
  "owned p = mset (idle p) + mset (concat (map user_conns (users p))) + mset (sweep_conns (sweeper p))"

definition units :: "Pool \<Rightarrow> nat" where
  "units p = length (idle p) + sum_list (map user_units (users p)) + sweep_units (sweeper p) + close_units (closer p)"

definition open_at :: "pool_conn list \<Rightarrow> nat \<Rightarrow> bool" where
  "open_at h c \<longleftrightarrow> c < length h \<and> conn_open (h ! c)"

definition pool_ok :: "Pool \<Rightarrow> bool" where
  "pool_ok p \<longleftrightarrow> total p = int (units p) \<and> total p \<le> MaxSize (opts p) \<and> 0 < MaxSize (opts p) \<and>
     (\<forall>c. count (owned p) c = (if open_at (heap p) c then 1 else 0))"

lemma sum_units_update:
  "i < length xs \<Longrightarrow> sum_list (map f (xs[i := x])) + (f (xs ! i) :: nat) = sum_list (map f xs) + f x"
proof -
  assume i: "i < length xs"
  have "sum_list (map f xs) = sum_list (map f (take i xs)) + f (xs ! i) + sum_list (map f (drop (Suc i) xs))"
    by (subst id_take_nth_drop [OF i]) simp
  then show ?thesis using i by (simp add: upd_conv_take_nth_drop)
qed

lemma count_concat_update:
  assumes "i < length xs"
  shows "count (mset (concat (map f (xs[i := x])))) c + count (mset (f (xs ! i))) c = count (mset (concat (map f xs))) c + count (mset (f x)) c"
proof -
  have "mset (concat (map f xs)) = mset (concat (map f (take i xs))) + mset (f (xs ! i)) + mset (concat (map f (drop (Suc i) xs)))"
    by (subst id_take_nth_drop [OF assms]) simp
  then show ?thesis using assms by (simp add: upd_conv_take_nth_drop)
qed

lemma open_close: "open_at ((heap p)[c := (heap p ! c)\<lparr>conn_open := False\<rparr>]) d \<longleftrightarrow> open_at (heap p) d \<and> d \<noteq> c"
  by (cases "d = c") (auto simp: open_at_def)

lemma open_touch: "open_at ((heap p)[c := (heap p ! c)\<lparr>lastUsed := t\<rparr>]) d = open_at (heap p) d"
  "open_at ((heap p)[c := (heap p ! c)\<lparr>lastPinged := t\<rparr>]) d = open_at (heap p) d"
  by (cases "d = c"; auto simp: open_at_def)+

lemma open_new: "open_at (h @ [\<lparr>conn_open = True, lastUsed = t, lastPinged = u\<rparr>]) d \<longleftrightarrow> open_at h d \<or> d = length h"
  by (auto simp: open_at_def nth_append)

text \<open>A caller takes a step: what it owned and counted before, and after, in terms of the rest.\<close>

lemma owned_user:
  assumes "i < length (users p)" and "users q = users p"
  shows "count (owned (user_to i pc q)) c + count (mset (user_conns (users p ! i))) c =
      count (mset (idle q)) c + count (mset (concat (map user_conns (users p)))) c + count (mset (sweep_conns (sweeper q))) c + count (mset (user_conns pc)) c"
    and "units (user_to i pc q) + user_units (users p ! i) =
      length (idle q) + sum_list (map user_units (users p)) + sweep_units (sweeper q) + close_units (closer q) + user_units pc"
  using assms(2) count_concat_update [OF assms(1), of user_conns pc c] sum_units_update [OF assms(1), of user_units pc]
  by (simp_all add: owned_def units_def user_to_def)

lemma pool_okD:
  assumes "pool_ok p"
  shows "total p = int (length (idle p) + sum_list (map user_units (users p)) + sweep_units (sweeper p) + close_units (closer p))"
    and "count (mset (idle p)) c + count (mset (concat (map user_conns (users p)))) c + count (mset (sweep_conns (sweeper p))) c =
      (if open_at (heap p) c then 1 else 0)"
    and "total p \<le> MaxSize (opts p)" and "0 < MaxSize (opts p)"
  using assms unfolding pool_ok_def owned_def units_def by simp_all

text \<open>What a step of a caller must do for the invariant to hold afterwards.\<close>

lemma user_step_keeps:
  assumes p: "pool_ok p" and i: "i < length (users p)" and q: "users q = users p" "opts q = opts p" "sweeper q = sweeper p" "closer q = closer p"
    and t: "total q + int (length (idle p)) + int (user_units (users p ! i)) = total p + int (length (idle q)) + int (user_units pc)"
    and m: "total q \<le> MaxSize (opts p)"
    and c: "\<And>c. count (mset (idle p)) c + count (mset (user_conns (users p ! i))) c + (if open_at (heap q) c then 1 else 0) =
        count (mset (idle q)) c + count (mset (user_conns pc)) c + (if open_at (heap p) c then 1 else 0)"
  shows "pool_ok (user_to i pc q)"
proof -
  note D = pool_okD [OF p]
  have views: "total (user_to i pc q) = total q" "opts (user_to i pc q) = opts p" "heap (user_to i pc q) = heap q"
    using q by (simp_all add: user_to_def)
  have "int (units (user_to i pc q)) + int (user_units (users p ! i)) =
      int (length (idle q) + sum_list (map user_units (users p)) + sweep_units (sweeper p) + close_units (closer p)) + int (user_units pc)"
    using owned_user(2) [OF i q(1), of pc] q by (metis of_nat_add)
  then have "total q = int (units (user_to i pc q))" using D(1) t by simp
  moreover have "count (owned (user_to i pc q)) d = (if open_at (heap q) d then 1 else 0)" for d
    using owned_user(1) [OF i q(1), of pc d] D(2) [of d] c [of d] q(3) by simp
  ultimately show ?thesis using m D(4) views by (simp add: pool_ok_def)
qed

lemma count_pos: "c \<in> set xs \<Longrightarrow> 1 \<le> count (mset xs) c"
  by simp

lemma using_open:
  assumes "pool_ok p" and "i < length (users p)" and "c \<in> set (user_conns (users p ! i))"
  shows "open_at (heap p) c"
proof -
  have "users p ! i \<in> set (users p)" using assms(2) by (rule nth_mem)
  then have "c \<in> set (concat (map user_conns (users p)))" using assms(3) by auto
  from count_pos [OF this] show ?thesis using pool_okD(2) [OF assms(1), of c] by (simp split: if_splits)
qed

lemma idle_open: "pool_ok p \<Longrightarrow> c \<in> set (idle p) \<Longrightarrow> open_at (heap p) c"
  using pool_okD(2) [of p c] count_pos [of c "idle p"] by (simp split: if_splits)

lemma sweep_open: "pool_ok p \<Longrightarrow> c \<in> set (sweep_conns (sweeper p)) \<Longrightarrow> open_at (heap p) c"
  using pool_okD(2) [of p c] count_pos [of c "sweep_conns (sweeper p)"] by (simp split: if_splits)

lemma user_step_ok:
  assumes p: "pool_ok p"
  shows "pool_ok (user_step i ic outcome pc p)"
proof (cases "i < length (users p)")
  case i: True
  note D = pool_okD [OF p]
  have o1: "c \<in> set (user_conns (users p ! i)) \<Longrightarrow> open_at (heap p) c" for c using using_open [OF p i] .
  show ?thesis
  proof (cases "users p ! i")
    case AtClosed
    have "pool_ok (acquire_closed i p)" unfolding acquire_closed_def
      by (rule user_step_keeps [OF p i]) (use AtClosed D(3) in \<open>auto split: if_splits\<close>)
    then show ?thesis using i AtClosed by (simp add: user_step_def)
  next
    case AtIdle
    have "pool_ok (user_to i (UserDone err) p)" "pool_ok (user_to i AtLock p)" for err
      by (rule user_step_keeps [OF p i]; use AtIdle D(3) in simp)+
    moreover have "pool_ok (user_to i (Using c) (p\<lparr>idle := rest\<rparr>))" if "idle p = c # rest" for c rest
      by (rule user_step_keeps [OF p i]) (use AtIdle D(3) that in simp_all)
    ultimately show ?thesis using i AtIdle p by (auto simp: user_step_def acquire_idle_def split: idle_case.split list.split)
  next
    case AtLock
    have "pool_ok (user_to i (UserDone err) p)" for err
      by (rule user_step_keeps [OF p i]) (use AtLock D(3) in simp_all)
    moreover have "pool_ok (user_to i InDial (p\<lparr>total := total p + 1\<rparr>))" if "total p < MaxSize (opts p)"
      by (rule user_step_keeps [OF p i]) (use AtLock that in simp_all)
    ultimately show ?thesis using i AtLock by (simp add: user_step_def acquire_lock_def)
  next
    case InDial
    have "pool_ok (user_to i (Uncount err) p)" for err
      by (rule user_step_keeps [OF p i]) (use InDial D(3) in simp_all)
    moreover have "pool_ok (user_to i (Using (length (heap p))) (p\<lparr>heap := heap p @ [\<lparr>conn_open = True, lastUsed = t, lastPinged = 0\<rparr>]\<rparr>))" for t
      by (rule user_step_keeps [OF p i]) (use InDial D(3) in \<open>simp_all add: open_new, simp_all add: open_at_def\<close>)
    ultimately show ?thesis using i InDial by (simp add: user_step_def dialConn_def split: sum.split)
  next
    case (Uncount err)
    have "pool_ok (uncount i err p)" unfolding uncount_def
      by (rule user_step_keeps [OF p i]) (use Uncount D(3) in simp_all)
    then show ?thesis using i Uncount by (simp add: user_step_def)
  next
    case (Using c)
    have oc: "open_at (heap p) c" using o1 Using by simp
    have "pool_ok (user_to i (Uncount err) (close_conn c p))" for err unfolding close_conn_def
      by (rule user_step_keeps [OF p i]) (use Using D(3) oc in \<open>auto simp: open_close\<close>)
    moreover have "pool_ok (user_to i (AtRelease c) (p\<lparr>heap := (heap p)[c := (heap p ! c)\<lparr>lastUsed := t\<rparr>]\<rparr>))" for t
      by (rule user_step_keeps [OF p i]) (use Using D(3) in \<open>simp_all add: open_touch\<close>)
    ultimately show ?thesis using i Using by (simp add: user_step_def release_begin_def split: sum.split)
  next
    case (AtRelease c)
    have oc: "open_at (heap p) c" using o1 AtRelease by simp
    have "pool_ok (user_to i (Uncount err) (close_conn c p))" for err unfolding close_conn_def
      by (rule user_step_keeps [OF p i]) (use AtRelease D(3) oc in \<open>auto simp: open_close\<close>)
    moreover have "pool_ok (user_to i (UserDone None) (p\<lparr>idle := idle p @ [c]\<rparr>))"
      by (rule user_step_keeps [OF p i]) (use AtRelease D(3) in simp_all)
    ultimately show ?thesis using i AtRelease p by (simp add: user_step_def release_put_def split: put_case.split)
  qed (use p i in \<open>simp add: user_step_def\<close>)
qed (use p in \<open>simp add: user_step_def\<close>)

text \<open>The same for a step of the sweeper or of \<open>Close\<close>.\<close>

lemma other_step_keeps:
  assumes p: "pool_ok p" and q: "users q = users p" "opts q = opts p" and m: "total q \<le> MaxSize (opts p)"
    and t: "total q + int (length (idle p) + sweep_units (sweeper p) + close_units (closer p)) =
        total p + int (length (idle q) + sweep_units (sweeper q) + close_units (closer q))"
    and c: "\<And>c. count (mset (idle p)) c + count (mset (sweep_conns (sweeper p))) c + (if open_at (heap q) c then 1 else 0) =
        count (mset (idle q)) c + count (mset (sweep_conns (sweeper q))) c + (if open_at (heap p) c then 1 else 0)"
  shows "pool_ok q"
proof -
  note D = pool_okD [OF p]
  have "total q = int (units q)" using D(1) t q by (simp add: units_def)
  moreover have "count (owned q) d = (if open_at (heap q) d then 1 else 0)" for d
    using D(2) [of d] c [of d] q by (simp add: owned_def split: if_splits)
  ultimately show ?thesis using m D(4) q by (simp add: pool_ok_def)
qed

lemma close_steps_ok: "pool_ok p \<Longrightarrow> pool_ok (Close_begin p)" "pool_ok p \<Longrightarrow> pool_ok (Close_take p)" "pool_ok p \<Longrightarrow> pool_ok (Close_uncount p)"
proof -
  assume p: "pool_ok p"
  note D = pool_okD [OF p]
  show "pool_ok (Close_begin p)"
    by (rule other_step_keeps [OF p]) (use D(3) in \<open>simp_all add: Close_begin_def\<close>)
  show "pool_ok (Close_take p)"
  proof (cases "closer p = Draining")
    case True
    show ?thesis
    proof (cases "idle p")
      case Nil
      show ?thesis by (rule other_step_keeps [OF p]) (use D(3) True Nil in \<open>simp_all add: Close_take_def\<close>)
    next
      case (Cons c rest)
      have "open_at (heap p) c" using idle_open [OF p] Cons by simp
      then show ?thesis
        by (intro other_step_keeps [OF p]) (use D(3) True Cons in \<open>auto simp: Close_take_def close_conn_def open_close\<close>)
    qed
  qed (use p in \<open>simp add: Close_take_def\<close>)
  show "pool_ok (Close_uncount p)"
    by (rule other_step_keeps [OF p]) (use D(3) in \<open>simp_all add: Close_uncount_def\<close>)
qed

lemma sweep_drop_ok:
  assumes p: "pool_ok p" and s: "sweeper p = Checking (c # rest)"
    and q: "users q = users p" "opts q = opts p" "total q = total p" "idle q = idle p" "closer q = closer p"
      "\<And>d. open_at (heap q) d = open_at (heap p) d"
  shows "pool_ok (sweep_drop c rest q)"
proof -
  have oc: "open_at (heap p) c" using sweep_open [OF p] s by simp
  have o1: "open_at (heap (sweep_drop c rest q)) d \<longleftrightarrow> open_at (heap p) d \<and> d \<noteq> c" for d
    using q(6) open_close [of q c d] by (simp add: sweep_drop_def close_conn_def)
  have views: "users (sweep_drop c rest q) = users p" "opts (sweep_drop c rest q) = opts p" "total (sweep_drop c rest q) = total p"
    "idle (sweep_drop c rest q) = idle p" "closer (sweep_drop c rest q) = closer p" "sweeper (sweep_drop c rest q) = SweepUncount rest"
    using q by (simp_all add: sweep_drop_def close_conn_def)
  show ?thesis
    by (rule other_step_keeps [OF p]) (use pool_okD(3) [OF p] s oc in \<open>auto simp: views o1\<close>)
qed

lemma sweep_steps_ok: "pool_ok p \<Longrightarrow> pool_ok (sweep_begin p)" "pool_ok p \<Longrightarrow> pool_ok (sweep_take p)"
  "pool_ok p \<Longrightarrow> pool_ok (sweep_check choice pong now p)" "pool_ok p \<Longrightarrow> pool_ok (sweep_uncount p)"
proof -
  assume p: "pool_ok p"
  note D = pool_okD [OF p]
  show "pool_ok (sweep_begin p)"
    by (rule other_step_keeps [OF p]) (use D(3) in \<open>simp_all add: sweep_begin_def\<close>)
  show "pool_ok (sweep_take p)"
    by (rule other_step_keeps [OF p]) (use D(3) in \<open>auto simp: sweep_take_def split: sweep_pc.split list.split\<close>)
  show "pool_ok (sweep_uncount p)"
    by (rule other_step_keeps [OF p]) (use D(3) in \<open>auto simp: sweep_uncount_def split: sweep_pc.split\<close>)
  show "pool_ok (sweep_check choice pong now p)"
  proof (cases "\<exists>c rest. sweeper p = Checking (c # rest)")
    case True
    then obtain c rest where s: "sweeper p = Checking (c # rest)" by blast
    let ?h = "p\<lparr>heap := (heap p)[c := (heap p ! c)\<lparr>lastPinged := now\<rparr>]\<rparr>"
    have drop1: "pool_ok (sweep_drop c rest p)" "pool_ok (sweep_drop c rest ?h)"
      by (rule sweep_drop_ok [OF p s]; simp add: open_touch)+
    have put: "pool_ok (p\<lparr>idle := idle p @ [c], sweeper := Checking rest\<rparr>)" "pool_ok (?h\<lparr>idle := idle p @ [c], sweeper := Checking rest\<rparr>)"
      by (rule other_step_keeps [OF p]; use D(3) s in \<open>simp add: open_touch\<close>)+
    show ?thesis using p drop1 put s by (auto simp: sweep_check_def Let_def split: put_case.split)
  next
    case False
    then have "sweep_check choice pong now p = p \<or> sweeper p = Checking [] \<and> sweep_check choice pong now p = p\<lparr>sweeper := SweepRest\<rparr>"
      by (auto simp: sweep_check_def split: sweep_pc.split list.split)
    moreover have "pool_ok (p\<lparr>sweeper := SweepRest\<rparr>)" if "sweeper p = Checking []"
      by (rule other_step_keeps [OF p]) (use D(3) that in simp_all)
    ultimately show ?thesis using p by metis
  qed
qed

lemma acquire_ok: "pool_ok p \<Longrightarrow> pool_ok (p\<lparr>users := users p @ [AtClosed]\<rparr>)"
  by (simp add: pool_ok_def owned_def units_def)

lemma pool_step_ok: "pool_ok p \<Longrightarrow> pool_ok (pool_step ev p)"
  by (cases ev) (simp_all add: acquire_ok user_step_ok close_steps_ok sweep_steps_ok)

lemma pool_run_ok: "pool_ok p \<Longrightarrow> pool_ok (fold pool_step evs p)"
  by (induction evs arbitrary: p) (simp_all add: pool_step_ok)

lemma New_ok: "pool_ok (New o1)"
  by (simp add: New_def pool_ok_def owned_def units_def open_at_def setDefaults_def Let_def)

section \<open>Properties\<close>

lemma users_length: "length (concat (map user_conns us)) \<le> sum_list (map user_units us)"
proof (induction us)
  case (Cons u us)
  then show ?case by (cases u) simp_all
qed simp

lemma open_count:
  assumes "pool_ok p"
  shows "card {c. open_at (heap p) c} \<le> units p"
proof -
  have fin: "finite {c. open_at (heap p) c}" by (rule finite_subset [of _ "{..<length (heap p)}"]) (auto simp: open_at_def)
  have "owned p = mset_set {c. open_at (heap p) c}"
    using assms fin by (intro multiset_eqI) (simp add: pool_ok_def count_mset_set')
  then have "card {c. open_at (heap p) c} = size (owned p)" by simp
  also have "\<dots> = length (idle p) + length (concat (map user_conns (users p))) + length (sweep_conns (sweeper p))"
    by (simp add: owned_def)
  finally have "card {c. open_at (heap p) c} = length (idle p) + length (concat (map user_conns (users p))) + length (sweep_conns (sweeper p))" .
  moreover have "length (sweep_conns (sweeper p)) \<le> sweep_units (sweeper p)" by (cases "sweeper p") simp_all
  ultimately show ?thesis using users_length [of "users p"] unfolding units_def by linarith
qed

lemma two_users:
  assumes "a < length us" and "b < length us" and "a \<noteq> b" and "c \<in> set (user_conns (us ! a))" and "c \<in> set (user_conns (us ! b))"
  shows "2 \<le> count (mset (concat (map user_conns us))) c"
proof -
  have one: "1 \<le> count (mset (user_conns (us ! a))) c" "1 \<le> count (mset (user_conns (us ! b))) c"
    using assms(4,5) by (simp_all add: count_pos)
  have "(\<Sum>i\<in>{a, b}. count (mset (user_conns (us ! i))) c) \<le> (\<Sum>i<length us. count (mset (user_conns (us ! i))) c)"
    using assms(1,2) by (intro sum_mono2) auto
  then have "count (mset (user_conns (us ! a))) c + count (mset (user_conns (us ! b))) c \<le> (\<Sum>i<length us. count (mset (user_conns (us ! i))) c)"
    using assms(3) by simp
  also have "\<dots> = count (mset (concat (map user_conns us))) c"
    by (induction us rule: rev_induct) (simp_all add: nth_append)
  finally show ?thesis using one by linarith
qed

lemma unit_bound: "i < length us \<Longrightarrow> user_units (us ! i) \<le> sum_list (map user_units us)"
  by (metis elem_le_sum_list length_map nth_map)

text \<open>
  C32: The pool is bounded and its connections are exclusive.  In every history the counter equals the number of
  connections that are idle, in use, being dialled, swept, or closed but not yet uncounted; it and the number of open
  connections never exceed \<open>MaxSize\<close>; no two callers hold the same connection, and none holds an idle one; and
  a caller that gives a connection back finds room in the idle queue, so that an open pool never drops a healthy one.
\<close>

theorem pool_bounded_and_exclusive:
  assumes "p = fold pool_step evs (New o1)"
  shows "total p = int (units p) \<and> total p \<le> MaxSize (opts p) \<and> int (card {c. open_at (heap p) c}) \<le> MaxSize (opts p) \<and>
    (i < length (users p) \<and> c \<in> set (user_conns (users p ! i)) \<longrightarrow>
       open_at (heap p) c \<and> c \<notin> set (idle p) \<and> length (idle p) < capacity p \<and>
       (\<forall>j < length (users p). j \<noteq> i \<longrightarrow> c \<notin> set (user_conns (users p ! j))))"
proof (intro conjI impI allI)
  have ok: "pool_ok p" unfolding assms by (rule pool_run_ok [OF New_ok])
  note D = pool_okD [OF ok]
  show t: "total p = int (units p)" "total p \<le> MaxSize (opts p)" using ok by (simp_all add: pool_ok_def)
  then show "int (card {c. open_at (heap p) c}) \<le> MaxSize (opts p)" using open_count [OF ok] by linarith
  assume u: "i < length (users p) \<and> c \<in> set (user_conns (users p ! i))"
  then show o1: "open_at (heap p) c" using using_open [OF ok] by blast
  have "users p ! i \<in> set (users p)" using u by simp
  then have "c \<in> set (concat (map user_conns (users p)))" using u by auto
  note one = count_pos [OF this]
  show "c \<notin> set (idle p)"
  proof
    assume "c \<in> set (idle p)"
    from count_pos [OF this] one show False using D(2) [of c, unfolded if_P [OF o1]] by linarith
  qed
  have "user_units (users p ! i) = 1" using u by (cases "users p ! i") auto
  then have "length (idle p) + 1 \<le> units p" using unit_bound [of i "users p"] u by (simp add: units_def)
  then show "length (idle p) < capacity p" using t by (simp add: capacity_def)
  show "c \<notin> set (user_conns (users p ! j))" if "j < length (users p)" "j \<noteq> i" for j
  proof
    assume "c \<in> set (user_conns (users p ! j))"
    then have "2 \<le> count (mset (concat (map user_conns (users p)))) c" using two_users [of i "users p" j c] u that by simp
    then show False using D(2) [of c] o1 by simp
  qed
qed

definition demo_opts :: Options where
  "demo_opts = \<lparr>MaxSize = 2, o_DialTimeout = 0, RequestTimeout = 0, RetryCount = 2, RetryDelays = [], HeartbeatInterval = 0,
     HeartbeatRequestTimeout = 0, Pinger = False, o_IdleTimeout = 0, MaintenanceTick = 0\<rparr>"

definition demo_step :: "nat \<Rightarrow> pool_event" where
  "demo_step i = UserStep i IdleDefault (Inr 7) PutIdle"

definition demo_use :: "pool_event list" where
  "demo_use = Acquire # replicate 4 (demo_step 0)"

theorem pool_bounded_and_exclusive_witness:
  "total (fold pool_step demo_use (New demo_opts)) \<le> 2 \<and> open_at (heap (fold pool_step demo_use (New demo_opts))) 0"
proof -
  let ?p = "fold pool_step demo_use (New demo_opts)"
  have "MaxSize (opts ?p) = 2" "0 < length (users ?p)" "user_conns (users ?p ! 0) = [0]" by code_simp+
  with pool_bounded_and_exclusive [OF refl, of demo_use demo_opts 0 0] show ?thesis by simp
qed

text \<open>
  \<open>Close\<close> can leak a connection.  While a caller uses the only connection, \<open>Close\<close> runs to its end; then the
  caller gives the connection back, both cases of the \<open>select\<close> in \<open>release\<close> are ready, and the one that puts the
  connection into the idle queue may be taken.  Every caller has returned, the pool is closed, and the connection
  stays open and counted in a queue that no caller reads any more.
\<close>

theorem close_leaks_connection:
  "let p = fold pool_step (demo_use @ [CloseBegin, CloseTake] @ replicate 2 (demo_step 0)) (New demo_opts)
   in pool_closed p \<and> closer p = CloseDone \<and> users p = [UserDone None] \<and> sweeper p = SweepRest \<and>
      idle p = [0] \<and> open_at (heap p) 0 \<and> total p = 1 \<and>
      users (fold pool_step (Acquire # replicate 3 (demo_step 1)) p) = [UserDone None, UserDone (Some ErrPoolClosed)]"
  by code_simp

lemma Do_loop_success:
  "Do_loop n a sleep try_once e = Inr r \<longleftrightarrow>
     (\<exists>k < n. try_once (a + k) = Inr r \<and> (\<forall>j < k. \<exists>err. try_once (a + j) = Inl err \<and> err \<noteq> ErrPoolExhausted) \<and>
        (\<forall>j \<le> k. 0 < a + j \<longrightarrow> sleep (a + j - 1) = None))"
proof (induction n arbitrary: a e)
  case (Suc n)
  let ?ok = "0 < a \<longrightarrow> sleep (a - 1) = None"
  have "(\<exists>k < Suc n. P k) \<longleftrightarrow> P 0 \<or> (\<exists>k < n. P (Suc k))" for P by (metis less_Suc_eq_0_disj not0_implies_Suc zero_less_Suc)
  note ex = this
  have all: "(\<forall>j < Suc k. Q j) \<longleftrightarrow> Q 0 \<and> (\<forall>j < k. Q (Suc j))" "(\<forall>j \<le> Suc k. Q j) \<longleftrightarrow> Q 0 \<and> (\<forall>j \<le> k. Q (Suc j))" for Q k
    by (auto simp: less_Suc_eq_0_disj) (metis Suc_le_mono not0_implies_Suc)
  show ?case
  proof (cases "?ok")
    case True
    then show ?thesis unfolding ex all by (auto simp: Suc.IH split: sum.split option.split)
  next
    case False
    then have "Do_loop (Suc n) a sleep try_once e \<noteq> Inr r" by auto
    moreover have "\<not> (\<forall>j \<le> k. 0 < a + j \<longrightarrow> sleep (a + j - 1) = None)" for k using False by auto
    ultimately show ?thesis by blast
  qed
qed simp



end
