(* ===== verification/Net_SendPool.thy ===== *)
theory Net_SendPool
  imports Sky_Prelude Complex_Main "HOL-Library.Sublist"
begin

text \<open>
  The sending pool (\<open>tcppool/pool.go\<close>, \<open>conn.go\<close>, \<open>options.go\<close>): one slot with its goroutines \<open>lifecycle\<close> and
  \<open>sendLoop\<close>, and the pool as a list of slots.  Connections are named by their positions in a list of flags that say
  which are open.  The callbacks that write and read are foreign code: whether a write succeeds and when a read loop
  ends are arguments of the events, and a write to a closed connection fails.
\<close>

section \<open>Options and back-off\<close>

record SendOptions =
  PoolSize :: int
  ReconnectInitial :: int
  ReconnectMax :: int
  StableThreshold :: int
  JitterFraction :: rat
  SendBufSize :: int

definition send_setDefaults :: "SendOptions \<Rightarrow> SendOptions" where
  "send_setDefaults so = so\<lparr>
     PoolSize := (if PoolSize so \<le> 0 then 1 else PoolSize so),
     ReconnectInitial := (if ReconnectInitial so \<le> 0 then 1000000000 else ReconnectInitial so),
     ReconnectMax := (if ReconnectMax so \<le> 0 then 10 * 1000000000 else ReconnectMax so),
     StableThreshold := (if StableThreshold so \<le> 0 then 5 * 1000000000 else StableThreshold so),
     JitterFraction := (if JitterFraction so \<le> 0 then 2 / 10 else JitterFraction so),
     SendBufSize := (if SendBufSize so \<le> 0 then 128 else SendBufSize so)\<rparr>"

text \<open>The random number of the jitter is an argument; the product is rounded down as the conversion does.\<close>

definition nextBackoff :: "int \<Rightarrow> int \<Rightarrow> rat \<Rightarrow> rat \<Rightarrow> int" where
  "nextBackoff cur most fraction random =
     (let after = (if cur * 2 > most then most else cur * 2)
      in if fraction > 0
         then let after = after + \<lfloor>rat_of_int after * fraction * random\<rfloor> in if after > most then most else after
         else after)"

section \<open>A slot\<close>

text \<open>
  \<open>lifecycle\<close>: at the head of its loop, dialling, with a connection not yet published, in the read function, after it,
  waiting for shutdown (a pool without read function), asleep, or returned.  The number is the current delay.
\<close>

datatype life_pc =
    LTop int | LDial int | LReady nat int | LRead nat int int | LAfter nat int int | LParked nat | LSleep int | LGone

datatype sender_pc = SRecv | SWait string | SWrite string nat | SGone

datatype stop_pc = NotStopped | StopFlagged | StopDone

text \<open>The last three fields log the messages the slot accepted, took from the queue, and wrote.\<close>

record poolConn =
  pc_opts :: SendOptions
  hasRead :: bool
  sendCh :: "string list"
  conn :: "nat option"
  stopped :: bool
  open_conns :: "bool list"
  life :: life_pc
  sender :: sender_pc
  stopper :: stop_pc
  pc_accepted :: "string list"
  pc_taken :: "string list"
  pc_written :: "string list"

definition newPoolConn :: "SendOptions \<Rightarrow> bool \<Rightarrow> poolConn" where
  "newPoolConn so readFn = \<lparr>pc_opts = so, hasRead = readFn, sendCh = [], conn = None, stopped = False, open_conns = [],
     life = LTop (ReconnectInitial so), sender = SRecv, stopper = NotStopped, pc_accepted = [], pc_taken = [], pc_written = []\<rparr>"

definition shut :: "nat \<Rightarrow> poolConn \<Rightarrow> poolConn" where
  "shut c s = s\<lparr>open_conns := (open_conns s)[c := False]\<rparr>"

text \<open>
  \<open>send\<close>: on a stopped slot it gives up, unless its first \<open>select\<close> ran before the stop and its second one takes the
  queue, which is also ready; \<open>quit\<close> is false in that interleaving only.
\<close>

definition slot_send :: "bool \<Rightarrow> string \<Rightarrow> poolConn \<Rightarrow> bool \<times> poolConn" where
  "slot_send quit data s =
     (if stopped s \<and> quit then (False, s)
      else if int (length (sendCh s)) < SendBufSize (pc_opts s)
      then (True, s\<lparr>sendCh := sendCh s @ [data], pc_accepted := pc_accepted s @ [data]\<rparr>)
      else (False, s))"

definition slot_stop_flag :: "poolConn \<Rightarrow> poolConn" where
  "slot_stop_flag s = (if stopper s = NotStopped then s\<lparr>stopped := True, stopper := StopFlagged\<rparr> else s)"

definition slot_stop_conn :: "poolConn \<Rightarrow> poolConn" where
  "slot_stop_conn s =
     (if stopper s = StopFlagged
      then (case conn s of None \<Rightarrow> s\<lparr>stopper := StopDone\<rparr> | Some c \<Rightarrow> (shut c s)\<lparr>conn := None, stopper := StopDone\<rparr>)
      else s)"

text \<open>
  A step of \<open>lifecycle\<close>: whether the dial succeeds, the time, the random number, and whether the timer of
  \<open>sleepBackoff\<close> fires.
\<close>

definition life_step :: "bool \<Rightarrow> int \<Rightarrow> rat \<Rightarrow> bool \<Rightarrow> poolConn \<Rightarrow> poolConn" where
  "life_step dialled now random fired s =
     (case life s of
        LTop b \<Rightarrow> s\<lparr>life := (if stopped s then LGone else LDial b)\<rparr>
      | LDial b \<Rightarrow>
          if dialled then s\<lparr>open_conns := open_conns s @ [True], life := LReady (length (open_conns s)) b\<rparr>
          else s\<lparr>life := LSleep b\<rparr>
      | LReady c b \<Rightarrow> s\<lparr>conn := Some c, life := (if hasRead s then LRead c now b else LParked c)\<rparr>
      | LRead c since b \<Rightarrow> s\<lparr>conn := (if conn s = Some c then None else conn s), life := LAfter c since b\<rparr>
      | LAfter c since b \<Rightarrow>
          let b = (if now - since \<ge> StableThreshold (pc_opts s) then ReconnectInitial (pc_opts s) else b)
          in (shut c s)\<lparr>life := (if stopped s then LGone else LSleep b)\<rparr>
      | LParked c \<Rightarrow> if stopped s then s\<lparr>life := LGone\<rparr> else s
      | LSleep b \<Rightarrow>
          if fired then s\<lparr>life := LTop (nextBackoff b (ReconnectMax (pc_opts s)) (JitterFraction (pc_opts s)) random)\<rparr>
          else if stopped s then s\<lparr>life := LGone\<rparr> else s
      | LGone \<Rightarrow> s)"

definition breakConn :: "nat \<Rightarrow> poolConn \<Rightarrow> poolConn" where
  "breakConn c s = (if conn s = Some c then (shut c s)\<lparr>conn := None\<rparr> else s)"

text \<open>A step of \<open>sendLoop\<close>, with \<open>waitConn\<close>: a stopped slot and a message are both ready; \<open>quit\<close> says which is taken.\<close>

definition send_step :: "bool \<Rightarrow> bool \<Rightarrow> poolConn \<Rightarrow> poolConn" where
  "send_step quit ok s =
     (case sender s of
        SRecv \<Rightarrow>
          if stopped s \<and> (quit \<or> sendCh s = []) then s\<lparr>sender := SGone\<rparr>
          else (case sendCh s of
                  [] \<Rightarrow> s
                | data # rest \<Rightarrow> s\<lparr>sendCh := rest, pc_taken := pc_taken s @ [data], sender := SWait data\<rparr>)
      | SWait data \<Rightarrow>
          if stopped s then s\<lparr>sender := SGone\<rparr>
          else (case conn s of None \<Rightarrow> s | Some c \<Rightarrow> s\<lparr>sender := SWrite data c\<rparr>)
      | SWrite data c \<Rightarrow>
          if ok \<and> open_conns s ! c then s\<lparr>pc_written := pc_written s @ [data], sender := SRecv\<rparr>
          else (breakConn c s)\<lparr>sender := SRecv\<rparr>
      | SGone \<Rightarrow> s)"

datatype slot_event = SlotSend bool string | SlotStop | SlotStopConn | Life bool int rat bool | Sender bool bool

fun slot_step :: "slot_event \<Rightarrow> poolConn \<Rightarrow> poolConn" where
  "slot_step (SlotSend quit data) s = snd (slot_send quit data s)"
| "slot_step SlotStop s = slot_stop_flag s"
| "slot_step SlotStopConn s = slot_stop_conn s"
| "slot_step (Life dialled now random fired) s = life_step dialled now random fired s"
| "slot_step (Sender quit ok) s = send_step quit ok s"

section \<open>The pool\<close>

record send_pool =
  sp_conns :: "poolConn list"
  sp_counter :: nat

definition sp_New :: "SendOptions \<Rightarrow> bool \<Rightarrow> send_pool" where
  "sp_New so readFn = (let so = send_setDefaults so in \<lparr>sp_conns = replicate (nat (PoolSize so)) (newPoolConn so readFn), sp_counter = 0\<rparr>)"

definition sp_at :: "nat \<Rightarrow> string \<Rightarrow> send_pool \<Rightarrow> bool \<times> send_pool" where
  "sp_at idx data p = (let (ok, s) = slot_send True data (sp_conns p ! idx) in (ok, p\<lparr>sp_conns := (sp_conns p)[idx := s]\<rparr>))"

definition sp_Send :: "string \<Rightarrow> send_pool \<Rightarrow> bool \<times> send_pool" where
  "sp_Send data p = sp_at (Suc (sp_counter p) mod length (sp_conns p)) data (p\<lparr>sp_counter := Suc (sp_counter p)\<rparr>)"

text \<open>A negative slot gives a negative index in Go, which panics.\<close>

definition sp_SendTo :: "int \<Rightarrow> string \<Rightarrow> send_pool \<Rightarrow> (bool \<times> send_pool) option" where
  "sp_SendTo k data p =
     (let idx = k - go_div k (int (length (sp_conns p))) * int (length (sp_conns p))
      in if idx < 0 then None else Some (sp_at (nat idx) data p))"

definition sp_Close :: "send_pool \<Rightarrow> send_pool" where
  "sp_Close p = p\<lparr>sp_conns := map (slot_stop_conn \<circ> slot_stop_flag) (sp_conns p)\<rparr>"

definition ConnCount :: "send_pool \<Rightarrow> nat" where
  "ConnCount p = length (filter (\<lambda>s. conn s \<noteq> None) (sp_conns p))"

section \<open>Messages\<close>

definition send_inv :: "poolConn \<Rightarrow> bool" where
  "send_inv s \<longleftrightarrow> pc_accepted s = pc_taken s @ sendCh s \<and> int (length (sendCh s)) \<le> SendBufSize (pc_opts s) \<and>
     (case sender s of
        SWait data \<Rightarrow> \<exists>before. pc_taken s = before @ [data] \<and> subseq (pc_written s) before
      | SWrite data c \<Rightarrow> \<exists>before. pc_taken s = before @ [data] \<and> subseq (pc_written s) before
      | _ \<Rightarrow> subseq (pc_written s) (pc_taken s))"

lemma send_inv_views:
  assumes "send_inv s" and "pc_accepted t = pc_accepted s" "pc_taken t = pc_taken s" "sendCh t = sendCh s" "pc_opts t = pc_opts s"
    "sender t = sender s" "pc_written t = pc_written s"
  shows "send_inv t"
  using assms by (simp add: send_inv_def split: sender_pc.splits)

lemma shut_views [simp]:
  "pc_accepted (shut c s) = pc_accepted s" "pc_taken (shut c s) = pc_taken s" "sendCh (shut c s) = sendCh s" "pc_opts (shut c s) = pc_opts s"
  "sender (shut c s) = sender s" "pc_written (shut c s) = pc_written s" "conn (shut c s) = conn s" "hasRead (shut c s) = hasRead s"
  "life (shut c s) = life s" "stopped (shut c s) = stopped s"
  by (simp_all add: shut_def)

lemma breakConn_views [simp]:
  "pc_accepted (breakConn c s) = pc_accepted s" "pc_taken (breakConn c s) = pc_taken s" "sendCh (breakConn c s) = sendCh s"
  "pc_opts (breakConn c s) = pc_opts s" "pc_written (breakConn c s) = pc_written s" "hasRead (breakConn c s) = hasRead s"
  "life (breakConn c s) = life s"
  by (simp_all add: breakConn_def)

lemma life_step_inv: "send_inv s \<Longrightarrow> send_inv (life_step dialled now random fired s)"
  by (erule send_inv_views) (simp_all add: life_step_def Let_def split: life_pc.split)

lemma send_step_inv:
  assumes "send_inv s"
  shows "send_inv (send_step quit ok s)"
proof (cases "sender s")
  case SRecv
  then show ?thesis using assms by (auto simp: send_step_def send_inv_def split: list.split)
next
  case (SWait data)
  then have "subseq (pc_written s) (pc_taken s)" using assms by (auto simp: send_inv_def)
  then show ?thesis using assms SWait by (auto simp: send_step_def send_inv_def split: option.split)
next
  case (SWrite data c)
  then obtain before where b: "pc_taken s = before @ [data]" "subseq (pc_written s) before" using assms by (auto simp: send_inv_def)
  then have "subseq (pc_written s @ [data]) (pc_taken s)" "subseq (pc_written s) (pc_taken s)" by (simp_all add: list_emb_append_mono subseq_rev_drop_many)
  then show ?thesis using assms SWrite by (simp add: send_step_def send_inv_def)
qed (use assms in \<open>simp add: send_step_def\<close>)

lemma slot_step_inv: "send_inv s \<Longrightarrow> send_inv (slot_step ev s)"
proof (cases ev)
  case (SlotSend quit data)
  assume "send_inv s"
  then show ?thesis using SlotSend by (auto simp: slot_send_def send_inv_def split: sender_pc.splits)
next
  case SlotStop
  assume "send_inv s"
  then show ?thesis using SlotStop by (auto simp: slot_stop_flag_def elim: send_inv_views)
next
  case SlotStopConn
  assume "send_inv s"
  then have "send_inv (slot_stop_conn s)" by (rule send_inv_views) (simp_all add: slot_stop_conn_def split: option.split)
  then show ?thesis using SlotStopConn by simp
qed (simp_all add: life_step_inv send_step_inv)

lemma slot_run_inv: "send_inv s \<Longrightarrow> send_inv (fold slot_step evs s)"
  by (induction evs arbitrary: s) (simp_all add: slot_step_inv)

section \<open>Properties\<close>

text \<open>
  C35: A slot sends in order and at most once.  In every history the messages it accepted are those it took from its
  queue followed by those in the queue, the queue is within its capacity, and the messages written are a subsequence of
  those taken: none is written twice, and none overtakes another.
\<close>

theorem sends_in_order_at_most_once:
  assumes "s = fold slot_step evs (newPoolConn so readFn)" and "0 < SendBufSize so"
  shows "pc_accepted s = pc_taken s @ sendCh s \<and> int (length (sendCh s)) \<le> SendBufSize (pc_opts s) \<and>
    subseq (pc_written s) (pc_taken s) \<and> length (pc_written s) \<le> length (pc_accepted s)"
proof -
  have "send_inv (newPoolConn so readFn)" using assms(2) by (simp add: newPoolConn_def send_inv_def)
  then have inv: "send_inv s" unfolding assms(1) by (rule slot_run_inv)
  then have "subseq (pc_written s) (pc_taken s)" by (auto simp: send_inv_def split: sender_pc.splits)
  moreover from list_emb_length [OF this] have "length (pc_written s) \<le> length (pc_taken s)" .
  ultimately show ?thesis using inv by (simp add: send_inv_def)
qed

definition demo_send_opts :: SendOptions where
  "demo_send_opts = \<lparr>PoolSize = 1, ReconnectInitial = 10, ReconnectMax = 100, StableThreshold = 50, JitterFraction = 0, SendBufSize = 2\<rparr>"

definition demo_up :: "slot_event list" where
  "demo_up = [Life True 0 0 False, Life True 0 0 False, Life True 0 0 False]"

definition demo_broken :: "slot_event list" where
  "demo_broken = demo_up @ [SlotSend False ''a'', SlotSend False ''b'', Sender False True, Sender False True, Sender False True,
     Sender False True, Sender False True, Sender False False]"

theorem sends_in_order_at_most_once_witness:
  "subseq (pc_written (fold slot_step demo_broken (newPoolConn demo_send_opts True))) (pc_taken (fold slot_step demo_broken (newPoolConn demo_send_opts True))) \<and>
   pc_written (fold slot_step demo_broken (newPoolConn demo_send_opts True)) = [''a'']"
proof -
  have "pc_written (fold slot_step demo_broken (newPoolConn demo_send_opts True)) = [''a'']" by code_simp
  moreover have "0 < SendBufSize demo_send_opts" by (simp add: demo_send_opts_def)
  ultimately show ?thesis using sends_in_order_at_most_once [OF refl, of demo_send_opts demo_broken True] by simp
qed



text \<open>
  Closing a pool during a dial leaks the connection.  When the slot is stopped after the dial has succeeded and before
  the connection is published, the connection is published afterwards and stays open: \<open>stop\<close> has returned, the sender
  returns, and \<open>lifecycle\<close> is inside the read function of a connection that nobody closes.
\<close>

theorem stop_during_dial_leaks:
  "let s = fold slot_step (take 2 demo_up @ [SlotStop, SlotStopConn, Life True 0 0 False, Sender True True]) (newPoolConn demo_send_opts True)
   in stopper s = StopDone \<and> sender s = SGone \<and> conn s = Some 0 \<and> open_conns s ! 0 \<and> life s = LRead 0 0 10"
  by code_simp

text \<open>
  The delay between two dials doubles and is capped: with positive limits it is at least the smaller of twice the
  previous delay and the cap, and never above the cap, whatever the jitter.
\<close>

theorem nextBackoff_bounded:
  assumes "0 < cur" and "0 < most" and "0 \<le> random"
  shows "min (2 * cur) most \<le> nextBackoff cur most fraction random \<and> nextBackoff cur most fraction random \<le> most"
proof -
  let ?a = "if cur * 2 > most then most else cur * 2"
  let ?j = "\<lfloor>rat_of_int ?a * fraction * random\<rfloor>"
  have a: "0 < ?a" "min (2 * cur) most = ?a" "?a \<le> most" using assms(1,2) by auto
  have n: "nextBackoff cur most fraction random = (if fraction > 0 then if ?a + ?j > most then most else ?a + ?j else ?a)"
    by (simp only: nextBackoff_def Let_def)
  show ?thesis
  proof (cases "0 < fraction")
    case True
    have "0 \<le> rat_of_int ?a * fraction * random"
      by (intro mult_nonneg_nonneg) (use a(1) True assms(3) in \<open>simp_all only: of_int_0_le_iff less_imp_le\<close>)
    then have "0 \<le> ?j" by (simp only: zero_le_floor)
    then show ?thesis unfolding n a(2) using a(3) True by simp
  qed (use a n in simp)
qed

theorem nextBackoff_bounded_witness: "min 20 100 \<le> nextBackoff 10 100 (2 / 10) (1 / 2) \<and> nextBackoff 10 100 (2 / 10) (1 / 2) \<le> 100"
  using nextBackoff_bounded [of 10 100 "1 / 2" "2 / 10"] by simp

end
