(* ===== verification/Gate_Server.thy ===== *)
theory Gate_Server
  imports Frame_Codec
begin

text \<open>
  The gate (\<open>gate/server.go\<close>) with the accept helper (\<open>internal/netutil/accept.go\<close>).  The accept loop, the body of
  \<open>Stop\<close>, and of every connection its \<open>run\<close> and its \<open>writeLoop\<close>, have program counters; a history is a list of
  events, each of which is one section under the lock, one channel operation, one read or write, or one callback.
  What the network delivers and whether a write succeeds are arguments of the events.
\<close>

section \<open>Accepting with back-off\<close>

definition initialAcceptDelay :: int where "initialAcceptDelay = 5000000"
definition maxAcceptDelay :: int where "maxAcceptDelay = 1000000000"

definition nextAcceptDelay :: "int \<Rightarrow> int" where
  "nextAcceptDelay current =
     (if current = 0 then initialAcceptDelay
      else if current \<ge> maxAcceptDelay div 2 then maxAcceptDelay
      else current * 2)"

text \<open>
  \<open>Accept\<close> on a list of outcomes, one per round: a connection, or an error with what the two looks at the stop channel
  see.  The result has the delays that were reported, and \<open>None\<close> for a round that has not ended.
\<close>

datatype accept_round = Accepted nat | AcceptFailed bool bool

fun Accept :: "int \<Rightarrow> accept_round list \<Rightarrow> nat option option \<times> int list" where
  "Accept delay [] = (None, [])"
| "Accept delay (Accepted raw # rest) = (Some (Some raw), [])"
| "Accept delay (AcceptFailed stopped_before stopped_after # rest) =
     (if stopped_before then (Some None, [])
      else let delay = nextAcceptDelay delay
           in if stopped_after then (Some None, [delay])
              else let (result, delays) = Accept delay rest in (result, delay # delays))"

section \<open>State\<close>

record Gate_Options =
  Address :: string
  MaxConnections :: int
  g_MaxPayload :: nat
  g_SendQueue :: int
  g_ReadTimeout :: int
  g_WriteTimeout :: int
  g_SendTimeout :: int
  g_TCPKeepAlive :: int

definition gate_defaults :: "Gate_Options \<Rightarrow> Gate_Options" where
  "gate_defaults go = go\<lparr>
     Address := (if Address go = '''' then ''127.0.0.1:0'' else Address go),
     MaxConnections := (if MaxConnections go \<le> 0 then 1024 else MaxConnections go),
     g_MaxPayload := (if g_MaxPayload go = 0 then MaxPayload else g_MaxPayload go),
     g_SendQueue := (if g_SendQueue go \<le> 0 then 128 else g_SendQueue go),
     g_SendTimeout := (if g_SendTimeout go \<le> 0 then 5000000 else g_SendTimeout go)\<rparr>"

datatype gate_error = ErrGateClosed | ErrQueueFull | GateCtx ctx_error | GateIO string

datatype callback = OnOpen | OnMessage string | OnClose gate_error

datatype run_pc = RunStart | RunReading | RunLeaving gate_error | RunRemoved gate_error | RunDone

datatype gate_writer = WriterIdle | WriterSelect | WriterEnded gate_error

text \<open>Of a connection also the callbacks that ran, the payloads the queue accepted and those written.\<close>

record Gate_Conn =
  gc_id :: nat
  gc_closed :: bool
  gc_send :: "string list"
  gc_run :: run_pc
  gc_writer :: gate_writer
  gc_log :: "callback list"
  gc_accepted :: "string list"
  gc_written :: "string list"

datatype accept_pc = NoLoop | AtAccept | Admitting | AcceptGone

datatype gate_stop = NotStopping | StopClosing | StopWaiting

record Server =
  g_opts :: Gate_Options
  listening :: bool
  connections :: "nat list"
  nextID :: nat
  g_stopping :: bool
  acceptor :: accept_pc
  g_stop :: gate_stop
  gate_conns :: "Gate_Conn list"

text \<open>Connections get the numbers 1, 2, ...; the one with number \<open>k\<close> is at position \<open>k - 1\<close> of the list.\<close>

definition gate_fresh :: "Gate_Options \<Rightarrow> Server" where
  "gate_fresh go = \<lparr>g_opts = go, listening = False, connections = [], nextID = 0, g_stopping = False,
     acceptor = NoLoop, g_stop = NotStopping, gate_conns = []\<rparr>"

text \<open>\<open>New\<close>; \<open>handler\<close> when a handler was given.\<close>

definition gate_New :: "bool \<Rightarrow> Gate_Options \<Rightarrow> Server option" where
  "gate_New handler go = (if \<not> handler then None else Some (gate_fresh (gate_defaults go)))"

definition newConn :: "nat \<Rightarrow> Gate_Conn" where
  "newConn k = \<lparr>gc_id = k, gc_closed = False, gc_send = [], gc_run = RunStart, gc_writer = WriterIdle, gc_log = [],
     gc_accepted = [], gc_written = []\<rparr>"

definition upd :: "nat \<Rightarrow> (Gate_Conn \<Rightarrow> Gate_Conn) \<Rightarrow> Server \<Rightarrow> Server" where
  "upd i f s = s\<lparr>gate_conns := (gate_conns s)[i := f (gate_conns s ! i)]\<rparr>"

section \<open>The server\<close>

definition gate_Start :: "bool \<Rightarrow> Server \<Rightarrow> bool \<times> Server" where
  "gate_Start listen_ok s =
     (if acceptor s \<noteq> NoLoop then (False, s)
      else if \<not> listen_ok then (False, s)
      else (True, s\<lparr>listening := True, acceptor := AtAccept\<rparr>))"

text \<open>\<open>Accept\<close> returns a connection, or gives up, which it does only on a stopped server.\<close>

definition accept_return :: "bool \<Rightarrow> Server \<Rightarrow> Server" where
  "accept_return got s =
     (if acceptor s \<noteq> AtAccept then s
      else if got then (if listening s then s\<lparr>acceptor := Admitting\<rparr> else s)
      else if g_stopping s then s\<lparr>acceptor := AcceptGone\<rparr> else s)"

definition accept_admit :: "Server \<Rightarrow> Server" where
  "accept_admit s =
     (if acceptor s \<noteq> Admitting then s
      else if int (length (connections s)) \<ge> MaxConnections (g_opts s) then s\<lparr>acceptor := AtAccept\<rparr>
      else let k = nextID s + 1
           in s\<lparr>nextID := k, connections := connections s @ [k], gate_conns := gate_conns s @ [newConn k], acceptor := AtAccept\<rparr>)"

definition Close_conn :: "Gate_Conn \<Rightarrow> Gate_Conn" where
  "Close_conn c = c\<lparr>gc_closed := True\<rparr>"

definition gate_remove :: "nat \<Rightarrow> Server \<Rightarrow> Server" where
  "gate_remove k s = s\<lparr>connections := removeAll k (connections s)\<rparr>"

definition gate_Stop_flag :: "Server \<Rightarrow> Server" where
  "gate_Stop_flag s = (if g_stop s = NotStopping then s\<lparr>g_stopping := True, g_stop := StopClosing\<rparr> else s)"

definition gate_Stop_close :: "Server \<Rightarrow> Server" where
  "gate_Stop_close s =
     (if g_stop s = StopClosing
      then s\<lparr>listening := False, gate_conns := map (\<lambda>c. if gc_id c \<in> set (connections s) then Close_conn c else c) (gate_conns s),
             g_stop := StopWaiting\<rparr>
      else s)"

section \<open>A connection\<close>

datatype gate_select = GDone | GCtx ctx_error | GTimer | GQueue

text \<open>\<open>Send\<close> with the case its \<open>select\<close> takes; \<open>None\<close> when that case is not ready.\<close>

definition Send :: "nat \<Rightarrow> gate_select \<Rightarrow> string \<Rightarrow> Gate_Conn \<Rightarrow> (gate_error option \<times> Gate_Conn) option" where
  "Send cap choice payload c =
     (case choice of
        GDone \<Rightarrow> if gc_closed c then Some (Some ErrGateClosed, c) else None
      | GCtx err \<Rightarrow> Some (Some (GateCtx err), c)
      | GTimer \<Rightarrow> Some (Some ErrQueueFull, c)
      | GQueue \<Rightarrow>
          if length (gc_send c) < cap
          then Some (None, c\<lparr>gc_send := gc_send c @ [payload], gc_accepted := gc_accepted c @ [payload]\<rparr>) else None)"

text \<open>\<open>TrySend\<close>; \<open>late\<close> when its first \<open>select\<close> ran before the connection was closed.\<close>

definition TrySend :: "nat \<Rightarrow> bool \<Rightarrow> string \<Rightarrow> Gate_Conn \<Rightarrow> gate_error option \<times> Gate_Conn" where
  "TrySend cap late payload c =
     (if gc_closed c \<and> \<not> late then (Some ErrGateClosed, c)
      else if length (gc_send c) < cap
      then (None, c\<lparr>gc_send := gc_send c @ [payload], gc_accepted := gc_accepted c @ [payload]\<rparr>)
      else if gc_closed c then (Some ErrGateClosed, c) else (Some ErrQueueFull, c))"

definition run_open :: "Gate_Conn \<Rightarrow> Gate_Conn" where
  "run_open c = (if gc_run c = RunStart then c\<lparr>gc_log := gc_log c @ [OnOpen], gc_run := RunReading, gc_writer := WriterSelect\<rparr> else c)"

text \<open>One round of \<open>readLoop\<close>, with the close that follows its end.\<close>

definition run_read :: "gate_error + string \<Rightarrow> Gate_Conn \<Rightarrow> Gate_Conn" where
  "run_read frame c =
     (if gc_run c \<noteq> RunReading then c
      else case frame of
        Inr payload \<Rightarrow> c\<lparr>gc_log := gc_log c @ [OnMessage payload]\<rparr>
      | Inl err \<Rightarrow> (Close_conn c)\<lparr>gc_run := RunLeaving err\<rparr>)"

definition run_remove :: "nat \<Rightarrow> Server \<Rightarrow> Server" where
  "run_remove i s =
     (case gc_run (gate_conns s ! i) of
        RunLeaving err \<Rightarrow> gate_remove (gc_id (gate_conns s ! i)) (upd i (\<lambda>c. c\<lparr>gc_run := RunRemoved err\<rparr>) s)
      | _ \<Rightarrow> s)"

definition run_close :: "Gate_Conn \<Rightarrow> Gate_Conn" where
  "run_close c = (case gc_run c of RunRemoved err \<Rightarrow> c\<lparr>gc_log := gc_log c @ [OnClose err], gc_run := RunDone\<rparr> | _ \<Rightarrow> c)"

definition write_round :: "bool \<Rightarrow> bool \<Rightarrow> Gate_Conn \<Rightarrow> Gate_Conn" where
  "write_round quit ok c =
     (if gc_writer c \<noteq> WriterSelect then c
      else if gc_closed c \<and> (quit \<or> gc_send c = []) then (Close_conn c)\<lparr>gc_writer := WriterEnded ErrGateClosed\<rparr>
      else case gc_send c of
        [] \<Rightarrow> c
      | payload # rest \<Rightarrow>
          if ok \<and> \<not> gc_closed c then c\<lparr>gc_send := rest, gc_written := gc_written c @ [payload]\<rparr>
          else (Close_conn (c\<lparr>gc_send := rest\<rparr>))\<lparr>gc_writer := WriterEnded (GateIO ''write'')\<rparr>)"

section \<open>Histories\<close>

datatype gate_event =
    GStart bool
  | GAccept bool
  | GAdmit
  | GStopFlag
  | GStopClose
  | GSend nat gate_select string
  | GTrySend nat bool string
  | GClose nat
  | GOpen nat
  | GRead nat "gate_error + string"
  | GRemove nat
  | GOnClose nat
  | GWrite nat bool bool

definition queue_cap :: "Server \<Rightarrow> nat" where "queue_cap s = nat (g_SendQueue (g_opts s))"

definition on_conn :: "nat \<Rightarrow> (Gate_Conn \<Rightarrow> Gate_Conn) \<Rightarrow> Server \<Rightarrow> Server" where
  "on_conn i f s = (if i < length (gate_conns s) then upd i f s else s)"

fun gate_step :: "gate_event \<Rightarrow> Server \<Rightarrow> Server" where
  "gate_step (GStart ok) s = snd (gate_Start ok s)"
| "gate_step (GAccept got) s = accept_return got s"
| "gate_step GAdmit s = accept_admit s"
| "gate_step GStopFlag s = gate_Stop_flag s"
| "gate_step GStopClose s = gate_Stop_close s"
| "gate_step (GSend i choice payload) s =
     on_conn i (\<lambda>c. case Send (queue_cap s) choice payload c of None \<Rightarrow> c | Some (_, c') \<Rightarrow> c') s"
| "gate_step (GTrySend i late payload) s = on_conn i (\<lambda>c. snd (TrySend (queue_cap s) late payload c)) s"
| "gate_step (GClose i) s = on_conn i Close_conn s"
| "gate_step (GOpen i) s = on_conn i run_open s"
| "gate_step (GRead i frame) s = on_conn i (run_read frame) s"
| "gate_step (GRemove i) s = (if i < length (gate_conns s) then run_remove i s else s)"
| "gate_step (GOnClose i) s = on_conn i run_close s"
| "gate_step (GWrite i quit ok) s = on_conn i (write_round quit ok) s"

section \<open>Invariants\<close>

definition leaving :: "run_pc \<Rightarrow> bool" where
  "leaving r \<longleftrightarrow> r \<noteq> RunStart \<and> r \<noteq> RunReading"

definition gone :: "run_pc \<Rightarrow> bool" where
  "gone r = (case r of RunRemoved _ \<Rightarrow> True | RunDone \<Rightarrow> True | _ \<Rightarrow> False)"

definition log_shape :: "run_pc \<Rightarrow> callback list \<Rightarrow> bool" where
  "log_shape r l \<longleftrightarrow>
     (case r of
        RunStart \<Rightarrow> l = []
      | RunDone \<Rightarrow> \<exists>ps err. l = OnOpen # map OnMessage ps @ [OnClose err]
      | _ \<Rightarrow> \<exists>ps. l = OnOpen # map OnMessage ps)"

text \<open>Payloads are written in the order the queue took them; the one whose write failed is the last the writer took.\<close>

definition in_order :: "Gate_Conn \<Rightarrow> bool" where
  "in_order c \<longleftrightarrow> gc_accepted c = gc_written c @ gc_send c \<or>
     (\<exists>payload err. gc_accepted c = gc_written c @ payload # gc_send c \<and> gc_writer c = WriterEnded err)"

definition conn_ok :: "nat \<Rightarrow> Gate_Conn \<Rightarrow> bool" where
  "conn_ok cap c \<longleftrightarrow> log_shape (gc_run c) (gc_log c) \<and> (leaving (gc_run c) \<longrightarrow> gc_closed c) \<and>
     length (gc_send c) \<le> cap \<and> in_order c \<and> (gc_run c = RunStart \<longrightarrow> gc_writer c = WriterIdle)"

text \<open>The table has the numbers of the connections that were not removed.\<close>

definition present :: "Gate_Conn list \<Rightarrow> nat list" where
  "present cs = map gc_id (filter (\<lambda>c. \<not> gone (gc_run c)) cs)"

definition gate_ok :: "Server \<Rightarrow> bool" where
  "gate_ok s \<longleftrightarrow> map gc_id (gate_conns s) = [1..<Suc (nextID s)] \<and> connections s = present (gate_conns s) \<and>
     int (length (connections s)) \<le> MaxConnections (g_opts s) \<and> (\<forall>c \<in> set (gate_conns s). conn_ok (queue_cap s) c)"

lemma gate_okD:
  assumes "gate_ok s"
  shows "map gc_id (gate_conns s) = [1..<Suc (nextID s)]" and "connections s = present (gate_conns s)"
    and "int (length (connections s)) \<le> MaxConnections (g_opts s)" and "\<And>c. c \<in> set (gate_conns s) \<Longrightarrow> conn_ok (queue_cap s) c"
  using assms unfolding gate_ok_def by blast+

lemma present_update:
  assumes "i < length cs" and "gc_id x = gc_id (cs ! i)" and "gone (gc_run x) = gone (gc_run (cs ! i))"
  shows "present (cs[i := x]) = present cs" and "map gc_id (cs[i := x]) = map gc_id cs"
proof -
  have cs: "cs = take i cs @ cs ! i # drop (Suc i) cs" by (rule id_take_nth_drop [OF assms(1)])
  have up: "cs[i := x] = take i cs @ x # drop (Suc i) cs" using assms(1) by (rule upd_conv_take_nth_drop)
  show "present (cs[i := x]) = present cs" unfolding up by (subst (3) cs) (use assms(2,3) in \<open>simp add: present_def\<close>)
  show "map gc_id (cs[i := x]) = map gc_id cs" unfolding up by (subst (3) cs) (use assms(2) in simp)
qed

lemma gate_on_conn:
  assumes "gate_ok s" and "\<And>c. conn_ok (queue_cap s) c \<Longrightarrow> conn_ok (queue_cap s) (f c)" and "\<And>c. gc_id (f c) = gc_id c"
    and "\<And>c. gone (gc_run (f c)) = gone (gc_run c)"
  shows "gate_ok (on_conn i f s)"
proof (cases "i < length (gate_conns s)")
  case True
  note u = present_update [OF True, of "f (gate_conns s ! i)", OF assms(3,4)]
  have "conn_ok (queue_cap s) c" if "c \<in> set ((gate_conns s)[i := f (gate_conns s ! i)])" for c
    using that assms(1,2) True set_update_subset_insert [of "gate_conns s" i "f (gate_conns s ! i)"]
    by (auto simp: gate_ok_def)
  then show ?thesis using gate_okD(1-3) [OF assms(1)] u True by (simp add: gate_ok_def on_conn_def upd_def queue_cap_def)
qed (use assms(1) in \<open>simp add: on_conn_def\<close>)

lemma conn_ops_ok:
  "conn_ok cap c \<Longrightarrow> conn_ok cap (Close_conn c)" "conn_ok cap c \<Longrightarrow> conn_ok cap (run_open c)" "conn_ok cap c \<Longrightarrow> conn_ok cap (run_read frame c)"
  "conn_ok cap c \<Longrightarrow> conn_ok cap (write_round quit ok c)" "conn_ok cap c \<Longrightarrow> conn_ok cap (snd (TrySend cap late payload c))"
proof -
  assume c: "conn_ok cap c"
  show "conn_ok cap (Close_conn c)" using c by (simp add: conn_ok_def in_order_def Close_conn_def)
  show "conn_ok cap (run_open c)" using c by (auto simp: conn_ok_def in_order_def run_open_def leaving_def log_shape_def)
  show "conn_ok cap (run_read frame c)"
  proof (cases "gc_run c = RunReading")
    case True
    then obtain ps where ps: "gc_log c = OnOpen # map OnMessage ps" using c by (auto simp: conn_ok_def in_order_def log_shape_def)
    have "log_shape RunReading (gc_log c @ [OnMessage p])" for p
      unfolding log_shape_def ps run_pc.case by (rule exI [of _ "ps @ [p]"]) simp
    then show ?thesis using c True by (auto simp: conn_ok_def in_order_def run_read_def leaving_def Close_conn_def log_shape_def split: sum.split)
  qed (use c in \<open>simp add: run_read_def\<close>)
  show "conn_ok cap (write_round quit ok c)" using c by (auto simp: conn_ok_def in_order_def write_round_def Close_conn_def split: list.split)
  show "conn_ok cap (snd (TrySend cap late payload c))" using c by (auto simp: conn_ok_def in_order_def TrySend_def)
qed

lemma send_conn_ok: "conn_ok cap c \<Longrightarrow> Send cap choice payload c = Some (r, c') \<Longrightarrow> conn_ok cap c'"
  by (auto simp: conn_ok_def in_order_def Send_def split: gate_select.splits if_splits)

lemma close_conn_ok: "conn_ok cap c \<Longrightarrow> conn_ok cap (run_close c)"
  by (auto simp: conn_ok_def in_order_def run_close_def log_shape_def leaving_def split: run_pc.split)

lemma conn_views:
  "gc_id (Close_conn c) = gc_id c" "gc_id (run_open c) = gc_id c" "gc_id (run_read frame c) = gc_id c" "gc_id (run_close c) = gc_id c"
  "gc_id (write_round quit ok c) = gc_id c" "gc_id (snd (TrySend cap late payload c)) = gc_id c"
  "gone (gc_run (Close_conn c)) = gone (gc_run c)" "gone (gc_run (run_open c)) = gone (gc_run c)" "gone (gc_run (run_read frame c)) = gone (gc_run c)"
  "gone (gc_run (run_close c)) = gone (gc_run c)" "gone (gc_run (write_round quit ok c)) = gone (gc_run c)"
  "gone (gc_run (snd (TrySend cap late payload c))) = gone (gc_run c)"
  by (auto simp: Close_conn_def run_open_def run_read_def run_close_def write_round_def TrySend_def gone_def
      split: sum.split run_pc.split list.split)

lemma gate_send_ok: "gate_ok s \<Longrightarrow> gate_ok (on_conn i (\<lambda>c. case Send (queue_cap s) choice payload c of None \<Rightarrow> c | Some (_, c') \<Rightarrow> c') s)"
  by (rule gate_on_conn) (auto dest: send_conn_ok split: option.split,
      auto simp: Send_def split: gate_select.splits if_splits option.splits)

lemma gate_remove_ok:
  assumes s: "gate_ok s" and i: "i < length (gate_conns s)"
  shows "gate_ok (run_remove i s)"
proof (cases "gc_run (gate_conns s ! i)")
  case (RunLeaving err)
  let ?cs = "gate_conns s" let ?x = "(gate_conns s ! i)\<lparr>gc_run := RunRemoved err\<rparr>"
  let ?a = "take i ?cs" let ?b = "drop (Suc i) ?cs"
  have cs: "?cs = ?a @ ?cs ! i # ?b" by (rule id_take_nth_drop [OF i])
  have up: "?cs[i := ?x] = ?a @ ?x # ?b" using i by (rule upd_conv_take_nth_drop)
  have ids: "map gc_id ?cs = map gc_id ?a @ gc_id (?cs ! i) # map gc_id ?b" by (subst (1) cs) simp
  have "distinct (map gc_id ?cs)" using s by (simp add: gate_ok_def del: upt_Suc)
  then have "gc_id (?cs ! i) \<notin> gc_id ` (set ?a \<union> set ?b)" unfolding ids by auto
  then have out: "removeAll (gc_id (?cs ! i)) (present ?a) = present ?a" "removeAll (gc_id (?cs ! i)) (present ?b) = present ?b"
    by (auto simp: present_def intro!: removeAll_id)
  have pr: "present ?cs = present ?a @ gc_id (?cs ! i) # present ?b"
    by (subst (1) cs) (simp add: present_def gone_def RunLeaving)
  have "present (?cs[i := ?x]) = present ?a @ present ?b" unfolding up by (simp add: present_def gone_def)
  also have "\<dots> = removeAll (gc_id (?cs ! i)) (present ?cs)" unfolding pr using out by simp
  finally have tab: "removeAll (gc_id (?cs ! i)) (connections s) = present (?cs[i := ?x])" using s by (simp add: gate_ok_def)
  have "map gc_id (?cs[i := ?x]) = map gc_id ?cs" unfolding up ids by simp
  moreover have "conn_ok (queue_cap s) ?x" using s i RunLeaving by (auto simp: gate_ok_def conn_ok_def in_order_def log_shape_def leaving_def dest!: nth_mem)
  then have "conn_ok (queue_cap s) c" if "c \<in> set (?cs[i := ?x])" for c
    using that s set_update_subset_insert [of ?cs i ?x] by (auto simp: gate_ok_def)
  moreover have "int (length (removeAll (gc_id (?cs ! i)) (connections s))) \<le> MaxConnections (g_opts s)"
    using gate_okD(3) [OF s] length_removeAll_less_eq [of "gc_id (?cs ! i)" "connections s"] by linarith
  ultimately show ?thesis using s tab RunLeaving by (simp add: gate_ok_def run_remove_def gate_remove_def upd_def queue_cap_def)
qed (use s in \<open>simp_all add: run_remove_def\<close>)

lemma gate_admit_ok: "gate_ok s \<Longrightarrow> gate_ok (accept_admit s)"
proof -
  assume s: "gate_ok s"
  have "conn_ok (queue_cap s) (newConn k)" "\<not> gone (gc_run (newConn k))" "gc_id (newConn k) = k" for k
    by (simp_all add: conn_ok_def in_order_def newConn_def log_shape_def leaving_def gone_def)
  then show ?thesis using gate_okD [OF s]
    by (auto simp: gate_ok_def accept_admit_def present_def queue_cap_def Let_def)
qed

lemma gate_map_ok:
  assumes s: "gate_ok s" and f: "\<And>c. conn_ok (queue_cap s) c \<Longrightarrow> conn_ok (queue_cap s) (f c)" "\<And>c. gc_id (f c) = gc_id c"
    "\<And>c. gone (gc_run (f c)) = gone (gc_run c)"
  shows "gate_ok (s\<lparr>listening := l, gate_conns := map f (gate_conns s), g_stop := p\<rparr>)"
proof -
  have "present (map f cs) = present cs" "map gc_id (map f cs) = map gc_id cs" for cs
    by (induction cs) (simp_all add: present_def f)
  then show ?thesis using gate_okD [OF s] f(1) unfolding gate_ok_def by (auto simp: queue_cap_def simp del: map_map upt_Suc)
qed

lemma gate_stop_ok: "gate_ok s \<Longrightarrow> gate_ok (gate_Stop_close s)"
  unfolding gate_Stop_close_def by (auto intro!: gate_map_ok simp: conn_ops_ok conn_views split: if_splits)

lemma gate_close_ok: "gate_ok s \<Longrightarrow> gate_ok (on_conn i run_close s)"
  by (rule gate_on_conn) (simp_all add: close_conn_ok conn_views)

lemma gate_step_ok: "gate_ok s \<Longrightarrow> gate_ok (gate_step ev s)"
proof (cases ev)
  case (GSend i choice payload)
  assume "gate_ok s" then show ?thesis unfolding GSend gate_step.simps by (rule gate_send_ok)
next
  case (GRemove i)
  assume "gate_ok s" then show ?thesis unfolding GRemove gate_step.simps by (simp add: gate_remove_ok)
qed (auto simp: gate_admit_ok gate_stop_ok gate_close_ok conn_ops_ok conn_views gate_Start_def accept_return_def gate_Stop_flag_def
    intro!: gate_on_conn, auto simp: gate_ok_def queue_cap_def)

lemma gate_run_ok: "gate_New handler go = Some s \<Longrightarrow> gate_ok (fold gate_step evs s)"
proof -
  assume "gate_New handler go = Some s"
  then have "gate_ok s" by (auto simp: gate_New_def gate_fresh_def gate_ok_def present_def gate_defaults_def split: if_splits)
  then show ?thesis by (induction evs arbitrary: s) (simp_all add: gate_step_ok)
qed

lemma in_order_prefix: "in_order c \<Longrightarrow> \<exists>rest. gc_accepted c = gc_written c @ rest"
  unfolding in_order_def by blast

lemma log_shape_cases:
  "log_shape r l \<Longrightarrow> l = [] \<or> (\<exists>ps. l = OnOpen # map OnMessage ps) \<or> (r = RunDone \<and> (\<exists>ps err. l = OnOpen # map OnMessage ps @ [OnClose err]))"
  by (auto simp: log_shape_def split: run_pc.splits)

lemma not_in_table:
  assumes s: "gate_ok s" and c: "c \<in> set (gate_conns s)" and g: "gone (gc_run c)"
  shows "gc_id c \<notin> set (connections s)"
proof
  assume "gc_id c \<in> set (connections s)"
  then obtain d where d: "d \<in> set (gate_conns s)" "\<not> gone (gc_run d)" "gc_id d = gc_id c"
    unfolding gate_okD(2) [OF s] present_def by auto
  have "distinct (map gc_id (gate_conns s))" unfolding gate_okD(1) [OF s] by (rule distinct_upt)
  then have "d = c" using c d by (auto simp: distinct_map dest: inj_onD)
  then show False using g d(2) by simp
qed

section \<open>Properties\<close>

text \<open>
  C33: In every history of a gate the handler sees of each connection nothing, or \<open>OnOpen\<close>, then the messages, then
  at most one \<open>OnClose\<close>, at which the connection is closed and out of the table; and what was written to the
  connection is, in order and without repetition, an initial part of what its queue accepted, which never exceeds its
  capacity.
\<close>

theorem gate_callbacks_in_order:
  assumes "gate_New handler go = Some s" and "c \<in> set (gate_conns (fold gate_step evs s))"
  shows "(gc_log c = [] \<or> (\<exists>ps. gc_log c = OnOpen # map OnMessage ps) \<or>
      (\<exists>ps err. gc_log c = OnOpen # map OnMessage ps @ [OnClose err] \<and> gc_closed c \<and>
        gc_id c \<notin> set (connections (fold gate_step evs s)))) \<and>
    (\<exists>rest. gc_accepted c = gc_written c @ rest) \<and> length (gc_send c) \<le> queue_cap (fold gate_step evs s)"
proof -
  note ok = gate_run_ok [OF assms(1), of evs]
  note c = gate_okD(4) [OF ok assms(2), unfolded conn_ok_def]
  have "gc_closed c \<and> gc_id c \<notin> set (connections (fold gate_step evs s))" if "gc_run c = RunDone"
    using that c not_in_table [OF ok assms(2)] by (simp add: leaving_def gone_def)
  then have "gc_log c = [] \<or> (\<exists>ps. gc_log c = OnOpen # map OnMessage ps) \<or>
      (\<exists>ps err. gc_log c = OnOpen # map OnMessage ps @ [OnClose err] \<and> gc_closed c \<and>
        gc_id c \<notin> set (connections (fold gate_step evs s)))"
    using log_shape_cases [OF conjunct1 [OF c]] by blast
  then show ?thesis using c in_order_prefix by (intro conjI) simp_all
qed

definition demo_gate :: Gate_Options where
  "demo_gate = \<lparr>Address = '''', MaxConnections = 1, g_MaxPayload = 64, g_SendQueue = 2, g_ReadTimeout = 0, g_WriteTimeout = 0,
     g_SendTimeout = 0, g_TCPKeepAlive = 0\<rparr>"

definition demo_gate_events :: "gate_event list" where
  "demo_gate_events = [GStart True, GAccept True, GAdmit, GOpen 0, GRead 0 (Inr ''hi''), GSend 0 GQueue ''a'', GTrySend 0 False ''b'',
     GWrite 0 False True, GRead 0 (Inl (GateIO ''eof'')), GRemove 0, GOnClose 0, GWrite 0 True True]"

definition demo_gate_conn :: Gate_Conn where
  "demo_gate_conn = \<lparr>gc_id = 1, gc_closed = True, gc_send = [''b''], gc_run = RunDone, gc_writer = WriterEnded ErrGateClosed,
     gc_log = [OnOpen, OnMessage ''hi'', OnClose (GateIO ''eof'')], gc_accepted = [''a'', ''b''], gc_written = [''a'']\<rparr>"

lemma demo_gate_run: "gate_conns (fold gate_step demo_gate_events (gate_fresh (gate_defaults demo_gate))) = [demo_gate_conn]"
  by code_simp

theorem gate_callbacks_in_order_witness:
  "gc_run demo_gate_conn = RunDone \<and>
    length (gc_send demo_gate_conn) \<le> queue_cap (fold gate_step demo_gate_events (gate_fresh (gate_defaults demo_gate)))"
proof -
  have "gate_New True demo_gate = Some (gate_fresh (gate_defaults demo_gate))" by (simp add: gate_New_def)
  moreover have "demo_gate_conn \<in> set (gate_conns (fold gate_step demo_gate_events (gate_fresh (gate_defaults demo_gate))))"
    unfolding demo_gate_run by simp
  ultimately have "length (gc_send demo_gate_conn) \<le> queue_cap (fold gate_step demo_gate_events (gate_fresh (gate_defaults demo_gate)))"
    by (intro gate_callbacks_in_order [THEN conjunct2, THEN conjunct2])
  moreover have "gc_run demo_gate_conn = RunDone" by (simp add: demo_gate_conn_def)
  ultimately show ?thesis by (rule conjI [rotated])
qed

text \<open>
  C34: In every history of a gate the table of connections holds, once each and in the order of their numbers, exactly the
  connections whose \<open>run\<close> has not yet removed them, and never more than \<open>MaxConnections\<close>, a positive number by the
  defaults.
\<close>

theorem gate_table_exact:
  assumes "gate_New handler go = Some s"
  shows "connections (fold gate_step evs s) = map gc_id (filter (\<lambda>c. \<not> gone (gc_run c)) (gate_conns (fold gate_step evs s))) \<and>
    sorted_wrt (<) (connections (fold gate_step evs s)) \<and>
    int (length (connections (fold gate_step evs s))) \<le> MaxConnections (g_opts (fold gate_step evs s))"
proof -
  note ok = gate_okD [OF gate_run_ok [OF assms, of evs]]
  have "sorted_wrt (<) (map gc_id (filter P cs))" if "sorted_wrt (<) (map gc_id cs)" for P cs
    using that by (induction cs) auto
  then show ?thesis using ok(1-3) sorted_wrt_upt [of 1 "Suc (nextID (fold gate_step evs s))"] unfolding present_def by metis
qed

theorem gate_table_exact_witness:
  "connections (fold gate_step [GStart True, GAccept True, GAdmit, GAccept True, GAdmit] (gate_fresh (gate_defaults demo_gate))) = [1]"
proof -
  have "gate_New True demo_gate = Some (gate_fresh (gate_defaults demo_gate))" by (simp add: gate_New_def)
  from gate_table_exact [OF this, of "[GStart True, GAccept True, GAdmit, GAccept True, GAdmit]"] show ?thesis
    by (simp, code_simp)
qed


lemma accept_delay_double:
  "0 < k \<Longrightarrow> nextAcceptDelay (min (initialAcceptDelay * 2 ^ (k - 1)) maxAcceptDelay) = min (initialAcceptDelay * 2 ^ k) maxAcceptDelay"
  by (cases k) (auto simp: nextAcceptDelay_def initialAcceptDelay_def maxAcceptDelay_def min_def)

lemma accept_delays_from:
  "snd (Accept (if k = 0 then 0 else min (initialAcceptDelay * 2 ^ (k - 1)) maxAcceptDelay) rounds) =
   map (\<lambda>i. min (initialAcceptDelay * 2 ^ i) maxAcceptDelay)
     [k ..< k + length (snd (Accept (if k = 0 then 0 else min (initialAcceptDelay * 2 ^ (k - 1)) maxAcceptDelay) rounds))]"
proof (induction rounds arbitrary: k)
  case (Cons r rounds)
  have "nextAcceptDelay 0 = min (initialAcceptDelay * 2 ^ 0) maxAcceptDelay"
    by (simp add: nextAcceptDelay_def initialAcceptDelay_def maxAcceptDelay_def)
  then have d: "nextAcceptDelay (if k = 0 then 0 else min (initialAcceptDelay * 2 ^ (k - 1)) maxAcceptDelay) = min (initialAcceptDelay * 2 ^ k) maxAcceptDelay"
    using accept_delay_double [of k] by (cases "k = 0") simp_all
  show ?case
  proof (cases r)
    case (AcceptFailed b a)
    show ?thesis using Cons.IH [of "Suc k"] unfolding AcceptFailed Accept.simps Let_def d
      by (cases b; cases a) (simp_all add: upt_conv_Cons split_def del: upt_Suc)
  qed simp
qed simp

text \<open>
  The delays \<open>Accept\<close> waits after successive errors of the listener are 5 ms, doubled each time and capped at one
  second, whatever the outcomes are; it returns as soon as a round accepts a connection or sees the stop channel closed.
\<close>

theorem accept_backoff_doubles:
  "snd (Accept 0 rounds) = map (\<lambda>i. min (initialAcceptDelay * 2 ^ i) maxAcceptDelay) [0..<length (snd (Accept 0 rounds))] \<and>
   (fst (Accept 0 rounds) = None \<longleftrightarrow> (\<forall>r. r \<in> set rounds \<longrightarrow> r = AcceptFailed False False))"
proof -
  have "(fst (Accept d rounds) = None) = (\<forall>r. r \<in> set rounds \<longrightarrow> r = AcceptFailed False False)" for d
    by (induction d rounds rule: Accept.induct) (auto simp: Let_def split: prod.splits if_splits)
  then show ?thesis using accept_delays_from [of 0 rounds] by simp
qed

theorem accept_backoff_doubles_witness: "snd (Accept 0 (replicate 10 (AcceptFailed False False) @ [Accepted 7])) ! 8 = maxAcceptDelay"
proof -
  define rounds where "rounds = replicate 10 (AcceptFailed False False) @ [Accepted 7]"
  have "length (snd (Accept 0 rounds)) = 10" unfolding rounds_def by code_simp
  then have "snd (Accept 0 rounds) = map (\<lambda>i. min (initialAcceptDelay * 2 ^ i) maxAcceptDelay) [0..<10]"
    using conjunct1 [OF accept_backoff_doubles [of rounds]] by (rule subst [of _ _ "\<lambda>n. _ = map _ [0..<n]"])
  then have "snd (Accept 0 rounds) ! 8 = min (initialAcceptDelay * 2 ^ 8) maxAcceptDelay" by simp
  then show ?thesis unfolding rounds_def by (simp add: initialAcceptDelay_def maxAcceptDelay_def)
qed

end
