(* ===== verification/Spec2Isabelle.thy ===== *)
theory Spec2Isabelle
  imports Actor_Service Actor_Call Actor_Retrier Frame_Codec Timer_Wheel Timer_Engine Timer_Ledger Cluster_Auth Cluster_Answers Cluster_Peer Cluster_Lanes Observe_Wait Observe_Calls App_Runtime Net_SyncPool Net_SendPool Gate_Server
begin

text \<open>
  A verification development of skygo.
\<close>

end
